(* ===== verification/Prelude.thy ===== *)
theory Prelude
  imports Main "HOL-Library.Word"
begin

unbundle bit_operations_syntax

text \<open>
  Shared vocabulary of the development: the machine integer types of the i386 target, the
  outcomes of kernel code that does not return normally, the collections of simplification
  rules the component theories extend, and the generic facts on 32-bit words, lists and
  stores that several components use.
\<close>

section \<open>Machine integers\<close>

type_synonym u8 = "8 word"
type_synonym u16 = "16 word"
type_synonym u32 = "32 word"
type_synonym u64 = "64 word"

text \<open>
  On the target \<open>size_t\<close>, \<open>unsigned int\<close>, \<open>unsigned long\<close>, \<open>uint32_t\<close>, a data pointer and
  a function pointer are all 32 bits wide; pointers are values of \<^typ>\<open>u32\<close>, the null
  pointer is 0.
\<close>

type_synonym addr = u32

section \<open>Outcomes\<close>

text \<open>
  \<open>Panic msg\<close> is a call of \<open>kpanic(msg)\<close>, which prints and halts and so never returns to its
  caller. \<open>Fault what\<close> is an access the C code may not make: a dereference of a null pointer
  or an array index out of range. A function that can end in one of them returns
  \<open>kerror + 'a\<close>, with \<open>Inr\<close> the normal return. A loop that may run forever has an
  \<open>option\<close> around that, \<open>None\<close> being the run that never ends.
\<close>

datatype kerror = Panic string | Fault string

type_synonym 'a result = "kerror + 'a"

text \<open>Sequencing of calls that may fail: the first error ends the caller too.\<close>

fun rbind :: "'a result \<Rightarrow> ('a \<Rightarrow> 'b result) \<Rightarrow> 'b result" where
  "rbind (Inl e) f = Inl e"
| "rbind (Inr x) f = f x"

lemma rbind_eq_Inr: "rbind r f = Inr y \<longleftrightarrow> (\<exists>x. r = Inr x \<and> f x = Inr y)"
  by (cases r) auto

lemma rbind_eq_Inl: "rbind r f = Inl e \<longleftrightarrow> r = Inl e \<or> (\<exists>x. r = Inr x \<and> f x = Inl e)"
  by (cases r) auto

lemma rbind_cong [fundef_cong]:
  "r = r' \<Longrightarrow> (\<And>x. r' = Inr x \<Longrightarrow> f x = g x) \<Longrightarrow> rbind r f = rbind r' g"
  by (cases r) auto

text \<open>The same for calls that may also never return.\<close>

fun obind :: "'a result option \<Rightarrow> ('a \<Rightarrow> 'b result option) \<Rightarrow> 'b result option" where
  "obind None f = None"
| "obind (Some (Inl e)) f = Some (Inl e)"
| "obind (Some (Inr x)) f = f x"

text \<open>A loop over the elements of a list; the body may fail or never return.\<close>

primrec each_opt :: "('x \<Rightarrow> 's \<Rightarrow> 's result option) \<Rightarrow> 'x list \<Rightarrow> 's \<Rightarrow> 's result option" where
  "each_opt f [] s = Some (Inr s)"
| "each_opt f (x # xs) s =
     (case f x s of None \<Rightarrow> None | Some (Inl e) \<Rightarrow> Some (Inl e) | Some (Inr s) \<Rightarrow> each_opt f xs s)"

text \<open>\<open>I\<close> relates what the loop has produced so far to the state; each element adds \<open>g x\<close>.\<close>

lemma each_opt_collects:
  assumes "\<And>x ys s. x \<in> set xs \<Longrightarrow> I ys s \<Longrightarrow> \<exists>s'. f x s = Some (Inr s') \<and> I (ys @ g x) s'"
  shows "I ys s \<Longrightarrow> \<exists>s'. each_opt f xs s = Some (Inr s') \<and> I (ys @ concat (map g xs)) s'"
  using assms
proof (induction xs arbitrary: ys s)
  case (Cons x xs)
  obtain s1 where "f x s = Some (Inr s1)" "I (ys @ g x) s1" using Cons.prems by (meson list.set_intros(1))
  then show ?case using Cons.IH [of "ys @ g x" s1] Cons.prems(2) by auto
qed simp

lemma each_opt_returned:
  assumes "\<And>x ys s s'. x \<in> set xs \<Longrightarrow> f x s = Some (Inr s') \<Longrightarrow> I ys s \<Longrightarrow> I (ys @ g x) s'"
  shows "each_opt f xs s = Some (Inr s') \<Longrightarrow> I ys s \<Longrightarrow> I (ys @ concat (map g xs)) s'"
  using assms
proof (induction xs arbitrary: ys s)
  case (Cons x xs)
  obtain s1 where s1: "f x s = Some (Inr s1)" "each_opt f xs s1 = Some (Inr s')"
    using Cons.prems(1) by (auto split: option.splits sum.splits)
  have "I (ys @ g x) s1" using Cons.prems(2,3) s1(1) by simp
  from Cons.IH [OF s1(2) this] Cons.prems(3) show ?case by simp
qed simp

section \<open>Collections\<close>

named_theorems u32_simps \<open>32-bit arithmetic read as arithmetic on natural numbers\<close>
named_theorems frame_simps \<open>what an update of one object leaves unchanged\<close>

section \<open>32-bit arithmetic\<close>

text \<open>
  Sums and differences that do not wrap are computed on the natural numbers. The side
  conditions are discharged by the bounds of the component invariants.
\<close>

lemma unat_less_2p32 [simp]: "unat (x :: u32) < 4294967296"
proof -
  have "unat x < 2 ^ LENGTH(32)" by (rule unsigned_less)
  then show ?thesis by simp
qed

lemma unat_le_max32 [simp]: "unat (x :: u32) \<le> 4294967295"
  using unat_less_2p32 [of x] by linarith

lemma unat_add32: "unat (a :: u32) + unat b < 4294967296 \<Longrightarrow> unat (a + b) = unat a + unat b"
  by (simp add: unat_word_ariths)

lemma unat_add32_mod: "unat ((a :: u32) + b) = (unat a + unat b) mod 4294967296"
  by (simp add: unat_word_ariths)

lemma unat_mult32: "unat (a :: u32) * unat b < 4294967296 \<Longrightarrow> unat (a * b) = unat a * unat b"
  by (simp add: unat_word_ariths)

lemma unat_sub32: "unat (b :: u32) \<le> unat a \<Longrightarrow> unat (a - b) = unat a - unat b"
  by (simp add: unat_sub word_le_nat_alt)

lemma unat_succ32: "unat (x :: u32) < 4294967295 \<Longrightarrow> unat (x + 1) = unat x + 1"
  using unat_add32 [of x 1] by simp

lemma unat_pred32: "0 < unat (x :: u32) \<Longrightarrow> unat (x - 1) = unat x - 1"
  using unat_sub32 [of 1 x] by simp

lemma unat_of_nat32: "n < 4294967296 \<Longrightarrow> unat (of_nat n :: u32) = n"
  by (simp add: unat_of_nat)

lemma less32_iff: "(a :: u32) < b \<longleftrightarrow> unat a < unat b"
  by (simp add: word_less_nat_alt)

lemma le32_iff: "(a :: u32) \<le> b \<longleftrightarrow> unat a \<le> unat b"
  by (simp add: word_le_nat_alt)

lemma eq32_iff: "(a :: u32) = b \<longleftrightarrow> unat a = unat b"
  by (rule word_unat_eq_iff)

lemma sint_eq32: "sint (a :: u32) = sint b \<Longrightarrow> a = b"
  by (rule signed_word_eqI)

lemma sint_bounds32: "- 2147483648 \<le> sint (a :: u32)" "sint a < 2147483648"
  using sint_ge [of a] sint_lt [of a] by simp_all

lemma sint_nonneg32: "0 \<le> sint (a :: u32) \<Longrightarrow> int (unat a) = sint a"
  using sint_bounds32(2) [of a] by (simp add: uint_sint take_bit_int_eq_self)

lemma unat_word_of_int32: "0 \<le> v \<Longrightarrow> v < 4294967296 \<Longrightarrow> unat (word_of_int v :: u32) = nat v"
  by (simp add: unsigned_of_int take_bit_int_eq_self)

declare less32_iff [u32_simps] le32_iff [u32_simps]

text \<open>Masks with contiguous bits are remainders and multiples.\<close>

lemma and_low_mask: "(x :: 'a::len word) AND (2 ^ n - 1) = take_bit n x"
  by (simp add: take_bit_eq_mask mask_eq_exp_minus_1)

lemma unat_take_bit: "unat (take_bit n x :: 'a::len word) = unat x mod 2 ^ n"
proof -
  have "unat (take_bit n x) = take_bit n (unat x)"
    by transfer (simp add: take_bit_take_bit min_def nat_take_bit_eq [symmetric] ac_simps)
  then show ?thesis by (simp add: take_bit_eq_mod)
qed

lemma page_mask_eq: "(x :: u32) AND 0xFFFFF000 = x - take_bit 12 x"
proof -
  have "(0xFFFFF000 :: u32) = NOT (mask 12)" by (simp add: mask_eq_exp_minus_1 not_eq_complement)
  moreover have "x - take_bit 12 x = x AND NOT (take_bit 12 x)"
    by (rule disjunctive_diff_eq_and_not) (auto simp: bit_eq_iff bit_simps)
  moreover have "x AND NOT (take_bit 12 x) = x AND NOT (mask 12)"
    by (rule bit_word_eqI) (auto simp: bit_simps)
  ultimately show ?thesis by simp
qed

lemma unat_page_mask: "unat ((x :: u32) AND 0xFFFFF000) = 4096 * (unat x div 4096)"
proof -
  have "unat (take_bit 12 x) \<le> unat x" by (simp add: unat_take_bit)
  then have "unat (x - take_bit 12 x) = unat x - unat (take_bit 12 x)" by (rule unat_sub32)
  then show ?thesis
    by (simp add: page_mask_eq unat_take_bit minus_mod_eq_mult_div [symmetric])
qed

lemma page_mask_align: "unat ((x :: u32) AND 0xFFFFF000) mod 4096 = 0"
  by (simp add: unat_page_mask)

section \<open>Stores\<close>

text \<open>A typed store maps the address of an object to its contents; \<open>upd_at\<close> changes one.\<close>

definition upd_at :: "('o \<Rightarrow> 'o) \<Rightarrow> addr \<Rightarrow> (addr \<Rightarrow> 'o) \<Rightarrow> (addr \<Rightarrow> 'o)" where
  "upd_at f a m = m(a := f (m a))"

lemma upd_at_same [simp]: "upd_at f a m a = f (m a)"
  by (simp add: upd_at_def)

lemma upd_at_other [simp]: "b \<noteq> a \<Longrightarrow> upd_at f a m b = m b"
  by (simp add: upd_at_def)

lemma upd_at_apply: "upd_at f a m b = (if b = a then f (m b) else m b)"
  by (simp add: upd_at_def)

section \<open>Bit fields\<close>

text \<open>
  The packed descriptors and addresses are unions of masked and shifted parts; these facts say
  which bit of which part a bit of the whole is. Masks are read as shifted \<^const>\<open>mask\<close>s.
\<close>

lemma field_masks:
  "(0xFF000000 :: u32) = push_bit 24 (mask 8)" "(0x00F00000 :: u32) = push_bit 20 (mask 4)"
  "(0x000F0000 :: u32) = push_bit 16 (mask 4)" "(0x0000FF00 :: u32) = push_bit 8 (mask 8)"
  "(0x000000FF :: u32) = mask 8" "(0xFFFF0000 :: u32) = push_bit 16 (mask 16)" "(0x0000FFFF :: u32) = mask 16"
  "(0x000FFFFF :: u32) = mask 20" "(0x0F :: u8) = mask 4" "(0xF0 :: u8) = push_bit 4 (mask 4)"
  by (simp_all add: mask_eq_exp_minus_1)

lemma bit_part:
  "bit (ucast (x AND push_bit k (mask n) :: u32) :: u64) i \<longleftrightarrow> k \<le> i \<and> i < k + n \<and> bit x i"
  "bit (ucast (x AND mask n :: u32) :: u64) i \<longleftrightarrow> i < n \<and> bit x i"
  by (auto simp: bit_simps dest: bit_imp_le_length)

lemma bit_shifted:
  "bit (push_bit k (x :: u64)) i \<longleftrightarrow> k \<le> i \<and> i < 64 \<and> bit x (i - k)"
  "bit (push_bit k (y :: u32)) i \<longleftrightarrow> k \<le> i \<and> i < 32 \<and> bit y (i - k)"
  "bit (drop_bit k y) i \<longleftrightarrow> bit y (k + i)"
  "bit (ucast (z :: u16) :: u32) i \<longleftrightarrow> bit z i"
  by (auto simp: bit_simps dest: bit_imp_le_length)

lemma field_bits:
  "bit (ucast (ucast (drop_bit k e) :: u16) :: u32) i \<longleftrightarrow> i < 16 \<and> bit (e :: u64) (k + i)"
  "bit (ucast (ucast (drop_bit k e) :: u8) :: u32) i \<longleftrightarrow> i < 8 \<and> bit e (k + i)"
  "bit (ucast (ucast e :: u16) :: u32) i \<longleftrightarrow> i < 16 \<and> bit e i"
  "bit (ucast (ucast (drop_bit k e) AND mask n :: u8) :: u32) i \<longleftrightarrow> i < 8 \<and> i < n \<and> bit e (k + i)"
  "bit (ucast (ucast (drop_bit k e) AND push_bit j (mask n) :: u8) :: u16) i \<longleftrightarrow> i < 8 \<and> j \<le> i \<and> i < j + n \<and> bit e (k + i)"
  "bit (ucast (ucast (drop_bit k e) :: u8) :: u16) i \<longleftrightarrow> i < 8 \<and> bit e (k + i)"
  by (auto simp add: bit_unsigned_iff bit_and_iff bit_drop_bit_eq bit_mask_iff bit_push_bit_iff)

end
