(* ===== verification/Paging.thy ===== *)
theory Paging
  imports Prelude
begin

text \<open>
  The i386 paging structures of \<open>arch/i386/paging.c\<close> and \<open>include/i386/paging.h\<close>: attribute
  and frame accessors of directory and table entries, the two lookups, the translation
  \<open>virt_to_phys\<close> that walks them, and \<open>paging_init\<close>, which builds the kernel's directory.
  Directories and tables live in typed stores indexed by their virtual address.
\<close>

section \<open>Data\<close>

record page_table_t =
  pt_entries :: "nat \<Rightarrow> u32"

record page_directory_t =
  pd_entries :: "nat \<Rightarrow> u32"
  pd_tables :: "nat \<Rightarrow> addr"
  pd_phys :: u32

record paging =
  pds :: "addr \<Rightarrow> page_directory_t"
  pts :: "addr \<Rightarrow> page_table_t"
  kernel_pd :: addr
  current_pd :: addr
  cr3 :: u32

definition KERNEL_PMA :: u32 where "KERNEL_PMA = 0x00100000"
definition KERNEL_VMA :: u32 where "KERNEL_VMA = 0xC0000000"
definition KERNEL_SIZE :: u32 where "KERNEL_SIZE = 0x00300000"

definition PDE_PRESENT :: u32 where "PDE_PRESENT = 0x1"
definition PDE_WRITABLE :: u32 where "PDE_WRITABLE = 0x2"
definition PDE_4MB :: u32 where "PDE_4MB = 0x80"
definition PDE_FRAME :: u32 where "PDE_FRAME = 0xFFFFF000"
definition PTE_PRESENT :: u32 where "PTE_PRESENT = 0x1"
definition PTE_FRAME :: u32 where "PTE_FRAME = 0xFFFFF000"

lemmas paging_consts = KERNEL_PMA_def KERNEL_VMA_def KERNEL_SIZE_def PDE_PRESENT_def
  PDE_WRITABLE_def PDE_4MB_def PDE_FRAME_def PTE_PRESENT_def PTE_FRAME_def

section \<open>Entry accessors\<close>

definition pde_set_attrib :: "u32 \<Rightarrow> u32 \<Rightarrow> u32" where
  "pde_set_attrib e attrib = e OR attrib"

definition pde_clear_attrib :: "u32 \<Rightarrow> u32 \<Rightarrow> u32" where
  "pde_clear_attrib e attrib = e AND NOT attrib"

definition pde_get_attrib :: "u32 \<Rightarrow> u32 \<Rightarrow> u32" where
  "pde_get_attrib e attrib = e AND attrib"

definition pde_set_frame :: "u32 \<Rightarrow> u32 \<Rightarrow> u32" where
  "pde_set_frame e a = (e AND NOT PDE_FRAME) OR (a AND PDE_FRAME)"

definition pde_get_frame :: "u32 \<Rightarrow> u32" where
  "pde_get_frame e = e AND PDE_FRAME"

definition pte_set_attrib :: "u32 \<Rightarrow> u32 \<Rightarrow> u32" where
  "pte_set_attrib e attrib = e OR attrib"

definition pte_clear_attrib :: "u32 \<Rightarrow> u32 \<Rightarrow> u32" where
  "pte_clear_attrib e attrib = e AND NOT attrib"

definition pte_get_attrib :: "u32 \<Rightarrow> u32 \<Rightarrow> u32" where
  "pte_get_attrib e attrib = e AND attrib"

definition pte_set_frame :: "u32 \<Rightarrow> u32 \<Rightarrow> u32" where
  "pte_set_frame e a = (e AND NOT PTE_FRAME) OR (a AND PTE_FRAME)"

definition pte_get_frame :: "u32 \<Rightarrow> u32" where
  "pte_get_frame e = e AND PTE_FRAME"

text \<open>
  The lookups return the address of an entry, a structure and an index into it; \<open>None\<close> is the
  null pointer they return for a null structure.
\<close>

definition pd_lookup :: "addr \<Rightarrow> u32 \<Rightarrow> (addr \<times> nat) option" where
  "pd_lookup pd a = (if pd \<noteq> 0 then Some (pd, unat (drop_bit 22 a AND 0x3FF)) else None)"

definition pt_lookup :: "addr \<Rightarrow> u32 \<Rightarrow> (addr \<times> nat) option" where
  "pt_lookup pt a = (if pt \<noteq> 0 then Some (pt, unat (drop_bit 12 a AND 0x3FF)) else None)"

section \<open>Translation\<close>

definition virt_to_phys :: "paging \<Rightarrow> u32 \<Rightarrow> u32 result" where
  "virt_to_phys g v =
     (case pd_lookup (current_pd g) v of
        None \<Rightarrow> Inl (Fault ''virt_to_phys: null directory entry'')
      | Some (pd, i) \<Rightarrow>
          let pde = pd_entries (pds g pd) i in
          if pde_get_attrib pde PDE_PRESENT = 0 then Inr 0
          else if pde_get_attrib pde PDE_4MB \<noteq> 0
            then Inr (pde_get_frame pde OR (v AND 0x003FFFFF))
          else
            (case pt_lookup (pd_tables (pds g (current_pd g)) (unat (drop_bit 22 v AND 0x3FF))) v of
               None \<Rightarrow> Inl (Fault ''virt_to_phys: null table entry'')
             | Some (pt, j) \<Rightarrow>
                 let pte = pt_entries (pts g pt) j in
                 if pte_get_attrib pte PTE_PRESENT = 0 then Inr 0
                 else Inr (pte_get_frame pte OR (v AND NOT PTE_FRAME))))"

definition get_kernel_pd :: "paging \<Rightarrow> addr" where
  "get_kernel_pd g = kernel_pd g"

definition get_current_pd :: "paging \<Rightarrow> addr" where
  "get_current_pd g = current_pd g"

section \<open>Initialisation\<close>

text \<open>
  \<open>paging_init\<close> zeroes the static directory \<open>_kernel_pd\<close> (at \<open>kpd\<close>), enters one 4 MiB page
  that maps physical 0 at \<open>KERNEL_VMA\<close> and loads the directory. The registration of the page
  fault handler that ends the C function is part of the interrupt component, so its result is
  the argument \<open>isr_failed\<close>.
\<close>

definition set_pde :: "addr \<times> nat \<Rightarrow> (u32 \<Rightarrow> u32) \<Rightarrow> paging \<Rightarrow> paging" where
  "set_pde e f g = g\<lparr>pds := upd_at (\<lambda>d. d\<lparr>pd_entries := (pd_entries d)(snd e := f (pd_entries d (snd e)))\<rparr>)
     (fst e) (pds g)\<rparr>"

definition zero_pd :: page_directory_t where
  "zero_pd = \<lparr>pd_entries = (\<lambda>_. 0), pd_tables = (\<lambda>_. 0), pd_phys = 0\<rparr>"

definition paging_init :: "addr \<Rightarrow> bool \<Rightarrow> paging \<Rightarrow> paging result" where
  "paging_init kpd isr_failed g =
     (let g1 = g\<lparr>kernel_pd := kpd, pds := (pds g)(kpd := zero_pd)\<rparr>;
          g2 = g1\<lparr>pds := upd_at (\<lambda>d. d\<lparr>pd_phys := kpd - KERNEL_VMA\<rparr>) kpd (pds g1)\<rparr>
      in case pd_lookup (kernel_pd g2) KERNEL_VMA of
           None \<Rightarrow> Inl (Fault ''paging_init: null directory entry'')
         | Some pde \<Rightarrow>
             let g3 = set_pde pde (\<lambda>e. pde_set_attrib e PDE_PRESENT) g2;
                 g4 = set_pde pde (\<lambda>e. pde_set_attrib e PDE_WRITABLE) g3;
                 g5 = set_pde pde (\<lambda>e. pde_set_attrib e PDE_4MB) g4;
                 g6 = set_pde pde (\<lambda>e. pde_set_frame e 0) g5;
                 g7 = g6\<lparr>current_pd := kernel_pd g6\<rparr>;
                 g8 = g7\<lparr>cr3 := pd_phys (pds g7 (kernel_pd g7))\<rparr>
             in if isr_failed then Inl (Panic ''could not register page fault handler'')
                else Inr g8)"

section \<open>Properties of the accessors\<close>

lemma pte_frame_word: "(PTE_FRAME :: u32) = NOT (mask 12)"
  by (simp add: PTE_FRAME_def mask_eq_exp_minus_1 not_eq_complement)

lemma pde_frame_word: "(PDE_FRAME :: u32) = NOT (mask 12)"
  by (simp add: PDE_FRAME_def mask_eq_exp_minus_1 not_eq_complement)

lemma pte_frame_attrib_split: "pte_get_frame e OR (e AND NOT PTE_FRAME) = e"
  by (rule bit_word_eqI) (auto simp: pte_get_frame_def pte_frame_word bit_simps)

text \<open>Setting a frame and setting attributes do not disturb one another.\<close>

lemma pte_get_set_frame: "pte_get_frame (pte_set_frame e a) = a AND PTE_FRAME"
  by (rule bit_word_eqI) (auto simp: pte_get_frame_def pte_set_frame_def pte_frame_word bit_simps)

lemma pte_set_frame_attrib:
  "attrib AND PTE_FRAME = 0 \<Longrightarrow> pte_get_attrib (pte_set_frame e a) attrib = pte_get_attrib e attrib"
  by (auto simp: pte_get_attrib_def pte_set_frame_def pte_frame_word bit_eq_iff bit_simps)

lemma pte_attrib_frame:
  "attrib AND PTE_FRAME = 0 \<Longrightarrow> pte_get_frame (pte_set_attrib e attrib) = pte_get_frame e"
  by (auto simp: pte_set_attrib_def pte_get_frame_def pte_frame_word bit_eq_iff bit_simps)

lemma pte_clear_set_attrib: "pte_get_attrib (pte_clear_attrib e attrib) attrib = 0"
  by (rule bit_word_eqI) (auto simp: pte_get_attrib_def pte_clear_attrib_def bit_simps)

lemma dir_index_bound: "unat (drop_bit 22 (v :: u32) AND 0x3FF) = unat v div 4194304"
proof -
  have "drop_bit 22 v AND 0x3FF = take_bit 10 (drop_bit 22 v)"
    using and_low_mask [of "drop_bit 22 v" 10] by simp
  then have "unat (drop_bit 22 v AND 0x3FF) = unat (drop_bit 22 v) mod 1024"
    by (simp add: unat_take_bit)
  moreover have "unat v div 4194304 < 1024" using unat_less_2p32 [of v] by linarith
  ultimately show ?thesis by (simp add: unat_drop_bit_eq drop_bit_eq_div unat_div)
qed

lemma table_index_bound: "unat (drop_bit 12 (v :: u32) AND 0x3FF) = unat v div 4096 mod 1024"
  using and_low_mask [of "drop_bit 12 v" 10]
  by (simp add: unat_take_bit unat_drop_bit_eq drop_bit_eq_div unat_div)

section \<open>Correctness of the translation\<close>

text \<open>
  The directory \<open>paging_init\<close> leaves behind: all entries empty but number 768, which holds
  the present, writable 4 MiB page of physical address 0.
\<close>

lemma paging_init_pd:
  assumes "kpd \<noteq> 0"
  shows "\<exists>g'. paging_init kpd False g = Inr g' \<and> current_pd g' = kpd \<and> kernel_pd g' = kpd
    \<and> cr3 g' = kpd - KERNEL_VMA
    \<and> pds g' kpd = \<lparr>pd_entries = (\<lambda>_. 0)(768 := 0x83), pd_tables = (\<lambda>_. 0),
        pd_phys = kpd - KERNEL_VMA\<rparr>"
  using assms
  by (simp add: paging_init_def pd_lookup_def set_pde_def zero_pd_def Let_def upd_at_def
      pde_set_attrib_def pde_set_frame_def paging_consts)

lemma dir_window: "n div 4194304 = 768 \<longleftrightarrow> 0xC0000000 \<le> n \<and> n < 0xC0400000" for n :: nat
  using mult_div_mod_eq [of 4194304 n] mod_less_divisor [of 4194304 n] by linarith

lemma low_22_add: "unat ((v :: u32) AND 0x003FFFFF) = unat v mod 4194304"
  using and_low_mask [of v 22] by (simp add: unat_take_bit)

lemma page_offset_disjoint:
  "unat ((f AND PTE_FRAME) OR (v AND NOT PTE_FRAME)) = 4096 * (unat (f :: u32) div 4096) + unat v mod 4096"
proof -
  have "(f AND PTE_FRAME) OR (v AND NOT PTE_FRAME) = (f AND PTE_FRAME) + (v AND NOT PTE_FRAME)"
    by (rule disjunctive_add_eq_or [symmetric])
      (auto simp: pte_frame_word bit_eq_iff bit_simps)
  moreover have "v AND NOT PTE_FRAME = take_bit 12 v"
    by (simp add: pte_frame_word take_bit_eq_mask)
  moreover have "4096 * (unat f div 4096) + unat v mod 4096 < 4294967296"
    using less_mult_imp_div_less [of "unat f" 1048576 4096] mod_less_divisor [of 4096 "unat v"]
    by simp
  ultimately show ?thesis
    by (simp add: PTE_FRAME_def unat_page_mask unat_take_bit unat_add32)
qed

lemma paging_init_map:
  assumes "kpd \<noteq> 0" and "paging_init kpd False g = Inr g'"
  shows "virt_to_phys g' v =
    Inr (if 0xC0000000 \<le> unat v \<and> unat v < 0xC0400000 then v - KERNEL_VMA else 0)"
proof -
  obtain cur: "current_pd g' = kpd" and
    pd: "pds g' kpd = \<lparr>pd_entries = (\<lambda>_. 0)(768 := 0x83), pd_tables = (\<lambda>_. 0), pd_phys = kpd - KERNEL_VMA\<rparr>"
    using paging_init_pd [OF assms(1), of g] assms(2) by auto
  show ?thesis
  proof (cases "unat v div 4194304 = 768")
    case True
    then have range: "0xC0000000 \<le> unat v" "unat v < 0xC0400000" by (simp_all add: dir_window)
    have "unat (v - KERNEL_VMA) = unat v - 0xC0000000"
      using range by (simp add: unat_sub32 KERNEL_VMA_def)
    also have "\<dots> = unat v mod 4194304" using True by (simp add: modulo_nat_def)
    finally have "v AND 0x003FFFFF = v - KERNEL_VMA"
      by (simp add: eq32_iff low_22_add)
    then show ?thesis
      using True range assms(1)
      by (simp add: virt_to_phys_def pd_lookup_def dir_index_bound cur pd pde_get_attrib_def
          pde_get_frame_def paging_consts)
  next
    case False
    then have "\<not> (0xC0000000 \<le> unat v \<and> unat v < 0xC0400000)" by (simp add: dir_window)
    with False assms(1) show ?thesis
      by (auto simp: virt_to_phys_def pd_lookup_def dir_index_bound cur pd pde_get_attrib_def)
  qed
qed

text \<open>
  C11. After \<open>paging_init\<close> the kernel's address space is exactly the first 4 MiB of physical
  memory seen at \<open>KERNEL_VMA\<close>: an address in that window translates to its offset from
  \<open>KERNEL_VMA\<close>, every other address (the former identity mapping included) to 0, "not mapped".
\<close>

theorem paging_init_translation:
  assumes "kpd \<noteq> 0" and "paging_init kpd False g = Inr g'"
  shows "virt_to_phys g' v =
    Inr (if 0xC0000000 \<le> unat v \<and> unat v < 0xC0400000 then v - KERNEL_VMA else 0)"
  using assms by (rule paging_init_map)

definition paging0 :: paging where
  "paging0 = \<lparr>pds = (\<lambda>_. zero_pd), pts = (\<lambda>_. \<lparr>pt_entries = (\<lambda>_. 0)\<rparr>), kernel_pd = 0, current_pd = 0, cr3 = 0\<rparr>"

theorem paging_init_translation_witness:
  "\<exists>g'. paging_init 0xC0105000 False paging0 = Inr g' \<and> virt_to_phys g' 0xC00B8000 = Inr 0xB8000"
proof -
  obtain g' where g': "paging_init 0xC0105000 False paging0 = Inr g'"
    using paging_init_pd [of "0xC0105000" paging0] by auto
  have "virt_to_phys g' 0xC00B8000 = Inr 0xB8000"
    using paging_init_translation [OF _ g', of "0xC00B8000"] by (simp add: KERNEL_VMA_def)
  with g' show ?thesis by blast
qed

text \<open>
  For an address under a present 4 KiB page the translation is total and page-granular:
  the result is the page's frame plus the offset of the address in its page.
\<close>

theorem virt_to_phys_4k:
  assumes "current_pd g \<noteq> 0"
    and "pde = pd_entries (pds g (current_pd g)) (unat v div 4194304)"
    and "pde AND PDE_PRESENT \<noteq> 0" and "pde AND PDE_4MB = 0"
    and "pt = pd_tables (pds g (current_pd g)) (unat v div 4194304)" and "pt \<noteq> 0"
    and "pte = pt_entries (pts g pt) (unat v div 4096 mod 1024)" and "pte AND PTE_PRESENT \<noteq> 0"
  shows "\<exists>p. virt_to_phys g v = Inr p \<and> unat p = 4096 * (unat pte div 4096) + unat v mod 4096"
  using assms
  by (simp add: virt_to_phys_def pd_lookup_def pt_lookup_def dir_index_bound table_index_bound
      pde_get_attrib_def pte_get_attrib_def pte_get_frame_def page_offset_disjoint)

definition paging_4k :: paging where
  "paging_4k = paging0\<lparr>current_pd := 0xC0105000,
     pds := (\<lambda>_. zero_pd\<lparr>pd_entries := (\<lambda>_. 0x3), pd_tables := (\<lambda>_. 0xC0200000)\<rparr>),
     pts := (\<lambda>_. \<lparr>pt_entries = (\<lambda>_. 0x00345003)\<rparr>)\<rparr>"

theorem virt_to_phys_4k_witness:
  "\<exists>p. virt_to_phys paging_4k 0x08048123 = Inr p \<and> unat p = 0x345123"
proof -
  have cur: "current_pd paging_4k \<noteq> 0" by (simp add: paging_4k_def)
  have pde: "0x3 = pd_entries (pds paging_4k (current_pd paging_4k)) (unat (0x08048123 :: u32) div 4194304)"
    by (simp add: paging_4k_def)
  have pt: "0xC0200000 = pd_tables (pds paging_4k (current_pd paging_4k)) (unat (0x08048123 :: u32) div 4194304)"
    by (simp add: paging_4k_def)
  have pte: "0x00345003 = pt_entries (pts paging_4k 0xC0200000) (unat (0x08048123 :: u32) div 4096 mod 1024)"
    by (simp add: paging_4k_def)
  show ?thesis
    using virt_to_phys_4k [OF cur pde _ _ pt _ pte]
    by (simp add: PDE_PRESENT_def PDE_4MB_def PTE_PRESENT_def)
qed

end
