(* ===== verification/Kalloc.thy ===== *)
theory Kalloc
  imports Paging
begin

text \<open>
  The kernel heap of \<open>kernel/kalloc.c\<close>: a doubly linked list of block headers that tiles the
  heap region, first-fit allocation with splitting (plain and page aligned) and a free that
  merges with both neighbours. The first part translates the C functions over a typed store of
  headers; the second part gives the abstract heap, a list of blocks, and proves that the C
  functions implement the abstract operations on it.
\<close>

section \<open>Data\<close>

record header_t =
  magic :: u32
  hsize :: u32
  allocated :: u32
  hprev :: addr
  hnext :: addr

record heap =
  kheap :: addr
  hdr :: "addr \<Rightarrow> header_t"

definition HEAP_MAGIC :: u32 where "HEAP_MAGIC = 0xDEADBEEF"

text \<open>\<open>sizeof(header_t)\<close>: five 32-bit fields.\<close>

definition HDR :: u32 where "HDR = 20"

definition upd_hdr :: "(header_t \<Rightarrow> header_t) \<Rightarrow> addr \<Rightarrow> heap \<Rightarrow> heap" where
  "upd_hdr f a s = s\<lparr>hdr := upd_at f a (hdr s)\<rparr>"

section \<open>The C functions\<close>

definition split_block :: "heap \<Rightarrow> addr \<Rightarrow> u32 \<Rightarrow> addr \<times> heap" where
  "split_block s h dist =
     (if dist > hsize (hdr s h) - HDR \<or> dist < HDR then (0, s)
      else
        let new_h = h + dist;
            s = upd_hdr (\<lambda>x. x\<lparr>hsize := hsize (hdr s h) - dist\<rparr>) new_h s;
            s = upd_hdr (\<lambda>x. x\<lparr>allocated := allocated (hdr s h)\<rparr>) new_h s;
            s = upd_hdr (\<lambda>x. x\<lparr>magic := HEAP_MAGIC\<rparr>) new_h s;
            s = upd_hdr (\<lambda>x. x\<lparr>hsize := dist\<rparr>) h s;
            s = (if hnext (hdr s h) \<noteq> 0
                 then upd_hdr (\<lambda>x. x\<lparr>hprev := new_h\<rparr>) (hnext (hdr s h)) s else s);
            s = upd_hdr (\<lambda>x. x\<lparr>hnext := hnext (hdr s h)\<rparr>) new_h s;
            s = upd_hdr (\<lambda>x. x\<lparr>hnext := new_h\<rparr>) h s;
            s = upd_hdr (\<lambda>x. x\<lparr>hprev := h\<rparr>) new_h s
        in (new_h, s))"

text \<open>
  The two branches of the allocation, once a big enough free block \<open>h\<close> is found. In the
  aligned one the header of the new block ends where the aligned payload starts; writing
  through a null result of \<open>split_block\<close> is a fault.
\<close>

definition page_align :: "addr \<Rightarrow> u32" where
  "page_align h = (h + 2 * HDR + 0x0FFF) AND 0xFFFFF000"

definition take_aligned :: "heap \<Rightarrow> addr \<Rightarrow> u32 \<Rightarrow> (addr \<times> heap) result" where
  "take_aligned s h sz =
     (let (new_h, s) = split_block s h (page_align h - h - HDR) in
      if new_h = 0 then Inl (Fault ''kmalloc: null block'')
      else
        let s = upd_hdr (\<lambda>x. x\<lparr>allocated := 1\<rparr>) new_h s in
        if hsize (hdr s new_h) > sz + 2 * HDR then
          let (back_h, s) = split_block s new_h (HDR + sz) in
          if back_h = 0 then Inl (Fault ''kmalloc: null block'')
          else Inr (new_h + HDR, upd_hdr (\<lambda>x. x\<lparr>allocated := 0\<rparr>) back_h s)
        else Inr (new_h + HDR, s))"

definition take_plain :: "heap \<Rightarrow> addr \<Rightarrow> u32 \<Rightarrow> addr \<times> heap" where
  "take_plain s h sz =
     (if hsize (hdr s h) < sz + 2 * HDR
      then (h + HDR, upd_hdr (\<lambda>x. x\<lparr>allocated := 1\<rparr>) h s)
      else (let (new_h, s) = split_block s h (HDR + sz)
            in (h + HDR, upd_hdr (\<lambda>x. x\<lparr>allocated := 1\<rparr>) h s)))"

text \<open>
  The search loop. In the aligned case the two \<open>continue\<close> statements of the C code jump back
  to the loop test without advancing \<open>h\<close>, which the recursive calls on the same \<open>h\<close> keep.
\<close>

partial_function (option) kmalloc_loop ::
    "heap \<Rightarrow> u32 \<Rightarrow> bool \<Rightarrow> addr \<Rightarrow> (addr \<times> heap) result option" where
  "kmalloc_loop s sz align h =
     (if h = 0 then Some (Inr (0, s))
      else if magic (hdr s h) \<noteq> HEAP_MAGIC then Some (Inl (Panic ''kmalloc: heap magic violated''))
      else if allocated (hdr s h) = 0 \<and> hsize (hdr s h) \<ge> sz + HDR then
        (if align then
           (if page_align h - h < HDR then kmalloc_loop s sz align h
            else if page_align h + sz > h + hsize (hdr s h) then kmalloc_loop s sz align h
            else Some (take_aligned s h sz))
         else Some (Inr (take_plain s h sz)))
      else kmalloc_loop s sz align (hnext (hdr s h)))"

definition round_size :: "u32 \<Rightarrow> u32" where
  "round_size sz = sz + sz mod 4"

definition kmalloc_int :: "heap \<Rightarrow> u32 \<Rightarrow> bool \<Rightarrow> (addr \<times> heap) result option" where
  "kmalloc_int s sz align =
     (if sz = 0 then Some (Inr (0, s))
      else if kheap s = 0
        then Some (Inl (Panic ''kmalloc: tried to allocate memory before heap initialization''))
      else kmalloc_loop s (round_size sz) align (kheap s))"

definition kmalloc :: "heap \<Rightarrow> u32 \<Rightarrow> (addr \<times> heap) result option" where
  "kmalloc s sz = kmalloc_int s sz False"

definition kmalloc_a :: "heap \<Rightarrow> u32 \<Rightarrow> (addr \<times> heap) result option" where
  "kmalloc_a s sz = kmalloc_int s sz True"

text \<open>\<open>kmalloc_ap\<close> also reports the physical address of the result, if asked to.\<close>

definition kmalloc_ap ::
    "paging \<Rightarrow> heap \<Rightarrow> u32 \<Rightarrow> bool \<Rightarrow> (addr \<times> u32 option \<times> heap) result option" where
  "kmalloc_ap g s sz want_phys =
     map_option (\<lambda>r. rbind r (\<lambda>(a, s').
        if want_phys then rbind (virt_to_phys g a) (\<lambda>p. Inr (a, Some p, s'))
        else Inr (a, None, s')))
       (kmalloc_int s sz True)"

definition kheap_init :: "addr \<Rightarrow> u32 \<Rightarrow> heap \<Rightarrow> heap" where
  "kheap_init start sz s =
     (let s = s\<lparr>kheap := start\<rparr>;
          s = upd_hdr (\<lambda>x. x\<lparr>hsize := sz\<rparr>) (kheap s) s;
          s = upd_hdr (\<lambda>x. x\<lparr>allocated := 0\<rparr>) (kheap s) s;
          s = upd_hdr (\<lambda>x. x\<lparr>magic := HEAP_MAGIC\<rparr>) (kheap s) s;
          s = upd_hdr (\<lambda>x. x\<lparr>hnext := 0\<rparr>) (kheap s) s
      in upd_hdr (\<lambda>x. x\<lparr>hprev := 0\<rparr>) (kheap s) s)"

partial_function (option) sanity_loop :: "heap \<Rightarrow> addr \<Rightarrow> addr \<Rightarrow> unit result option" where
  "sanity_loop s h temp =
     (if h = 0 then Some (Inr ())
      else if magic (hdr s h) \<noteq> HEAP_MAGIC then Some (Inl (Panic ''kheap: heap magic violated''))
      else if temp \<noteq> hprev (hdr s h) then Some (Inl (Panic ''kheap: bad prev pointer''))
      else sanity_loop s (hnext (hdr s h)) h)"

definition heap_sanity_check :: "heap \<Rightarrow> unit result option" where
  "heap_sanity_check s = sanity_loop s (kheap s) 0"

text \<open>\<open>heap_print_info\<close> prints three numbers: total, free and used KiB.\<close>

partial_function (option) print_loop :: "heap \<Rightarrow> addr \<Rightarrow> u32 \<Rightarrow> u32 \<Rightarrow> (u32 \<times> u32) option" where
  "print_loop s h free used =
     (if h = 0 then Some (free, used)
      else if allocated (hdr s h) \<noteq> 0 then print_loop s (hnext (hdr s h)) free (used + hsize (hdr s h))
      else print_loop s (hnext (hdr s h)) (free + hsize (hdr s h)) used)"

definition heap_print_info :: "heap \<Rightarrow> (u32 \<times> u32 \<times> u32) option" where
  "heap_print_info s =
     map_option (\<lambda>(free, used). ((free + used) div 1024, free div 1024, used div 1024))
       (print_loop s (kheap s) 0 0)"

definition merge_next :: "addr \<Rightarrow> heap \<Rightarrow> heap" where
  "merge_next h s =
     (if hnext (hdr s h) \<noteq> 0 \<and> allocated (hdr s (hnext (hdr s h))) = 0 then
        let s = upd_hdr (\<lambda>x. x\<lparr>hsize := hsize x + hsize (hdr s (hnext (hdr s h)))\<rparr>) h s;
            s = (if hnext (hdr s (hnext (hdr s h))) \<noteq> 0
                 then upd_hdr (\<lambda>x. x\<lparr>hprev := h\<rparr>) (hnext (hdr s (hnext (hdr s h)))) s else s)
        in upd_hdr (\<lambda>x. x\<lparr>hnext := hnext (hdr s (hnext (hdr s h)))\<rparr>) h s
      else s)"

definition merge_prev :: "addr \<Rightarrow> heap \<Rightarrow> heap" where
  "merge_prev h s =
     (if hprev (hdr s h) \<noteq> 0 \<and> allocated (hdr s (hprev (hdr s h))) = 0 then
        let s = upd_hdr (\<lambda>x. x\<lparr>hsize := hsize x + hsize (hdr s h)\<rparr>) (hprev (hdr s h)) s;
            s = (if hnext (hdr s h) \<noteq> 0
                 then upd_hdr (\<lambda>x. x\<lparr>hprev := hprev (hdr s h)\<rparr>) (hnext (hdr s h)) s else s)
        in upd_hdr (\<lambda>x. x\<lparr>hnext := hnext (hdr s h)\<rparr>) (hprev (hdr s h)) s
      else s)"

definition kfree :: "heap \<Rightarrow> addr \<Rightarrow> heap result" where
  "kfree s ptr =
     (if ptr = 0 then Inr s
      else
        let h = ptr - HDR in
        if magic (hdr s h) \<noteq> HEAP_MAGIC then Inl (Panic ''kfree: heap magic violated'')
        else Inr (merge_prev h (merge_next h (upd_hdr (\<lambda>x. x\<lparr>allocated := 0\<rparr>) h s))))"

section \<open>The abstract heap\<close>

text \<open>
  The heap is a list of blocks (address, size with header, in use), in address order.
  \<open>cseg m p h bs q k\<close>: following \<open>next\<close> from \<open>h\<close> (whose predecessor is \<open>p\<close>) the headers in
  the store \<open>m\<close> spell out \<open>bs\<close>; the segment ends at the last header \<open>q\<close> with the outgoing
  pointer \<open>k\<close>. \<open>chain\<close> is a segment that ends in a null pointer.
\<close>

type_synonym blk = "addr \<times> u32 \<times> bool"

definition blk_ok :: "(addr \<Rightarrow> header_t) \<Rightarrow> addr \<Rightarrow> addr \<Rightarrow> u32 \<Rightarrow> bool \<Rightarrow> bool" where
  "blk_ok m p a n u \<longleftrightarrow> a \<noteq> 0 \<and> magic (m a) = HEAP_MAGIC \<and> hsize (m a) = n
     \<and> (allocated (m a) \<noteq> 0) = u \<and> hprev (m a) = p"

fun cseg :: "(addr \<Rightarrow> header_t) \<Rightarrow> addr \<Rightarrow> addr \<Rightarrow> blk list \<Rightarrow> addr \<Rightarrow> addr \<Rightarrow> bool" where
  "cseg m p h [] q k \<longleftrightarrow> q = p \<and> k = h"
| "cseg m p h ((a, n, u) # bs) q k \<longleftrightarrow> h = a \<and> blk_ok m p a n u \<and> cseg m a (hnext (m a)) bs q k"

fun chain :: "(addr \<Rightarrow> header_t) \<Rightarrow> addr \<Rightarrow> addr \<Rightarrow> blk list \<Rightarrow> bool" where
  "chain m p h [] \<longleftrightarrow> h = 0"
| "chain m p h ((a, n, u) # bs) \<longleftrightarrow> h = a \<and> blk_ok m p a n u \<and> chain m a (hnext (m a)) bs"

text \<open>The blocks tile the region from \<open>lo\<close> to \<open>hi\<close>: no gap, no overlap, room for a header.\<close>

fun tiles :: "nat \<Rightarrow> nat \<Rightarrow> blk list \<Rightarrow> bool" where
  "tiles lo hi [] \<longleftrightarrow> lo = hi"
| "tiles lo hi ((a, n, u) # bs) \<longleftrightarrow> unat a = lo \<and> 20 \<le> unat n \<and> tiles (lo + unat n) hi bs"

fun no_adj :: "blk list \<Rightarrow> bool" where
  "no_adj ((a, n, u) # (b, m, v) # bs) \<longleftrightarrow> (u \<or> v) \<and> no_adj ((b, m, v) # bs)"
| "no_adj _ \<longleftrightarrow> True"

definition heap_inv :: "nat \<Rightarrow> nat \<Rightarrow> heap \<Rightarrow> blk list \<Rightarrow> bool" where
  "heap_inv lo hi s bs \<longleftrightarrow> 0 < lo \<and> lo < hi \<and> hi < 4294967296 \<and> chain (hdr s) 0 (kheap s) bs \<and> tiles lo hi bs"

section \<open>Segments and tilings\<close>

lemma chain_append: "chain m p h (xs @ ys) \<longleftrightarrow> (\<exists>q k. cseg m p h xs q k \<and> chain m q k ys)"
  by (induction m p h xs "0 :: addr" "0 :: addr" rule: cseg.induct) auto

lemma cseg_append:
  "cseg m p h (xs @ ys) q k \<longleftrightarrow> (\<exists>q' k'. cseg m p h xs q' k' \<and> cseg m q' k' ys q k)"
  by (induction m p h xs q k rule: cseg.induct) auto

lemma blk_ok_cong: "m a = m' a \<Longrightarrow> blk_ok m p a n u = blk_ok m' p a n u"
  by (simp add: blk_ok_def)

lemma cseg_cong:
  "(\<And>b. b \<in> fst ` set bs \<Longrightarrow> m b = m' b) \<Longrightarrow> cseg m p h bs q k = cseg m' p h bs q k"
  by (induction m p h bs q k rule: cseg.induct) (auto simp: blk_ok_def)

lemma chain_cong:
  "(\<And>b. b \<in> fst ` set bs \<Longrightarrow> m b = m' b) \<Longrightarrow> chain m p h bs = chain m' p h bs"
  by (induction m p h bs rule: chain.induct) (auto simp: blk_ok_def)

text \<open>The predecessor of a chain can be exchanged by writing the first header's \<open>prev\<close>.\<close>

definition reprev :: "addr \<Rightarrow> addr \<Rightarrow> (addr \<Rightarrow> header_t) \<Rightarrow> addr \<Rightarrow> header_t" where
  "reprev p h m = (if h \<noteq> 0 then upd_at (\<lambda>x. x\<lparr>hprev := p\<rparr>) h m else m)"

lemma reprev_other [simp]: "b \<noteq> h \<Longrightarrow> reprev p h m b = m b"
  by (simp add: reprev_def)

lemma reprev_null [simp]: "reprev p 0 m = m"
  by (simp add: reprev_def)

lemma reprev_fields [simp]:
  "magic (reprev p h m b) = magic (m b)" "hsize (reprev p h m b) = hsize (m b)"
  "allocated (reprev p h m b) = allocated (m b)" "hnext (reprev p h m b) = hnext (m b)"
  by (simp_all add: reprev_def upd_at_apply)

lemma reprev_same [simp]: "h \<noteq> 0 \<Longrightarrow> hprev (reprev p h m h) = p"
  by (simp add: reprev_def)

lemma chain_reprev:
  assumes "chain m p h ys" and "distinct (map fst ys)"
  shows "chain (reprev p' h m) p' h ys"
proof (cases ys)
  case Nil
  with assms show ?thesis by simp
next
  case (Cons y zs)
  obtain a n u where y: "y = (a, n, u)" by (cases y)
  have "chain (reprev p' h m) a (hnext (m a)) zs = chain m a (hnext (m a)) zs"
    using assms Cons y by (intro chain_cong reprev_other) force
  with assms Cons y show ?thesis
    by (auto simp: blk_ok_def)
qed

lemma chain_head: "chain m p h ys \<Longrightarrow> h = (case ys of [] \<Rightarrow> 0 | (a, n, u) # _ \<Rightarrow> a)"
  by (cases ys) auto

lemma tiles_append: "tiles lo hi (xs @ ys) \<longleftrightarrow> (\<exists>mid. tiles lo mid xs \<and> tiles mid hi ys)"
  by (induction lo hi xs rule: tiles.induct) auto

lemma tiles_le: "tiles lo hi bs \<Longrightarrow> lo \<le> hi"
  by (induction lo hi bs rule: tiles.induct) auto

lemma tiles_bounds:
  "tiles lo hi bs \<Longrightarrow> (a, n, u) \<in> set bs \<Longrightarrow> lo \<le> unat a \<and> 20 \<le> unat n \<and> unat a + unat n \<le> hi"
  by (induction lo hi bs rule: tiles.induct) (auto dest: tiles_le)

lemma tiles_addr_ge: "tiles lo hi bs \<Longrightarrow> b \<in> fst ` set bs \<Longrightarrow> lo \<le> unat b \<and> unat b < hi"
  using tiles_bounds by fastforce

lemma tiles_distinct: "tiles lo hi bs \<Longrightarrow> distinct (map fst bs)"
proof (induction lo hi bs rule: tiles.induct)
  case (2 lo hi a n u bs)
  then show ?case using tiles_addr_ge [of "lo + unat n" hi bs a] by auto
qed simp

text \<open>The addresses of the other blocks, seen from one block of a tiling.\<close>

lemma tiles_mid:
  assumes "tiles lo hi (xs @ (a, n, u) # ys)"
  shows "tiles lo (unat a) xs" "20 \<le> unat n" "tiles (unat a + unat n) hi ys"
    "unat a + unat n \<le> hi" "lo \<le> unat a"
    "\<And>b. b \<in> fst ` set xs \<Longrightarrow> unat b < unat a" "\<And>b. b \<in> fst ` set ys \<Longrightarrow> unat a + unat n \<le> unat b"
  using assms by (auto simp: tiles_append dest: tiles_le tiles_addr_ge)

section \<open>Splitting, marking and merging one block\<close>

lemma split_block_hdr:
  assumes "d \<le> hsize (hdr s a) - HDR" and "HDR \<le> d" and "hnext (hdr s a) \<noteq> a"
    and "hnext (hdr s a) \<noteq> a + d" and "d \<noteq> 0"
  shows "split_block s a d = (a + d, s\<lparr>hdr := (reprev (a + d) (hnext (hdr s a)) (hdr s))
    (a := (hdr s a)\<lparr>hsize := d, hnext := a + d\<rparr>,
     a + d := \<lparr>magic = HEAP_MAGIC, hsize = hsize (hdr s a) - d, allocated = allocated (hdr s a),
       hprev = a, hnext = hnext (hdr s a)\<rparr>)\<rparr>)"
  using assms
  by (auto simp: split_block_def Let_def upd_hdr_def upd_at_def reprev_def not_less not_le fun_eq_iff)

lemma heap_inv_mid:
  assumes "heap_inv lo hi s (xs @ (a, n, u) # ys)"
  obtains p where "cseg (hdr s) 0 (kheap s) xs p a" "blk_ok (hdr s) p a n u"
    "chain (hdr s) a (hnext (hdr s a)) ys" "hsize (hdr s a) = n"
    "unat a + unat n < 4294967296" "hnext (hdr s a) = (case ys of [] \<Rightarrow> 0 | (b, n, u) # _ \<Rightarrow> b)"
proof -
  obtain q k where qk: "cseg (hdr s) 0 (kheap s) xs q k" "chain (hdr s) q k ((a, n, u) # ys)"
    using assms by (auto simp: heap_inv_def chain_append)
  have "unat a + unat n < 4294967296"
    using assms tiles_mid(4) [of lo hi xs a n u ys] by (auto simp: heap_inv_def)
  moreover have "k = a" "blk_ok (hdr s) q a n u" "chain (hdr s) a (hnext (hdr s a)) ys"
    using qk(2) by simp_all
  moreover have "hsize (hdr s a) = n" using calculation(3) by (simp add: blk_ok_def)
  ultimately show thesis using qk(1) chain_head by (intro that [of q]) blast+
qed

lemma split_block_inv:
  assumes inv: "heap_inv lo hi s (xs @ (a, n, u) # ys)"
    and d: "20 \<le> unat d" "unat d + 20 \<le> unat n"
  shows "\<exists>s'. split_block s a d = (a + d, s') \<and> kheap s' = kheap s \<and> a + d \<noteq> 0
    \<and> heap_inv lo hi s' (xs @ (a, d, u) # (a + d, n - d, u) # ys)"
proof -
  obtain p where seg: "cseg (hdr s) 0 (kheap s) xs p a" and ok: "blk_ok (hdr s) p a n u"
    and ch: "chain (hdr s) a (hnext (hdr s a)) ys" and sz: "hsize (hdr s a) = n"
    and bd: "unat a + unat n < 4294967296"
    and nx: "hnext (hdr s a) = (case ys of [] \<Rightarrow> 0 | (b, n, u) # _ \<Rightarrow> b)"
    using heap_inv_mid [OF inv] by metis
  have til: "tiles lo hi (xs @ (a, n, u) # ys)" and lo: "0 < lo" "hi < 4294967296" "lo < hi"
    using inv by (simp_all add: heap_inv_def)
  note mid = tiles_mid [OF til]
  have ad: "unat (a + d) = unat a + unat d" using bd d by (simp add: unat_add32)
  have nd: "unat (n - d) = unat n - unat d" using d by (simp add: unat_sub32)
  have neq: "a + d \<noteq> a" "d \<noteq> 0" "a + d \<noteq> 0" using d ad lo mid(5) by auto
  have ysa: "\<And>b. b \<in> fst ` set ys \<Longrightarrow> b \<noteq> a \<and> b \<noteq> a + d" using mid(7) d ad by fastforce
  have xsa: "\<And>b. b \<in> fst ` set xs \<Longrightarrow> b \<noteq> a \<and> b \<noteq> a + d" using mid(6) d ad by fastforce
  have xsy: "fst ` set xs \<inter> fst ` set ys = {}" using mid(6,7) by fastforce
  let ?k = "hnext (hdr s a)"
  have k: "?k \<noteq> a" "?k \<noteq> a + d" "?k \<notin> fst ` set xs"
  proof -
    have "?k = 0 \<or> ?k \<in> fst ` set ys" using nx by (cases ys) auto
    moreover have "0 \<notin> fst ` set xs" using tiles_addr_ge [OF mid(1), of 0] lo by auto
    moreover have "a \<noteq> 0" using ok by (simp add: blk_ok_def)
    ultimately show "?k \<noteq> a" "?k \<noteq> a + d" "?k \<notin> fst ` set xs"
      using ysa neq(3) xsy by (metis disjoint_iff)+
  qed
  let ?m = "(reprev (a + d) ?k (hdr s))
    (a := (hdr s a)\<lparr>hsize := d, hnext := a + d\<rparr>,
     a + d := \<lparr>magic = HEAP_MAGIC, hsize = n - d, allocated = allocated (hdr s a), hprev = a, hnext = ?k\<rparr>)"
  have sp: "split_block s a d = (a + d, s\<lparr>hdr := ?m\<rparr>)"
    using split_block_hdr [of d s a] d k neq sz by (simp add: HDR_def unat_sub32 le32_iff)
  have "\<And>b. b \<in> fst ` set xs \<Longrightarrow> ?m b = hdr s b"
    using xsa k(3) by (metis fun_upd_other reprev_other)
  then have "cseg ?m 0 (kheap s) xs p a" using seg cseg_cong [of xs ?m "hdr s"] by blast
  moreover have "chain ?m (a + d) ?k ys"
  proof -
    have "chain (reprev (a + d) ?k (hdr s)) (a + d) ?k ys"
      using ch tiles_distinct [OF mid(3)] by (rule chain_reprev)
    then show ?thesis using ysa by (subst chain_cong [of ys ?m "reprev (a + d) ?k (hdr s)"]) auto
  qed
  ultimately have "chain ?m 0 (kheap s) (xs @ (a, d, u) # (a + d, n - d, u) # ys)"
    using ok neq by (auto simp: chain_append blk_ok_def)
  moreover have "tiles lo hi (xs @ (a, d, u) # (a + d, n - d, u) # ys)"
    using mid d ad nd by (auto simp: tiles_append)
  ultimately show ?thesis using sp lo neq by (auto simp: heap_inv_def)
qed

lemma set_alloc_inv:
  assumes "heap_inv lo hi s (xs @ (a, n, u) # ys)"
  shows "heap_inv lo hi (upd_hdr (\<lambda>x. x\<lparr>allocated := v\<rparr>) a s) (xs @ (a, n, v \<noteq> 0) # ys)"
proof -
  have "distinct (map fst (xs @ (a, n, u) # ys))"
    using assms tiles_distinct [of lo hi] unfolding heap_inv_def by blast
  then have "a \<notin> fst ` set xs" "a \<notin> fst ` set ys" by auto
  moreover have "cseg (upd_at (\<lambda>x. x\<lparr>allocated := v\<rparr>) a (hdr s)) p h xs q k = cseg (hdr s) p h xs q k"
    if "a \<notin> fst ` set xs" for p h q k using that by (intro cseg_cong upd_at_other) auto
  moreover have "chain (upd_at (\<lambda>x. x\<lparr>allocated := v\<rparr>) a (hdr s)) p h ys = chain (hdr s) p h ys"
    if "a \<notin> fst ` set ys" for p h using that by (intro chain_cong upd_at_other) auto
  ultimately show ?thesis
    using assms by (auto simp: heap_inv_def upd_hdr_def chain_append blk_ok_def tiles_append)
qed

lemma hnext_mid:
  assumes "heap_inv lo hi s (xs @ (a, n, u) # (b, m, v) # ys)"
  shows "hnext (hdr s a) = b" "b \<noteq> 0" "hprev (hdr s b) = a" "hsize (hdr s a) = n" "hsize (hdr s b) = m"
    "(allocated (hdr s a) \<noteq> 0) = u" "(allocated (hdr s b) \<noteq> 0) = v" "a \<noteq> 0" "a \<noteq> b"
    "hnext (hdr s b) = (case ys of [] \<Rightarrow> 0 | (c, n, u) # _ \<Rightarrow> c)"
  using assms tiles_distinct [of lo hi "xs @ (a, n, u) # (b, m, v) # ys"]
  by (auto simp: heap_inv_def chain_append blk_ok_def split: list.splits)

lemma hdr_mid:
  assumes "heap_inv lo hi s (xs @ (a, n, u) # ys)"
  shows "magic (hdr s a) = HEAP_MAGIC" "hsize (hdr s a) = n" "(allocated (hdr s a) \<noteq> 0) = u" "a \<noteq> 0"
    "hnext (hdr s a) = (case ys of [] \<Rightarrow> 0 | (b, n, u) # _ \<Rightarrow> b)"
    "hprev (hdr s a) = (if xs = [] then 0 else fst (last xs))"
proof -
  obtain p where p: "cseg (hdr s) 0 (kheap s) xs p a" "blk_ok (hdr s) p a n u"
    "hnext (hdr s a) = (case ys of [] \<Rightarrow> 0 | (b, n, u) # _ \<Rightarrow> b)"
    using heap_inv_mid [OF assms] by metis
  have "p = (if xs = [] then 0 else fst (last xs))"
    using p(1) by (cases xs rule: rev_cases) (auto simp: cseg_append)
  with p show "magic (hdr s a) = HEAP_MAGIC" "hsize (hdr s a) = n" "(allocated (hdr s a) \<noteq> 0) = u" "a \<noteq> 0"
    "hnext (hdr s a) = (case ys of [] \<Rightarrow> 0 | (b, n, u) # _ \<Rightarrow> b)"
    "hprev (hdr s a) = (if xs = [] then 0 else fst (last xs))"
    by (simp_all add: blk_ok_def)
qed

text \<open>Joining a block with its successor: the successor's header leaves the list.\<close>

lemma join_inv:
  assumes inv: "heap_inv lo hi s (xs @ (a, n, u) # (b, m, v) # ys)"
  shows "heap_inv lo hi (s\<lparr>hdr := (reprev a (hnext (hdr s b)) (hdr s))
      (a := (hdr s a)\<lparr>hsize := n + m, hnext := hnext (hdr s b)\<rparr>)\<rparr>) (xs @ (a, n + m, u) # ys)"
proof -
  obtain p where seg: "cseg (hdr s) 0 (kheap s) xs p a" and ok: "blk_ok (hdr s) p a n u"
    and ch: "chain (hdr s) a (hnext (hdr s a)) ((b, m, v) # ys)"
    using heap_inv_mid [OF inv] by metis
  have til: "tiles lo hi (xs @ (a, n, u) # (b, m, v) # ys)" and lo: "0 < lo" "hi < 4294967296" "lo < hi"
    using inv by (simp_all add: heap_inv_def)
  have dis: "distinct (map fst (xs @ (a, n, u) # (b, m, v) # ys))" by (rule tiles_distinct [OF til])
  have til2: "tiles lo hi ((xs @ [(a, n, u)]) @ (b, m, v) # ys)" using til by simp
  note mid = tiles_mid [OF til] and midb = tiles_mid [OF til2]
  have bd: "unat b = unat a + unat n" using mid(3) by simp
  then have nm: "unat (n + m) = unat n + unat m"
    using midb(4) lo by (simp add: unat_add32)
  let ?k = "hnext (hdr s b)"
  have "?k = 0 \<or> ?k \<in> fst ` set ys" using ch by (cases ys) auto
  moreover have "0 \<notin> fst ` set xs" using tiles_addr_ge [OF mid(1), of 0] lo by auto
  moreover have "a \<noteq> 0" using ok by (simp add: blk_ok_def)
  moreover have "fst ` set xs \<inter> fst ` set ys = {}" "a \<notin> fst ` set ys" "a \<notin> fst ` set xs"
    using dis by auto
  ultimately have k: "?k \<noteq> a" "?k \<notin> fst ` set xs" "a \<notin> fst ` set xs" "a \<notin> fst ` set ys"
    by (metis disjoint_iff)+
  let ?m = "(reprev a ?k (hdr s))(a := (hdr s a)\<lparr>hsize := n + m, hnext := ?k\<rparr>)"
  have "\<And>b. b \<in> fst ` set xs \<Longrightarrow> ?m b = hdr s b"
    using k by (metis fun_upd_other reprev_other)
  then have "cseg ?m 0 (kheap s) xs p a" using seg cseg_cong [of xs ?m "hdr s"] by blast
  moreover have "chain (reprev a ?k (hdr s)) a ?k ys"
    using ch dis by (intro chain_reprev [of _ b]) auto
  then have "chain ?m a ?k ys"
    using k by (subst chain_cong [of ys ?m "reprev a ?k (hdr s)"]) auto
  ultimately have "chain ?m 0 (kheap s) (xs @ (a, n + m, u) # ys)"
    using ok by (auto simp: chain_append blk_ok_def)
  moreover have "tiles lo hi (xs @ (a, n + m, u) # ys)"
    using til nm by (auto simp: tiles_append add.assoc)
  ultimately show ?thesis using lo by (simp add: heap_inv_def)
qed

lemma merge_next_join:
  assumes inv: "heap_inv lo hi s (xs @ (a, n, u) # (b, m, False) # ys)"
  shows "heap_inv lo hi (merge_next a s) (xs @ (a, n + m, u) # ys)"
proof -
  note f = hnext_mid [OF inv]
  have k: "hnext (hdr s b) \<noteq> a" "hnext (hdr s b) \<noteq> b"
    using f(2,8,10) inv tiles_distinct [of lo hi "xs @ (a, n, u) # (b, m, False) # ys"]
    by (auto simp: heap_inv_def split: list.splits)
  have "merge_next a s = s\<lparr>hdr := (reprev a (hnext (hdr s b)) (hdr s))
      (a := (hdr s a)\<lparr>hsize := n + m, hnext := hnext (hdr s b)\<rparr>)\<rparr>"
    using f(1-9) k by (auto simp: merge_next_def upd_hdr_def upd_at_def reprev_def Let_def fun_eq_iff)
  then show ?thesis using join_inv [OF inv] by simp
qed

lemma merge_next_used:
  assumes "heap_inv lo hi s (xs @ (a, n, u) # ys)" and "case ys of [] \<Rightarrow> True | (b, m, v) # _ \<Rightarrow> v"
  shows "merge_next a s = s"
proof (cases ys)
  case Nil
  then show ?thesis using hdr_mid(5) [OF assms(1)] by (simp add: merge_next_def)
next
  case (Cons y zs)
  obtain b m v where y: "y = (b, m, v)" by (cases y)
  have inv: "heap_inv lo hi s (xs @ (a, n, u) # (b, m, v) # zs)" using assms(1) Cons y by simp
  show ?thesis using hnext_mid(1,7) [OF inv] assms(2) Cons y by (simp add: merge_next_def)
qed

lemma merge_prev_join:
  assumes inv: "heap_inv lo hi s (xs @ (a, n, False) # (b, m, u) # ys)"
  shows "heap_inv lo hi (merge_prev b s) (xs @ (a, n + m, False) # ys)"
proof -
  note f = hnext_mid [OF inv]
  have k: "hnext (hdr s b) \<noteq> a" "hnext (hdr s b) \<noteq> b"
    using f(2,8,10) inv tiles_distinct [of lo hi "xs @ (a, n, False) # (b, m, u) # ys"]
    by (auto simp: heap_inv_def split: list.splits)
  have "merge_prev b s = s\<lparr>hdr := (reprev a (hnext (hdr s b)) (hdr s))
      (a := (hdr s a)\<lparr>hsize := n + m, hnext := hnext (hdr s b)\<rparr>)\<rparr>"
    using f(1-9) k by (auto simp: merge_prev_def upd_hdr_def upd_at_def reprev_def Let_def fun_eq_iff)
  then show ?thesis using join_inv [OF inv] by simp
qed

lemma merge_prev_used:
  assumes "heap_inv lo hi s (xs @ (a, n, u) # ys)" and "xs = [] \<or> snd (snd (last xs))"
  shows "merge_prev a s = s"
proof (cases xs rule: rev_cases)
  case Nil
  then show ?thesis using hdr_mid(6) [OF assms(1)] by (simp add: merge_prev_def)
next
  case (snoc ws x)
  obtain b m v where x: "x = (b, m, v)" by (cases x)
  have inv: "heap_inv lo hi s (ws @ (b, m, v) # (a, n, u) # ys)" using assms(1) snoc x by simp
  show ?thesis using hnext_mid(3,6) [OF inv] assms(2) snoc x by (simp add: merge_prev_def)
qed

section \<open>The abstract operations\<close>

text \<open>First fit: the first free block with room for the request and its header.\<close>

fun first_fit :: "u32 \<Rightarrow> blk list \<Rightarrow> (addr \<times> blk list) option" where
  "first_fit sz [] = None"
| "first_fit sz ((a, n, u) # bs) =
     (if \<not> u \<and> unat sz + 20 \<le> unat n then
        Some (a, if unat n < unat sz + 40 then (a, n, True) # bs
                 else (a, HDR + sz, True) # (a + (HDR + sz), n - (HDR + sz), False) # bs)
      else map_option (\<lambda>(p, bs'). (p, (a, n, u) # bs')) (first_fit sz bs))"

text \<open>
  Aligned first fit looks only at the first free block that is big enough before alignment: if
  the request does not fit behind the aligned address, the search is stuck at that block.
\<close>

datatype fit = NoFit | Stuck | Fit addr "blk list"

fun aligned_fit :: "u32 \<Rightarrow> blk list \<Rightarrow> fit" where
  "aligned_fit sz [] = NoFit"
| "aligned_fit sz ((a, n, u) # bs) =
     (if \<not> u \<and> unat sz + 20 \<le> unat n then
        let d = page_align a - a - HDR in
        if unat a + unat n < unat (page_align a) + unat sz then Stuck
        else Fit (a + d) ((a, d, False) #
          (if unat sz + 40 < unat (n - d)
           then (a + d, HDR + sz, True) # (a + d + (HDR + sz), n - d - (HDR + sz), False) # bs
           else (a + d, n - d, True) # bs))
      else case aligned_fit sz bs of Fit p bs' \<Rightarrow> Fit p ((a, n, u) # bs') | r \<Rightarrow> r)"

text \<open>Freeing: mark the block, then merge all neighbouring free blocks.\<close>

definition mark_free :: "addr \<Rightarrow> blk list \<Rightarrow> blk list" where
  "mark_free p bs = map (\<lambda>(a, n, u). (a, n, u \<and> a \<noteq> p)) bs"

fun coalesce :: "blk list \<Rightarrow> blk list" where
  "coalesce ((a, n, u) # (b, m, v) # bs) =
     (if \<not> u \<and> \<not> v then coalesce ((a, n + m, False) # bs) else (a, n, u) # coalesce ((b, m, v) # bs))"
| "coalesce bs = bs"

definition used :: "blk list \<Rightarrow> (addr \<times> u32) list" where
  "used bs = map (\<lambda>(a, n, u). (a, n)) (filter (\<lambda>(a, n, u). u) bs)"

lemma used_simps [simp]:
  "used [] = []" "used ((a, n, u) # bs) = (if u then (a, n) # used bs else used bs)"
  "used (xs @ ys) = used xs @ used ys"
  by (simp_all add: used_def)

lemma in_used: "(a, n) \<in> set (used bs) \<longleftrightarrow> (a, n, True) \<in> set bs"
  by (induction bs) (auto split: if_splits)

text \<open>Coalescing keeps the blocks in use, and does nothing without two free neighbours.\<close>

lemma used_coalesce [simp]: "used (coalesce bs) = used bs"
  by (induction bs rule: coalesce.induct) auto

lemma coalesce_id: "no_adj bs \<Longrightarrow> coalesce bs = bs"
  by (induction bs rule: coalesce.induct) auto

lemma no_adj_coalesce: "no_adj (coalesce bs)"
proof (induction bs rule: coalesce.induct)
  case (1 a n u b m v bs)
  show ?case
  proof (cases "\<not> u \<and> \<not> v")
    case True
    with 1 show ?thesis by simp
  next
    case False
    have "\<exists>m' bs'. coalesce ((b, m, v) # bs) = (b, m', v) # bs'"
      by (induction "(b, m, v) # bs" arbitrary: m bs rule: coalesce.induct) auto
    with False 1 show ?thesis by auto
  qed
qed simp_all

lemma no_adj_append:
  "no_adj (xs @ ys) \<longleftrightarrow> no_adj xs \<and> no_adj ys \<and>
     (xs = [] \<or> ys = [] \<or> snd (snd (last xs)) \<or> snd (snd (hd ys)))"
proof (induction xs rule: no_adj.induct [case_names two nil one])
  case (one v)
  then show ?case by (cases v; cases ys) auto
qed auto

lemma coalesce_merge:
  "coalesce (xs @ (a, n, False) # (b, m, False) # ys) = coalesce (xs @ (a, n + m, False) # ys)"
proof (induction xs rule: coalesce.induct [case_names two nil one])
  case (one v)
  obtain c k u where "v = (c, k, u)" by (cases v)
  then show ?case by (simp add: add.assoc)
qed auto

section \<open>The C functions implement the abstract operations\<close>

lemma kheap_upd_hdr [simp]: "kheap (upd_hdr f a s) = kheap s"
  by (simp add: upd_hdr_def)

lemma unat_HDR [simp]: "unat HDR = 20"
  by (simp add: HDR_def)

lemma unat_HDR_add: "unat sz + 40 < 4294967296 \<Longrightarrow> unat (sz + HDR) = unat sz + 20"
  "unat sz + 40 < 4294967296 \<Longrightarrow> unat (HDR + sz) = 20 + unat sz"
  "unat sz + 40 < 4294967296 \<Longrightarrow> unat (sz + 2 * HDR) = unat sz + 40"
  by (simp_all add: HDR_def unat_add32)

lemma take_plain_inv:
  assumes inv: "heap_inv lo hi s (xs @ (a, n, False) # ys)"
    and sz: "unat sz + 40 < 4294967296" "unat sz + 20 \<le> unat n"
  shows "\<exists>s'. take_plain s a sz = (a + HDR, s') \<and> kheap s' = kheap s \<and>
    heap_inv lo hi s' (xs @ (if unat n < unat sz + 40 then (a, n, True) # ys
      else (a, HDR + sz, True) # (a + (HDR + sz), n - (HDR + sz), False) # ys))"
proof (cases "unat n < unat sz + 40")
  case True
  then show ?thesis
    using set_alloc_inv [OF inv, of 1] hdr_mid(2) [OF inv] sz
    by (auto simp: take_plain_def less32_iff unat_HDR_add)
next
  case False
  then have d: "20 \<le> unat (HDR + sz)" "unat (HDR + sz) + 20 \<le> unat n"
    using sz by (simp_all add: unat_HDR_add)
  obtain s' where s': "split_block s a (HDR + sz) = (a + (HDR + sz), s')" "kheap s' = kheap s"
    "heap_inv lo hi s' (xs @ (a, HDR + sz, False) # (a + (HDR + sz), n - (HDR + sz), False) # ys)"
    using split_block_inv [OF inv d] by blast
  then show ?thesis
    using False set_alloc_inv [OF s'(3), of 1] hdr_mid(2) [OF inv] sz
    by (auto simp: take_plain_def less32_iff unat_HDR_add)
qed

text \<open>The aligned address is the next page boundary with room for two headers before it.\<close>

lemma unat_page_align:
  assumes "unat a + 4136 \<le> 4294967296"
  shows "unat (page_align a) = 4096 * ((unat a + 4135) div 4096)"
    "unat a + 40 \<le> unat (page_align a)" "unat (page_align a) \<le> unat a + 4135"
proof -
  have "unat (a + 4135) = unat a + 4135" using assms by (simp add: unat_add32)
  then show eq: "unat (page_align a) = 4096 * ((unat a + 4135) div 4096)"
    by (simp add: page_align_def HDR_def unat_page_mask add.commute)
  show "unat a + 40 \<le> unat (page_align a)" "unat (page_align a) \<le> unat a + 4135"
    using mult_div_mod_eq [of 4096 "unat a + 4135"] mod_less_divisor [of 4096 "unat a + 4135"]
    unfolding eq by linarith+
qed

lemma take_aligned_inv:
  assumes inv: "heap_inv lo hi s (xs @ (a, n, False) # ys)"
    and hi: "hi + 4136 \<le> 4294967296" and sz: "unat sz + 40 < 4294967296"
    and fits: "unat (page_align a) + unat sz \<le> unat a + unat n"
    and d: "d = page_align a - a - HDR"
  shows "\<exists>s'. take_aligned s a sz = Inr (a + d + HDR, s') \<and> kheap s' = kheap s \<and>
    heap_inv lo hi s' (xs @ (a, d, False) # (if unat sz + 40 < unat (n - d)
      then (a + d, HDR + sz, True) # (a + d + (HDR + sz), n - d - (HDR + sz), False) # ys
      else (a + d, n - d, True) # ys))"
proof -
  have "unat a + unat n \<le> hi" using inv tiles_mid(4) by (auto simp: heap_inv_def)
  with hi have "unat a + 4136 \<le> 4294967296" by simp
  note al = unat_page_align [OF this]
  have "unat (page_align a - a) = unat (page_align a) - unat a" using al by (simp add: unat_sub32)
  then have ud: "unat d = unat (page_align a) - unat a - 20" using al by (simp add: d unat_sub32)
  then have dd: "20 \<le> unat d" "unat d + 20 \<le> unat n" using al fits by linarith+
  obtain s1 where s1: "split_block s a d = (a + d, s1)" "kheap s1 = kheap s" "a + d \<noteq> 0"
    "heap_inv lo hi s1 (xs @ (a, d, False) # (a + d, n - d, False) # ys)"
    using split_block_inv [OF inv dd] by blast
  define s2 where "s2 = upd_hdr (\<lambda>x. x\<lparr>allocated := 1\<rparr>) (a + d) s1"
  have inv2: "heap_inv lo hi s2 ((xs @ [(a, d, False)]) @ (a + d, n - d, True) # ys)"
    using set_alloc_inv [of lo hi s1 "xs @ [(a, d, False)]" "a + d" "n - d" False ys 1] s1(4)
    by (simp add: s2_def)
  have k2: "kheap s2 = kheap s" using s1(2) by (simp add: s2_def)
  have hd2: "hsize (hdr s2 (a + d)) = n - d" by (rule hdr_mid(2) [OF inv2])
  show ?thesis
  proof (cases "unat sz + 40 < unat (n - d)")
    case False
    have "take_aligned s a sz = Inr (a + d + HDR, s2)"
      using False s1 hd2 sz
      by (simp add: take_aligned_def d [symmetric] s2_def [symmetric] Let_def unat_HDR_add less32_iff)
    then show ?thesis using False inv2 k2 by auto
  next
    case True
    have e: "20 \<le> unat (HDR + sz)" "unat (HDR + sz) + 20 \<le> unat (n - d)"
      using True sz by (simp_all add: unat_HDR_add)
    obtain s3 where s3: "split_block s2 (a + d) (HDR + sz) = (a + d + (HDR + sz), s3)" "kheap s3 = kheap s2"
      "a + d + (HDR + sz) \<noteq> 0" "heap_inv lo hi s3 ((xs @ [(a, d, False)]) @ (a + d, HDR + sz, True)
        # (a + d + (HDR + sz), n - d - (HDR + sz), True) # ys)"
      using split_block_inv [OF inv2 e] by blast
    have "take_aligned s a sz = Inr (a + d + HDR, upd_hdr (\<lambda>x. x\<lparr>allocated := 0\<rparr>) (a + d + (HDR + sz)) s3)"
      using True s1 s3 hd2 sz
      by (simp add: take_aligned_def d [symmetric] s2_def [symmetric] Let_def unat_HDR_add less32_iff)
    then show ?thesis
      using True s3 k2 set_alloc_inv [of lo hi s3 "xs @ [(a, d, False), (a + d, HDR + sz, True)]"
        "a + d + (HDR + sz)" "n - d - (HDR + sz)" True ys 0] by auto
  qed
qed

definition head_of :: "blk list \<Rightarrow> addr" where
  "head_of bs = (case bs of [] \<Rightarrow> 0 | (a, n, u) # _ \<Rightarrow> a)"

lemma head_of_simps [simp]: "head_of [] = 0" "head_of ((a, n, u) # bs) = a"
  by (simp_all add: head_of_def)

lemma kheap_head: "heap_inv lo hi s bs \<Longrightarrow> kheap s = head_of bs \<and> bs \<noteq> []"
  by (auto simp: heap_inv_def head_of_def dest!: chain_head)

lemma hnext_head: "heap_inv lo hi s (xs @ (a, n, u) # ys) \<Longrightarrow> hnext (hdr s a) = head_of ys"
  using hdr_mid(5) by (simp add: head_of_def)

text \<open>The plain search finds what \<open>first_fit\<close> finds.\<close>

lemma kmalloc_loop_plain:
  assumes "heap_inv lo hi s (pre @ bs)" and sz: "unat sz + 40 < 4294967296"
  shows "case first_fit sz bs of
      None \<Rightarrow> kmalloc_loop s sz False (head_of bs) = Some (Inr (0, s))
    | Some (a, bs') \<Rightarrow> \<exists>s'. kmalloc_loop s sz False (head_of bs) = Some (Inr (a + HDR, s'))
        \<and> kheap s' = kheap s \<and> heap_inv lo hi s' (pre @ bs')"
  using assms(1)
proof (induction bs arbitrary: pre)
  case Nil
  show ?case by (simp add: kmalloc_loop.simps)
next
  case (Cons x bs)
  obtain a n u where x: "x = (a, n, u)" by (cases x)
  have inv: "heap_inv lo hi s (pre @ (a, n, u) # bs)" using Cons.prems x by simp
  note f = hdr_mid(1-4) [OF inv] hnext_head [OF inv]
  show ?case
  proof (cases "\<not> u \<and> unat sz + 20 \<le> unat n")
    case True
    then have "kmalloc_loop s sz False a = Some (Inr (take_plain s a sz))"
      using f sz by (subst kmalloc_loop.simps) (auto simp: le32_iff unat_HDR_add)
    then show ?thesis using True x inv take_plain_inv [of lo hi s pre a n bs sz] sz by auto
  next
    case False
    then have "kmalloc_loop s sz False a = kmalloc_loop s sz False (head_of bs)"
      using f sz by (subst kmalloc_loop.simps) (auto simp: le32_iff unat_HDR_add)
    then show ?thesis using False x Cons.IH [of "pre @ [(a, n, u)]"] inv
      by (auto split: option.splits)
  qed
qed

text \<open>
  The aligned search never returns when it meets a free block that is big enough but cannot
  hold the aligned request: the loop body then leaves its state unchanged.
\<close>

lemma kmalloc_loop_stuck:
  assumes "h \<noteq> 0" "magic (hdr s h) = HEAP_MAGIC" "allocated (hdr s h) = 0"
    "hsize (hdr s h) \<ge> sz + HDR" "page_align h + sz > h + hsize (hdr s h)"
  shows "kmalloc_loop s sz True h = None"
proof (rule ccontr)
  assume "kmalloc_loop s sz True h \<noteq> None"
  then obtain r where r: "kmalloc_loop s sz True h = Some r" by auto
  have "\<not> (s = s \<and> sz = sz \<and> True = True \<and> h = h)"
  proof (rule kmalloc_loop.raw_induct [where P = "\<lambda>s' sz' al' h' r. \<not> (s' = s \<and> sz' = sz \<and> al' = True \<and> h' = h)",
        OF _ r], goal_cases)
    case (1 loop s' sz' al' h' r)
    then show ?case using assms by (auto split: if_splits)
  qed
  then show False by simp
qed

lemma kmalloc_loop_aligned:
  assumes "heap_inv lo hi s (pre @ bs)" and sz: "unat sz + 40 < 4294967296"
    and hi: "hi + 4136 \<le> 4294967296"
  shows "case aligned_fit sz bs of
      NoFit \<Rightarrow> kmalloc_loop s sz True (head_of bs) = Some (Inr (0, s))
    | Stuck \<Rightarrow> kmalloc_loop s sz True (head_of bs) = None
    | Fit a bs' \<Rightarrow> \<exists>s'. kmalloc_loop s sz True (head_of bs) = Some (Inr (a + HDR, s'))
        \<and> kheap s' = kheap s \<and> heap_inv lo hi s' (pre @ bs')"
  using assms(1)
proof (induction bs arbitrary: pre)
  case Nil
  show ?case by (simp add: kmalloc_loop.simps)
next
  case (Cons x bs)
  obtain a n u where x: "x = (a, n, u)" by (cases x)
  have inv: "heap_inv lo hi s (pre @ (a, n, u) # bs)" using Cons.prems x by simp
  note f = hdr_mid(1-4) [OF inv] hnext_head [OF inv]
  have an: "unat a + unat n \<le> hi" using inv tiles_mid(4) by (auto simp: heap_inv_def)
  then have "unat a + 4136 \<le> 4294967296" using hi by simp
  note al = unat_page_align [OF this]
  have sum: "unat (a + n) = unat a + unat n" using an hi by (simp add: unat_add32)
  show ?case
  proof (cases "\<not> u \<and> unat sz + 20 \<le> unat n")
    case True
    have far: "\<not> page_align a - a < HDR" using al by (simp add: less32_iff unat_sub32)
    have psz: "unat (page_align a + sz) = unat (page_align a) + unat sz"
      using True al(3) an hi by (intro unat_add32) linarith
    show ?thesis
    proof (cases "unat a + unat n < unat (page_align a) + unat sz")
      case stuck: True
      have "kmalloc_loop s sz True a = None"
        using True stuck f sz by (intro kmalloc_loop_stuck) (auto simp: le32_iff less32_iff unat_HDR_add sum psz)
      then show ?thesis using True stuck x by simp
    next
      case fits: False
      have "kmalloc_loop s sz True a = Some (take_aligned s a sz)"
        using True fits f sz far
        by (subst kmalloc_loop.simps) (auto simp: le32_iff less32_iff unat_HDR_add sum psz)
      then show ?thesis
        using True fits x inv take_aligned_inv [of lo hi s pre a n bs sz "page_align a - a - HDR"] hi sz
        by (auto simp: Let_def)
    qed
  next
    case False
    then have "kmalloc_loop s sz True a = kmalloc_loop s sz True (head_of bs)"
      using f sz by (subst kmalloc_loop.simps) (auto simp: le32_iff unat_HDR_add)
    then show ?thesis using False x Cons.IH [of "pre @ [(a, n, u)]"] inv
      by (auto split: fit.splits)
  qed
qed

text \<open>\<open>kfree\<close> of a block in use marks it free and merges it with its free neighbours.\<close>

lemma kfree_mid:
  assumes inv: "heap_inv lo hi s (xs @ (a, n, True) # ys)" and na: "no_adj (xs @ (a, n, True) # ys)"
  shows "\<exists>s'. kfree s (a + HDR) = Inr s' \<and> heap_inv lo hi s' (coalesce (xs @ (a, n, False) # ys))"
proof -
  define s1 where "s1 = upd_hdr (\<lambda>x. x\<lparr>allocated := 0\<rparr>) a s"
  have inv1: "heap_inv lo hi s1 (xs @ (a, n, False) # ys)"
    using set_alloc_inv [OF inv, of 0] by (simp add: s1_def)
  have "\<exists>n' ys'. heap_inv lo hi (merge_next a s1) (xs @ (a, n', False) # ys')
    \<and> coalesce (xs @ (a, n', False) # ys') = coalesce (xs @ (a, n, False) # ys)
    \<and> no_adj ((a, n', False) # ys')"
  proof (cases "\<exists>b m zs. ys = (b, m, False) # zs")
    case True
    then obtain b m zs where ys: "ys = (b, m, False) # zs" by blast
    have "no_adj ((a, n + m, False) # zs)" using na ys by (cases zs) (auto simp: no_adj_append)
    then show ?thesis
      using merge_next_join [of lo hi s1 xs a n False b m zs] inv1 ys coalesce_merge by metis
  next
    case False
    then have "case ys of [] \<Rightarrow> True | (b, m, v) # _ \<Rightarrow> v" by (auto split: list.splits)
    then have "merge_next a s1 = s1" using merge_next_used [OF inv1] by simp
    moreover have "no_adj ((a, n, False) # ys)" using na False by (cases ys) (auto simp: no_adj_append)
    ultimately show ?thesis using inv1 by auto
  qed
  then obtain n' ys' where inv2: "heap_inv lo hi (merge_next a s1) (xs @ (a, n', False) # ys')"
    and co: "coalesce (xs @ (a, n', False) # ys') = coalesce (xs @ (a, n, False) # ys)"
    and na2: "no_adj ((a, n', False) # ys')" by blast
  have "heap_inv lo hi (merge_prev a (merge_next a s1)) (coalesce (xs @ (a, n, False) # ys))"
  proof (cases "\<exists>ws c k. xs = ws @ [(c, k, False)]")
    case True
    then obtain ws c k where xs: "xs = ws @ [(c, k, False)]" by blast
    have "no_adj (ws @ (c, k + n', False) # ys')"
      using na na2 xs by (cases ys') (auto simp: no_adj_append)
    then have "coalesce (xs @ (a, n, False) # ys) = ws @ (c, k + n', False) # ys'"
      using co xs coalesce_merge [of ws c k a n' ys'] by (simp add: coalesce_id)
    then show ?thesis using merge_prev_join [of lo hi _ ws c k a n' False ys'] inv2 xs by simp
  next
    case False
    then have "xs = [] \<or> snd (snd (last xs))" by (cases xs rule: rev_cases) auto
    moreover have "no_adj (xs @ (a, n', False) # ys')"
      using na na2 calculation by (auto simp: no_adj_append)
    ultimately show ?thesis using merge_prev_used [OF inv2] inv2 co by (simp add: coalesce_id)
  qed
  moreover have "a + HDR \<noteq> 0"
    using inv tiles_mid(2,4) [of lo hi xs a n True ys] unat_add32 [of a HDR]
    by (auto simp: heap_inv_def)
  ultimately show ?thesis using hdr_mid(1) [OF inv] by (simp add: kfree_def s1_def)
qed

section \<open>What the abstract searches return\<close>

lemma first_fit_Some:
  "first_fit sz bs = Some (a, bs') \<Longrightarrow> \<exists>xs n ys. bs = xs @ (a, n, False) # ys \<and> unat sz + 20 \<le> unat n
    \<and> bs' = xs @ (if unat n < unat sz + 40 then (a, n, True) # ys
      else (a, HDR + sz, True) # (a + (HDR + sz), n - (HDR + sz), False) # ys)"
proof (induction sz bs arbitrary: bs' rule: first_fit.induct)
  case (2 sz b m u bs)
  show ?case
  proof (cases "\<not> u \<and> unat sz + 20 \<le> unat m")
    case True
    then show ?thesis using 2(2) by (intro exI [of _ "[]"]) auto
  next
    case False
    then obtain bs'' where "first_fit sz bs = Some (a, bs'')" "bs' = (b, m, u) # bs''"
      using 2(2) by auto
    with 2(1) [OF False] obtain xs n ys where "bs = xs @ (a, n, False) # ys" "unat sz + 20 \<le> unat n"
      "bs' = (b, m, u) # xs @ (if unat n < unat sz + 40 then (a, n, True) # ys
      else (a, HDR + sz, True) # (a + (HDR + sz), n - (HDR + sz), False) # ys)" by blast
    then show ?thesis by (intro exI [of _ "(b, m, u) # xs"] exI [of _ n] exI [of _ ys]) simp
  qed
qed simp

lemma first_fit_None: "first_fit sz bs = None \<longleftrightarrow> (\<forall>(a, n, u) \<in> set bs. u \<or> unat n < unat sz + 20)"
  by (induction sz bs rule: first_fit.induct) (auto split: option.splits)

lemma aligned_fit_Fit:
  "aligned_fit sz bs = Fit c bs' \<Longrightarrow> \<exists>xs a n ys d. bs = xs @ (a, n, False) # ys \<and> unat sz + 20 \<le> unat n
    \<and> d = page_align a - a - HDR \<and> c = a + d \<and> unat (page_align a) + unat sz \<le> unat a + unat n
    \<and> bs' = xs @ (a, d, False) # (if unat sz + 40 < unat (n - d)
       then (a + d, HDR + sz, True) # (a + d + (HDR + sz), n - d - (HDR + sz), False) # ys
       else (a + d, n - d, True) # ys)"
proof (induction sz bs arbitrary: bs' rule: aligned_fit.induct)
  case (2 sz b m u bs)
  show ?case
  proof (cases "\<not> u \<and> unat sz + 20 \<le> unat m")
    case True
    then show ?thesis using 2(2)
      by (intro exI [of _ "[]"] exI [of _ b] exI [of _ m] exI [of _ bs] exI [of _ "page_align b - b - HDR"])
        (auto simp: Let_def split: if_splits)
  next
    case False
    then obtain bs'' where ff: "aligned_fit sz bs = Fit c bs''" "bs' = (b, m, u) # bs''"
      using 2(2) by (auto split: fit.splits)
    obtain xs a n ys d where "bs = xs @ (a, n, False) # ys \<and> unat sz + 20 \<le> unat n
      \<and> d = page_align a - a - HDR \<and> c = a + d \<and> unat (page_align a) + unat sz \<le> unat a + unat n
      \<and> bs'' = xs @ (a, d, False) # (if unat sz + 40 < unat (n - d)
         then (a + d, HDR + sz, True) # (a + d + (HDR + sz), n - d - (HDR + sz), False) # ys
         else (a + d, n - d, True) # ys)"
      using 2(1) [OF False ff(1)] by blast
    then show ?thesis using ff(2)
      by (intro exI [of _ "(b, m, u) # xs"] exI [of _ a] exI [of _ n] exI [of _ ys] exI [of _ d]) simp
  qed
qed simp

end
