(* ===== verification/Kalloc_Spec.thy ===== *)
theory Kalloc_Spec
  imports Kalloc
begin

text \<open>
  What the kernel heap promises its clients. The locale \<open>allocator_laws\<close> states the contract of
  an allocation routine that may fail to return, \<open>allocator\<close> adds that it always returns; both
  are interpreted on the C functions of \<open>kernel/kalloc.c\<close> (the plain and the page aligned
  allocation). The heap properties that the other components rely on follow.
\<close>

section \<open>The contract of an allocator\<close>

text \<open>
  \<open>live h p m\<close>: the pointer \<open>p\<close> was handed out and not yet freed; its block has \<open>m\<close> bytes, the
  20 bytes of the header in front of \<open>p\<close> included.
\<close>

locale allocator_laws =
  fixes inv :: "'h \<Rightarrow> bool"
    and live :: "'h \<Rightarrow> addr \<Rightarrow> u32 \<Rightarrow> bool"
    and fits :: "u32 \<Rightarrow> bool"
    and alloc :: "'h \<Rightarrow> u32 \<Rightarrow> (addr \<times> 'h) result option"
    and free :: "'h \<Rightarrow> addr \<Rightarrow> 'h result"
  assumes alloc_ret: "inv h \<Longrightarrow> fits n \<Longrightarrow> alloc h n = Some r \<Longrightarrow> \<exists>p h'. r = Inr (p, h') \<and> inv h'"
    and alloc_null: "inv h \<Longrightarrow> fits n \<Longrightarrow> alloc h n = Some (Inr (0, h')) \<Longrightarrow> h' = h"
    and alloc_live: "inv h \<Longrightarrow> fits n \<Longrightarrow> alloc h n = Some (Inr (p, h')) \<Longrightarrow> p \<noteq> 0 \<Longrightarrow>
      \<exists>m. unat n + 20 \<le> unat m \<and> (\<forall>k. \<not> live h p k) \<and>
        (\<forall>q k. live h' q k \<longleftrightarrow> live h q k \<or> q = p \<and> k = m)"
    and free_null: "free h 0 = Inr h"
    and free_live: "inv h \<Longrightarrow> live h p m \<Longrightarrow>
      \<exists>h'. free h p = Inr h' \<and> inv h' \<and> (\<forall>q k. live h' q k \<longleftrightarrow> live h q k \<and> q \<noteq> p)"
    and live_apart: "inv h \<Longrightarrow> live h p m \<Longrightarrow> live h q k \<Longrightarrow> p \<noteq> q \<Longrightarrow>
      unat p + unat m \<le> unat q \<or> unat q + unat k \<le> unat p"
begin

text \<open>Freeing what was just allocated leaves the live blocks as they were.\<close>

lemma alloc_free:
  assumes "inv h" "fits n" "alloc h n = Some (Inr (p, h'))" "p \<noteq> 0"
  shows "\<exists>h''. free h' p = Inr h'' \<and> inv h'' \<and> (\<forall>q k. live h'' q k \<longleftrightarrow> live h q k)"
proof -
  obtain m where m: "\<forall>k. \<not> live h p k" "\<forall>q k. live h' q k \<longleftrightarrow> live h q k \<or> q = p \<and> k = m"
    using alloc_live [OF assms] by blast
  moreover have "inv h'" using alloc_ret [OF assms(1-3)] by simp
  ultimately obtain h'' where "free h' p = Inr h''" "inv h''"
    "\<forall>q k. live h'' q k \<longleftrightarrow> live h' q k \<and> q \<noteq> p"
    using free_live [of h' p m] by blast
  then show ?thesis using m by auto
qed

end

locale allocator = allocator_laws +
  assumes alloc_total: "inv h \<Longrightarrow> fits n \<Longrightarrow> \<exists>r. alloc h n = Some r"
begin

lemma alloc_cases:
  assumes "inv h" "fits n"
  obtains (null) "alloc h n = Some (Inr (0, h))"
  | (block) p h' m where "alloc h n = Some (Inr (p, h'))" "p \<noteq> 0" "inv h'" "unat n + 20 \<le> unat m"
      "\<forall>k. \<not> live h p k" "\<forall>q k. live h' q k \<longleftrightarrow> live h q k \<or> q = p \<and> k = m"
proof -
  obtain p h' where a: "alloc h n = Some (Inr (p, h'))" "inv h'"
    using alloc_total [OF assms] alloc_ret [OF assms] by blast
  show thesis
  proof (cases "p = 0")
    case True
    with a alloc_null [OF assms] null show thesis by auto
  next
    case False
    with a alloc_live [OF assms a(1)] block show thesis by blast
  qed
qed

end

section \<open>The kernel heap as an allocator\<close>

definition heap_wf :: "heap \<Rightarrow> bool" where
  "heap_wf s \<longleftrightarrow> (\<exists>lo hi bs. heap_inv lo hi s bs \<and> no_adj bs \<and> hi + 4136 \<le> 4294967296)"

definition heap_live :: "heap \<Rightarrow> addr \<Rightarrow> u32 \<Rightarrow> bool" where
  "heap_live s p m \<longleftrightarrow> (\<exists>lo hi bs. heap_inv lo hi s bs \<and> (p - HDR, m, True) \<in> set bs)"

text \<open>Requests for which \<open>size + 2*sizeof(header_t)\<close> does not wrap after the rounding.\<close>

definition req_ok :: "u32 \<Rightarrow> bool" where
  "req_ok sz \<longleftrightarrow> 0 < unat sz \<and> unat sz + 43 < 4294967296"

lemma unat_round_size: "req_ok sz \<Longrightarrow> unat (round_size sz) = unat sz + unat sz mod 4"
proof -
  assume "req_ok sz"
  moreover have "unat (sz mod 4) = unat sz mod 4" by (simp add: unat_mod_distrib)
  moreover have "unat sz mod 4 < 4" by simp
  ultimately show ?thesis unfolding round_size_def req_ok_def by (subst unat_add32) linarith+
qed

lemma round_size_fits: "req_ok sz \<Longrightarrow> unat (round_size sz) + 40 < 4294967296"
proof -
  assume r: "req_ok sz"
  have "unat sz mod 4 < 4" by simp
  with r show ?thesis by (simp only: unat_round_size) (simp only: req_ok_def, linarith)
qed

lemma blk_ok_null: "\<not> blk_ok m p 0 n u"
  by (simp add: blk_ok_def)

lemma blk_ok_inj: "blk_ok m p a n u \<Longrightarrow> blk_ok m p a n' u' \<Longrightarrow> n' = n \<and> u' = u"
  by (simp add: blk_ok_def)

lemma chain_unique: "chain m p h bs \<Longrightarrow> chain m p h bs' \<Longrightarrow> bs = bs'"
proof (induction m p h bs arbitrary: bs' rule: chain.induct)
  case (1 m p h)
  then show ?case by (cases bs') (auto simp: blk_ok_null)
next
  case (2 m p h a n u bs)
  then have "bs' \<noteq> []" by (auto simp: blk_ok_null)
  then obtain b n' u' bs'' where bs': "bs' = (b, n', u') # bs''" by (metis neq_Nil_conv prod_cases3)
  then have "b = a" using "2.prems" by auto
  moreover have "n' = n \<and> u' = u" using "2.prems" bs' blk_ok_inj [of m p a n u n' u'] by simp
  moreover have "bs = bs''" using "2.IH" "2.prems" bs' by auto
  ultimately show ?case using bs' by simp
qed

lemma heap_inv_unique: "heap_inv lo hi s bs \<Longrightarrow> heap_inv lo' hi' s bs' \<Longrightarrow> bs = bs'"
  using chain_unique by (auto simp: heap_inv_def)

lemma heap_live_iff: "heap_inv lo hi s bs \<Longrightarrow> heap_live s p m \<longleftrightarrow> (p - HDR, m, True) \<in> set bs"
  unfolding heap_live_def using heap_inv_unique by metis

lemma blk_addr_unique:
  "tiles lo hi bs \<Longrightarrow> (a, n, u) \<in> set bs \<Longrightarrow> (a, m, v) \<in> set bs \<Longrightarrow> n = m \<and> u = v"
  using tiles_distinct [of lo hi bs] unfolding distinct_map inj_on_def by fastforce

text \<open>Two different blocks of a tiling do not overlap.\<close>

lemma tiles_apart:
  "tiles lo hi bs \<Longrightarrow> (a, n, u) \<in> set bs \<Longrightarrow> (b, m, v) \<in> set bs \<Longrightarrow> a \<noteq> b \<Longrightarrow>
    unat a + unat n \<le> unat b \<or> unat b + unat m \<le> unat a"
proof (induction lo hi bs rule: tiles.induct)
  case (2 lo hi c k w bs)
  then show ?case using tiles_bounds [of "lo + unat k" hi bs] by fastforce
qed simp

section \<open>Results of the allocations\<close>

lemma kheap_nonnull: "heap_inv lo hi s bs \<Longrightarrow> kheap s \<noteq> 0"
  using kheap_head by (cases bs; auto simp: heap_inv_def blk_ok_def)

lemma kmalloc_plain:
  assumes "heap_inv lo hi s bs" "req_ok sz"
  shows "case first_fit (round_size sz) bs of
      None \<Rightarrow> kmalloc s sz = Some (Inr (0, s))
    | Some (a, bs') \<Rightarrow> \<exists>s'. kmalloc s sz = Some (Inr (a + HDR, s')) \<and> kheap s' = kheap s \<and> heap_inv lo hi s' bs'"
proof -
  have "sz \<noteq> 0" using assms(2) by (auto simp: req_ok_def)
  moreover note kheap_nonnull [OF assms(1)] kheap_head [OF assms(1)]
  ultimately show ?thesis
    using kmalloc_loop_plain [of lo hi s "[]" bs "round_size sz"] assms round_size_fits
    by (auto simp: kmalloc_def kmalloc_int_def split: option.splits)
qed

lemma kmalloc_aligned:
  assumes "heap_inv lo hi s bs" "req_ok sz" "hi + 4136 \<le> 4294967296"
  shows "case aligned_fit (round_size sz) bs of
      NoFit \<Rightarrow> kmalloc_a s sz = Some (Inr (0, s))
    | Stuck \<Rightarrow> kmalloc_a s sz = None
    | Fit a bs' \<Rightarrow> \<exists>s'. kmalloc_a s sz = Some (Inr (a + HDR, s')) \<and> kheap s' = kheap s \<and> heap_inv lo hi s' bs'"
proof -
  have "sz \<noteq> 0" using assms(2) by (auto simp: req_ok_def)
  moreover note kheap_nonnull [OF assms(1)] kheap_head [OF assms(1)]
  ultimately show ?thesis
    using kmalloc_loop_aligned [of lo hi s "[]" bs "round_size sz"] assms round_size_fits
    by (auto simp: kmalloc_a_def kmalloc_int_def split: fit.splits)
qed

text \<open>
  Both searches replace one free block by a run of blocks of which exactly one is in use; the
  rest of the list, and the absence of free neighbours, is kept.
\<close>

lemma no_adj_replace:
  "no_adj (xs @ (a, n, False) # ys) \<Longrightarrow> no_adj zs \<Longrightarrow> zs \<noteq> [] \<Longrightarrow> no_adj (xs @ zs @ ys)"
  by (cases ys) (auto simp: no_adj_append)

lemma first_fit_replace:
  assumes "first_fit sz bs = Some (a, bs')" and "unat sz + 40 < 4294967296"
  shows "\<exists>xs n ys zs m. bs = xs @ (a, n, False) # ys \<and> bs' = xs @ zs @ ys \<and> no_adj zs \<and> zs \<noteq> []
    \<and> used zs = [(a, m)] \<and> unat sz + 20 \<le> unat m"
proof -
  obtain xs n ys where b: "bs = xs @ (a, n, False) # ys" "unat sz + 20 \<le> unat n"
    "bs' = xs @ (if unat n < unat sz + 40 then (a, n, True) # ys
      else (a, HDR + sz, True) # (a + (HDR + sz), n - (HDR + sz), False) # ys)"
    using first_fit_Some [OF assms(1)] by blast
  let ?zs = "if unat n < unat sz + 40 then [(a, n, True)]
    else [(a, HDR + sz, True), (a + (HDR + sz), n - (HDR + sz), False)]"
  let ?m = "if unat n < unat sz + 40 then n else HDR + sz"
  have "bs' = xs @ ?zs @ ys" "no_adj ?zs" "?zs \<noteq> []" "used ?zs = [(a, ?m)]"
    using b(3) by simp_all
  moreover have "unat sz + 20 \<le> unat ?m" using b(2) assms(2) by (simp add: unat_HDR_add)
  ultimately show ?thesis using b(1) by blast
qed

lemma aligned_fit_replace:
  assumes "aligned_fit sz bs = Fit c bs'" and "unat sz + 40 < 4294967296"
    and "tiles lo hi bs" and "hi + 4136 \<le> 4294967296"
  shows "\<exists>xs a n ys zs m. bs = xs @ (a, n, False) # ys \<and> bs' = xs @ zs @ ys \<and> no_adj zs \<and> zs \<noteq> []
    \<and> used zs = [(c, m)] \<and> unat sz + 20 \<le> unat m \<and> c + HDR = page_align a
    \<and> unat a + 20 \<le> unat c \<and> unat c + 20 \<le> unat a + unat n"
proof -
  obtain xs a n ys d where b: "bs = xs @ (a, n, False) # ys" "d = page_align a - a - HDR" "c = a + d"
    "unat (page_align a) + unat sz \<le> unat a + unat n"
    "bs' = xs @ (a, d, False) # (if unat sz + 40 < unat (n - d)
       then (a + d, HDR + sz, True) # (a + d + (HDR + sz), n - d - (HDR + sz), False) # ys
       else (a + d, n - d, True) # ys)"
    using aligned_fit_Fit [OF assms(1)] by blast
  have "unat a + unat n \<le> hi" using assms(3) b(1) tiles_mid(4) by blast
  then have "unat a + 4136 \<le> 4294967296" using assms(4) by simp
  note al = unat_page_align [OF this]
  have "unat (page_align a - a) = unat (page_align a) - unat a" using al by (simp add: unat_sub32)
  then have ud: "unat d = unat (page_align a) - unat a - 20" using al b(2) by (simp add: unat_sub32)
  have nd: "unat (n - d) = unat n - unat d" using ud al b(4) by (simp add: unat_sub32)
  have cu: "unat c = unat (page_align a) - 20" using b(3) ud al \<open>unat a + 4136 \<le> 4294967296\<close>
    by (simp add: unat_add32)
  let ?zs = "(a, d, False) # (if unat sz + 40 < unat (n - d)
    then [(c, HDR + sz, True), (c + (HDR + sz), n - d - (HDR + sz), False)] else [(c, n - d, True)])"
  let ?m = "if unat sz + 40 < unat (n - d) then HDR + sz else n - d"
  have "bs' = xs @ ?zs @ ys" "no_adj ?zs" "?zs \<noteq> []" "used ?zs = [(c, ?m)]"
    using b(3,5) by simp_all
  moreover have "unat sz + 20 \<le> unat ?m"
  proof -
    have "unat sz + 20 \<le> unat (n - d)" using nd ud al(2) b(4) by linarith
    then show ?thesis using assms(2) by (simp add: unat_HDR_add)
  qed
  moreover have "c + HDR = page_align a" using b(2,3) by simp
  moreover have "unat a + 20 \<le> unat c" "unat c + 20 \<le> unat a + unat n" using cu al b(4) by linarith+
  ultimately show ?thesis using b(1) by blast
qed

section \<open>The contract holds\<close>

text \<open>
  One step shared by both allocations: a heap whose block list lost one free block and gained
  a run with the single used block \<open>(c, m)\<close> has exactly one live pointer more.
\<close>

lemma live_replace:
  assumes "heap_inv lo hi s (xs @ (a, n, False) # ys)" and "heap_inv lo hi s' (xs @ zs @ ys)"
    and "used zs = [(c, m)]"
  shows "heap_live s' q k \<longleftrightarrow> heap_live s q k \<or> q = c + HDR \<and> k = m"
proof -
  have "heap_live s' q k \<longleftrightarrow> (q - HDR, k) \<in> set (used (xs @ zs @ ys))"
    using heap_live_iff [OF assms(2)] by (simp add: in_used)
  also have "\<dots> \<longleftrightarrow> (q - HDR, k) \<in> set (used (xs @ (a, n, False) # ys)) \<or> q - HDR = c \<and> k = m"
    using assms(3) by auto
  also have "\<dots> \<longleftrightarrow> heap_live s q k \<or> q = c + HDR \<and> k = m"
    using heap_live_iff [OF assms(1)] unfolding in_used by (auto simp: algebra_simps)
  finally show ?thesis .
qed

lemma heap_wfI: "heap_inv lo hi s bs \<Longrightarrow> no_adj bs \<Longrightarrow> hi + 4136 \<le> 4294967296 \<Longrightarrow> heap_wf s"
  by (auto simp: heap_wf_def)

lemma kmalloc_cases:
  assumes wf: "heap_inv lo hi s bs" "no_adj bs" and req: "req_ok sz"
  shows "(kmalloc s sz = Some (Inr (0, s)) \<and> first_fit (round_size sz) bs = None) \<or>
    (\<exists>c s' bs' m. kmalloc s sz = Some (Inr (c + HDR, s')) \<and> heap_inv lo hi s' bs' \<and> no_adj bs'
      \<and> first_fit (round_size sz) bs = Some (c, bs') \<and> c + HDR \<noteq> 0
      \<and> unat sz + 20 \<le> unat m \<and> (\<forall>k. (c, k, True) \<notin> set bs)
      \<and> (\<forall>q k. heap_live s' q k \<longleftrightarrow> heap_live s q k \<or> q = c + HDR \<and> k = m))"
proof (cases "first_fit (round_size sz) bs")
  case None
  then show ?thesis using kmalloc_plain [OF wf(1) req] by simp
next
  case (Some r)
  obtain c bs' where r: "r = (c, bs')" by (cases r)
  obtain s' where s': "kmalloc s sz = Some (Inr (c + HDR, s'))" "heap_inv lo hi s' bs'"
    using kmalloc_plain [OF wf(1) req] Some r by auto
  obtain xs n ys zs m where b: "bs = xs @ (c, n, False) # ys" "bs' = xs @ zs @ ys" "no_adj zs" "zs \<noteq> []"
    "used zs = [(c, m)]" "unat (round_size sz) + 20 \<le> unat m"
    using first_fit_replace [of "round_size sz" bs c bs'] Some r round_size_fits [OF req] by blast
  have til: "tiles lo hi bs" using wf(1) by (simp add: heap_inv_def)
  have "(c, n, False) \<in> set bs" using b(1) by simp
  then have "\<forall>k. (c, k, True) \<notin> set bs" using blk_addr_unique [OF til] by blast
  moreover have "c + HDR \<noteq> 0"
    using tiles_bounds [OF til \<open>(c, n, False) \<in> set bs\<close>] wf(1) unat_add32 [of c HDR]
    by (auto simp: heap_inv_def)
  moreover have "no_adj bs'" using no_adj_replace b wf(2) by blast
  moreover have "unat sz + 20 \<le> unat m" using b(6) unat_round_size [OF req] by simp
  ultimately show ?thesis
    using s' Some r b live_replace [of lo hi s xs c n ys s' zs c m] wf(1) by blast
qed

lemma kmalloc_a_cases:
  assumes wf: "heap_inv lo hi s bs" "no_adj bs" "hi + 4136 \<le> 4294967296" and req: "req_ok sz"
  shows "(kmalloc_a s sz = None \<and> aligned_fit (round_size sz) bs = Stuck) \<or>
    (kmalloc_a s sz = Some (Inr (0, s)) \<and> aligned_fit (round_size sz) bs = NoFit) \<or>
    (\<exists>c s' bs' m. kmalloc_a s sz = Some (Inr (c + HDR, s')) \<and> heap_inv lo hi s' bs' \<and> no_adj bs'
      \<and> aligned_fit (round_size sz) bs = Fit c bs' \<and> c + HDR \<noteq> 0 \<and> unat (c + HDR) mod 4096 = 0
      \<and> unat sz + 20 \<le> unat m \<and> (\<forall>k. (c, k, True) \<notin> set bs)
      \<and> (\<forall>q k. heap_live s' q k \<longleftrightarrow> heap_live s q k \<or> q = c + HDR \<and> k = m))"
proof (cases "aligned_fit (round_size sz) bs")
  case (Fit c bs')
  obtain s' where s': "kmalloc_a s sz = Some (Inr (c + HDR, s'))" "heap_inv lo hi s' bs'"
    using kmalloc_aligned [OF wf(1) req wf(3)] Fit by auto
  have til: "tiles lo hi bs" using wf(1) by (simp add: heap_inv_def)
  obtain xs a n ys zs m where b: "bs = xs @ (a, n, False) # ys" "bs' = xs @ zs @ ys" "no_adj zs" "zs \<noteq> []"
    "used zs = [(c, m)]" "unat (round_size sz) + 20 \<le> unat m" "c + HDR = page_align a"
    "unat a + 20 \<le> unat c" "unat c + 20 \<le> unat a + unat n"
    using aligned_fit_replace [OF Fit round_size_fits [OF req] til wf(3)] by blast
  have an: "(a, n, False) \<in> set bs" using b(1) by simp
  have "(c, k, True) \<notin> set bs" for k
  proof
    assume ck: "(c, k, True) \<in> set bs"
    have "a \<noteq> c" using b(8) by auto
    then show False using tiles_apart [OF til an ck] b(8,9) by auto
  qed
  moreover have "c + HDR \<noteq> 0"
    using tiles_bounds [OF til an] b(9) wf(1) unat_add32 [of c HDR] by (auto simp: heap_inv_def)
  moreover have "unat (c + HDR) mod 4096 = 0"
    unfolding b(7) page_align_def by (rule page_mask_align)
  moreover have "no_adj bs'" using no_adj_replace b wf(2) by blast
  moreover have "unat sz + 20 \<le> unat m" using b(6) unat_round_size [OF req] by simp
  moreover have "\<forall>q k. heap_live s' q k \<longleftrightarrow> heap_live s q k \<or> q = c + HDR \<and> k = m"
    using live_replace [of lo hi s xs a n ys s' zs c m] wf(1) s'(2) b(1,2,5) by simp
  ultimately show ?thesis using s' Fit
    by (intro disjI2 exI [of _ c] exI [of _ s'] exI [of _ bs'] exI [of _ m] conjI) auto
qed (use kmalloc_aligned [OF wf(1) req wf(3)] in auto)

lemma kfree_live:
  assumes wf: "heap_inv lo hi s bs" "no_adj bs" and l: "heap_live s p m"
  shows "\<exists>s'. kfree s p = Inr s' \<and> heap_inv lo hi s' (coalesce (mark_free (p - HDR) bs))
    \<and> (\<forall>q k. heap_live s' q k \<longleftrightarrow> heap_live s q k \<and> q \<noteq> p)"
proof -
  let ?a = "p - HDR"
  have "(?a, m, True) \<in> set bs" using l heap_live_iff [OF wf(1)] by simp
  then obtain xs ys where b: "bs = xs @ (?a, m, True) # ys" by (meson split_list)
  have til: "tiles lo hi bs" using wf(1) by (simp add: heap_inv_def)
  have dis: "?a \<notin> fst ` set xs" "?a \<notin> fst ` set ys" using tiles_distinct [OF til] b by auto
  have "mark_free ?a zs = zs" if "?a \<notin> fst ` set zs" for zs
    using that unfolding mark_free_def by (induction zs) auto
  then have mf: "mark_free ?a bs = xs @ (?a, m, False) # ys"
    using b dis by (simp add: mark_free_def)
  obtain s' where s': "kfree s (?a + HDR) = Inr s'" "heap_inv lo hi s' (coalesce (xs @ (?a, m, False) # ys))"
    using kfree_mid [of lo hi s xs ?a m ys] wf b by auto
  have "heap_live s' q k \<longleftrightarrow> heap_live s q k \<and> q \<noteq> p" for q k
  proof -
    have "heap_live s' q k \<longleftrightarrow> (q - HDR, k) \<in> set (used xs @ used ys)"
      using heap_live_iff [OF s'(2)] in_used [of _ _ "coalesce (xs @ (?a, m, False) # ys)"] by simp
    moreover have "heap_live s q k \<longleftrightarrow> (q - HDR, k) \<in> set (used xs @ (?a, m) # used ys)"
      using heap_live_iff [OF wf(1)] b by (simp add: in_used)
    moreover have "(?a, k) \<notin> set (used xs @ used ys)" using dis by (force simp: in_used)
    ultimately show ?thesis by auto
  qed
  then show ?thesis using s' mf by simp
qed

lemma live_unat:
  assumes "heap_inv lo hi s bs" "heap_live s p m"
  shows "unat p = unat (p - HDR) + 20" "20 \<le> unat m" "unat (p - HDR) + unat m \<le> hi"
proof -
  have l: "(p - HDR, m, True) \<in> set bs" using assms heap_live_iff by blast
  have b: "20 \<le> unat m" "unat (p - HDR) + unat m \<le> hi" "hi < 4294967296"
    using tiles_bounds [OF _ l, of lo hi] assms(1) by (auto simp: heap_inv_def)
  then have "unat (p - HDR + HDR) = unat (p - HDR) + 20" by (subst unat_add32) auto
  then show "unat p = unat (p - HDR) + 20" "20 \<le> unat m" "unat (p - HDR) + unat m \<le> hi"
    using b by simp_all
qed

lemma live_bound: "heap_wf s \<Longrightarrow> heap_live s p m \<Longrightarrow> unat p + unat m < 4294967296"
  using live_unat unfolding heap_wf_def by fastforce

lemma heap_free_law:
  assumes "heap_wf s" "heap_live s p m"
  shows "\<exists>s'. kfree s p = Inr s' \<and> heap_wf s' \<and> (\<forall>q k. heap_live s' q k \<longleftrightarrow> heap_live s q k \<and> q \<noteq> p)"
  using assms kfree_live no_adj_coalesce unfolding heap_wf_def by blast

lemma heap_apart_law:
  assumes "heap_wf s" "heap_live s p m" "heap_live s q k" "p \<noteq> q"
  shows "unat p + unat m \<le> unat q \<or> unat q + unat k \<le> unat p"
proof -
  obtain lo hi bs where inv: "heap_inv lo hi s bs" using assms(1) by (auto simp: heap_wf_def)
  have "(p - HDR, m, True) \<in> set bs" "(q - HDR, k, True) \<in> set bs" "p - HDR \<noteq> q - HDR"
    using heap_live_iff [OF inv] assms(2-4) by auto
  then have "unat (p - HDR) + unat m \<le> unat (q - HDR) \<or> unat (q - HDR) + unat k \<le> unat (p - HDR)"
    using tiles_apart inv unfolding heap_inv_def by blast
  then show ?thesis using live_unat(1) [OF inv assms(2)] live_unat(1) [OF inv assms(3)] by linarith
qed

interpretation kma: allocator_laws heap_wf heap_live req_ok kmalloc_a kfree
proof (unfold_locales, goal_cases)
  case (1 s n r)
  then obtain lo hi bs where wf: "heap_inv lo hi s bs" "no_adj bs" "hi + 4136 \<le> 4294967296"
    by (auto simp: heap_wf_def)
  then show ?case using kmalloc_a_cases [OF wf 1(2)] 1 heap_wfI by auto
next
  case (2 s n s')
  then obtain lo hi bs where wf: "heap_inv lo hi s bs" "no_adj bs" "hi + 4136 \<le> 4294967296"
    by (auto simp: heap_wf_def)
  then show ?case using kmalloc_a_cases [OF wf 2(2)] 2 by auto
next
  case (3 s n p s')
  then obtain lo hi bs where wf: "heap_inv lo hi s bs" "no_adj bs" "hi + 4136 \<le> 4294967296"
    by (auto simp: heap_wf_def)
  obtain m c where cm: "p = c + HDR" "unat n + 20 \<le> unat m" "\<forall>k. (c, k, True) \<notin> set bs"
    "\<forall>q k. heap_live s' q k \<longleftrightarrow> heap_live s q k \<or> q = c + HDR \<and> k = m"
    using kmalloc_a_cases [OF wf 3(2)] 3(3,4) by auto
  have "\<not> heap_live s p k" for k using heap_live_iff [OF wf(1)] cm(1,3) by simp
  with cm show ?case by auto
next
  case (4 s)
  show ?case by (simp add: kfree_def)
next
  case (5 s p m)
  then show ?case by (rule heap_free_law)
next
  case (6 s p m q k)
  then show ?case by (rule heap_apart_law)
qed

interpretation km: allocator heap_wf heap_live req_ok kmalloc kfree
proof (unfold_locales, goal_cases)
  case (1 s n r)
  then obtain lo hi bs where wf: "heap_inv lo hi s bs" "no_adj bs" "hi + 4136 \<le> 4294967296"
    by (auto simp: heap_wf_def)
  then show ?case using kmalloc_cases [OF wf(1,2) 1(2)] 1 heap_wfI by auto
next
  case (2 s n s')
  then obtain lo hi bs where wf: "heap_inv lo hi s bs" "no_adj bs" by (auto simp: heap_wf_def)
  then show ?case using kmalloc_cases [OF wf(1,2) 2(2)] 2 by auto
next
  case (3 s n p s')
  then obtain lo hi bs where wf: "heap_inv lo hi s bs" "no_adj bs" by (auto simp: heap_wf_def)
  obtain m c where cm: "p = c + HDR" "unat n + 20 \<le> unat m" "\<forall>k. (c, k, True) \<notin> set bs"
    "\<forall>q k. heap_live s' q k \<longleftrightarrow> heap_live s q k \<or> q = c + HDR \<and> k = m"
    using kmalloc_cases [OF wf(1,2) 3(2)] 3(3,4) by auto
  have "\<not> heap_live s p k" for k using heap_live_iff [OF wf(1)] cm(1,3) by simp
  with cm show ?case by auto
next
  case (4 s)
  show ?case by (simp add: kfree_def)
next
  case (5 s p m)
  then show ?case by (rule heap_free_law)
next
  case (6 s p m q k)
  then show ?case by (rule heap_apart_law)
next
  case (7 s n)
  then obtain lo hi bs where wf: "heap_inv lo hi s bs" "no_adj bs" by (auto simp: heap_wf_def)
  then show ?case using kmalloc_cases [OF wf(1,2) 7(2)] by auto
qed

text \<open>
  The same contract for a heap known to fill the addresses from \<open>lo\<close> up to \<open>hi\<close>, for clients that
  also keep nodes outside the heap.
\<close>

definition heap_at :: "nat \<Rightarrow> nat \<Rightarrow> heap \<Rightarrow> bool" where
  "heap_at lo hi s \<longleftrightarrow> hi + 4136 \<le> 4294967296 \<and> (\<exists>bs. heap_inv lo hi s bs \<and> no_adj bs)"

lemma heap_at_wf: "heap_at lo hi s \<Longrightarrow> heap_wf s"
  by (auto simp: heap_at_def heap_wf_def)

lemma heap_at_live:
  assumes "heap_at lo hi s" "heap_live s p m"
  shows "lo + 20 \<le> unat p \<and> unat p + unat m \<le> hi + 20"
proof -
  obtain bs where b: "heap_inv lo hi s bs" using assms(1) by (auto simp: heap_at_def)
  have "(p - HDR, m, True) \<in> set bs" using heap_live_iff [OF b] assms(2) by simp
  then have "lo \<le> unat (p - HDR)" using tiles_bounds b unfolding heap_inv_def by blast
  then show ?thesis using live_unat [OF b assms(2)] by linarith
qed

interpretation kmr: allocator "heap_at lo hi" heap_live req_ok kmalloc kfree for lo hi
proof (unfold_locales, goal_cases)
  case (1 s n r)
  then obtain bs where wf: "heap_inv lo hi s bs" "no_adj bs" by (auto simp: heap_at_def)
  then show ?case using kmalloc_cases [OF wf 1(2)] 1 by (auto simp: heap_at_def)
next
  case (5 s p m)
  then obtain bs where wf: "heap_inv lo hi s bs" "no_adj bs" by (auto simp: heap_at_def)
  then show ?case using kfree_live [OF wf 5(2)] 5(1) no_adj_coalesce unfolding heap_at_def by blast
qed (use heap_at_wf km.alloc_null km.alloc_live km.free_null km.live_apart km.alloc_total in blast)+

section \<open>Properties of the kernel heap\<close>

lemma kheap_init_inv:
  assumes "0 < unat start" "20 \<le> unat sz" "unat start + unat sz < 4294967296"
  shows "heap_inv (unat start) (unat start + unat sz) (kheap_init start sz s) [(start, sz, False)]"
  using assms by (auto simp: heap_inv_def kheap_init_def Let_def upd_hdr_def blk_ok_def)

definition heap0 :: heap where
  "heap0 = \<lparr>kheap = 0, hdr = (\<lambda>_. \<lparr>magic = 0, hsize = 0, allocated = 0, hprev = 0, hnext = 0\<rparr>)\<rparr>"

text \<open>A heap of 64 KiB at the address where the linker script may place \<open>KERNEL_END\<close>.\<close>

definition heap1 :: heap where
  "heap1 = kheap_init 0xC0120000 0x10000 heap0"

lemma heap1_inv: "heap_inv 0xC0120000 0xC0130000 heap1 [(0xC0120000, 0x10000, False)]"
  using kheap_init_inv [of "0xC0120000" "0x10000" heap0] by (simp add: heap1_def)

lemma heap1_wf: "heap_wf heap1"
  by (rule heap_wfI [OF heap1_inv]) simp_all

lemma req_ok_num: "req_ok 100" "req_ok 0x800" "req_ok 0x2000" "req_ok 52"
  by (simp_all add: req_ok_def)

lemma two_live: "\<exists>h. heap_at 0xC0120000 0xC0130000 h \<and> heap_live h 0xC0120014 56 \<and> heap_live h 0xC012004C 56"
proof -
  have r: "req_ok 36" by (simp add: req_ok_def)
  obtain h1 where h1: "heap_inv 0xC0120000 0xC0130000 h1 [(0xC0120000, 56, True), (0xC0120038, 0xFFC8, False)]"
    using kmalloc_plain [OF heap1_inv r] by (auto simp: round_size_def HDR_def)
  obtain h where h: "heap_inv 0xC0120000 0xC0130000 h [(0xC0120000, 56, True), (0xC0120038, 56, True), (0xC0120070, 0xFF90, False)]"
    using kmalloc_plain [OF h1 r] by (auto simp: round_size_def HDR_def)
  have "no_adj [(0xC0120000, 56, True), (0xC0120038, 56, True), (0xC0120070, 0xFF90, False)]" by simp
  with h have "heap_at 0xC0120000 0xC0130000 h" unfolding heap_at_def by auto
  moreover have "heap_live h 0xC0120014 56" "heap_live h 0xC012004C 56" using heap_live_iff [OF h] by (simp_all add: HDR_def)
  ultimately show ?thesis by blast
qed

text \<open>
  \<open>kheap_init\<close> establishes the heap invariant: the whole region is one free block, nothing
  is live.
\<close>

theorem kheap_init_wf:
  assumes "0 < unat start" "20 \<le> unat sz" "unat start + unat sz + 4136 \<le> 4294967296"
  shows "heap_wf (kheap_init start sz s) \<and> \<not> heap_live (kheap_init start sz s) p m"
proof -
  have inv: "heap_inv (unat start) (unat start + unat sz) (kheap_init start sz s) [(start, sz, False)]"
    using assms by (intro kheap_init_inv) simp_all
  then show ?thesis using heap_wfI [OF inv] heap_live_iff [OF inv] assms(3) by simp
qed

theorem kheap_init_wf_witness: "heap_wf (kheap_init 0xC0120000 0x10000 heap0)"
  using kheap_init_wf [of "0xC0120000" "0x10000" heap0] by simp



text \<open>
  C3. \<open>kmalloc\<close> implements first fit on the abstract block list, the request rounded by
  \<open>size += size%4\<close>: it fails exactly when no free block is big enough, otherwise it takes the
  first one, whole or split in two.
\<close>

theorem kmalloc_refines_first_fit:
  assumes "heap_inv lo hi s bs" and "req_ok sz"
  shows "case first_fit (round_size sz) bs of
      None \<Rightarrow> kmalloc s sz = Some (Inr (0, s)) \<and>
        (\<forall>(a, n, u) \<in> set bs. u \<or> unat n < unat sz + unat sz mod 4 + 20)
    | Some (a, bs') \<Rightarrow> \<exists>s'. kmalloc s sz = Some (Inr (a + HDR, s')) \<and> heap_inv lo hi s' bs'"
  using kmalloc_plain [OF assms] first_fit_None [of "round_size sz" bs] unat_round_size [OF assms(2)]
  by (auto split: option.splits)

theorem kmalloc_refines_first_fit_witness:
  "\<exists>s'. kmalloc heap1 100 = Some (Inr (0xC0120014, s')) \<and>
     heap_inv 0xC0120000 0xC0130000 s' [(0xC0120000, 120, True), (0xC0120078, 0xFF88, False)]"
  using kmalloc_refines_first_fit [OF heap1_inv req_ok_num(1)] by (simp add: round_size_def HDR_def)

text \<open>
  C4. \<open>kfree\<close> of a live pointer never panics; it implements "mark the block free, then merge all
  neighbouring free blocks" on the abstract block list, keeps the heap well formed and ends the
  life of exactly that pointer.
\<close>

theorem kfree_refines_coalesce:
  assumes "heap_inv lo hi s bs" and "no_adj bs" and "heap_live s p m"
  shows "\<exists>s'. kfree s p = Inr s' \<and> heap_inv lo hi s' (coalesce (mark_free (p - HDR) bs)) \<and>
    no_adj (coalesce (mark_free (p - HDR) bs)) \<and>
    (\<forall>q k. heap_live s' q k \<longleftrightarrow> heap_live s q k \<and> q \<noteq> p)"
  using kfree_live [OF assms] no_adj_coalesce by blast

theorem kfree_refines_coalesce_witness:
  "\<exists>s s'. kmalloc heap1 100 = Some (Inr (0xC0120014, s)) \<and> kfree s 0xC0120014 = Inr s' \<and>
     heap_inv 0xC0120000 0xC0130000 s' [(0xC0120000, 0x10000, False)]"
proof -
  obtain s where s: "kmalloc heap1 100 = Some (Inr (0xC0120014, s))"
    "heap_inv 0xC0120000 0xC0130000 s [(0xC0120000, 120, True), (0xC0120078, 0xFF88, False)]"
    using kmalloc_plain [OF heap1_inv req_ok_num(1)] by (auto simp: round_size_def HDR_def)
  have "heap_live s 0xC0120014 120" using heap_live_iff [OF s(2)] by (simp add: HDR_def)
  then obtain s' where "kfree s 0xC0120014 = Inr s'" "heap_inv 0xC0120000 0xC0130000 s'
      (coalesce (mark_free (0xC0120014 - HDR) [(0xC0120000, 120, True), (0xC0120078, 0xFF88, False)]))"
    using kfree_refines_coalesce [OF s(2), of "0xC0120014" 120] by auto
  then show ?thesis using s(1) by (simp add: HDR_def mark_free_def)
qed

text \<open>
  Freeing the block \<open>kmalloc\<close> just returned restores the heap's block list: splitting and
  merging are inverse to one another, so such a pair leaves no fragmentation behind.
\<close>

theorem kmalloc_kfree_roundtrip:
  assumes "heap_inv lo hi s bs" and "no_adj bs" and "req_ok sz"
    and "kmalloc s sz = Some (Inr (p, s'))"
  shows "\<exists>s''. kfree s' p = Inr s'' \<and> heap_inv lo hi s'' bs"
proof (cases "p = 0")
  case True
  have "kmalloc s sz = Some (Inr (0, s'))" using assms(4) True by simp
  then have "s' = s" using kmalloc_cases [OF assms(1-3)] by auto
  then show ?thesis using True assms(1) by (simp add: kfree_def)
next
  case False
  then obtain c bs' m where c: "p = c + HDR" "heap_inv lo hi s' bs'" "no_adj bs'"
    "first_fit (round_size sz) bs = Some (c, bs')" "heap_live s' p m"
    using kmalloc_cases [OF assms(1-3)] assms(4) by fastforce
  obtain xs n ys where b: "bs = xs @ (c, n, False) # ys"
    "bs' = xs @ (if unat n < unat (round_size sz) + 40 then (c, n, True) # ys
      else (c, HDR + round_size sz, True) # (c + (HDR + round_size sz), n - (HDR + round_size sz), False) # ys)"
    using first_fit_Some [OF c(4)] by blast
  have "tiles lo hi bs" using assms(1) by (simp add: heap_inv_def)
  then have "c \<notin> fst ` set xs" "c \<notin> fst ` set ys" using tiles_distinct b(1) by force+
  moreover have "mark_free c zs = zs" if "c \<notin> fst ` set zs" for zs
    using that unfolding mark_free_def by (induction zs) auto
  moreover have "mark_free c (us @ vs) = mark_free c us @ mark_free c vs" for us vs
    by (simp add: mark_free_def)
  moreover have "mark_free c ((d, k, u) # vs) = (d, k, u \<and> d \<noteq> c) # mark_free c vs" for d k u vs
    by (simp add: mark_free_def)
  ultimately have "coalesce (mark_free c bs') = coalesce bs"
    using b coalesce_merge [of xs c "HDR + round_size sz" "c + (HDR + round_size sz)" "n - (HDR + round_size sz)" ys]
    by auto
  then show ?thesis using kfree_live [OF c(2,3,5)] c(1) coalesce_id [OF assms(2)] by auto
qed

theorem kmalloc_kfree_roundtrip_witness:
  "\<exists>p s' s''. kmalloc heap1 100 = Some (Inr (p, s')) \<and> kfree s' p = Inr s'' \<and>
     heap_inv 0xC0120000 0xC0130000 s'' [(0xC0120000, 0x10000, False)]"
proof -
  obtain p s' where "kmalloc heap1 100 = Some (Inr (p, s'))"
    using km.alloc_total [OF heap1_wf req_ok_num(1)] km.alloc_ret [OF heap1_wf req_ok_num(1)] by blast
  then show ?thesis using kmalloc_kfree_roundtrip [OF heap1_inv _ req_ok_num(1)] by fastforce
qed

text \<open>
  \<open>kmalloc_a\<close>: whenever it returns, the result is null (and nothing changed) or a fresh,
  page aligned pointer to a block with room for the request. It returns if and only if the
  first free block that is big enough for the unaligned request also holds the aligned one:
  otherwise the \<open>continue\<close> in the search loop, which does not advance to the next block, makes
  the loop run forever.
\<close>

theorem kmalloc_a_spec:
  assumes "heap_inv lo hi s bs" and "no_adj bs" and "hi + 4136 \<le> 4294967296" and "req_ok sz"
  shows "(kmalloc_a s sz = None \<longleftrightarrow> aligned_fit (round_size sz) bs = Stuck) \<and>
    (\<forall>r. kmalloc_a s sz = Some r \<longrightarrow> (\<exists>p s'. r = Inr (p, s') \<and> heap_wf s' \<and> unat p mod 4096 = 0 \<and>
       (p = 0 \<longrightarrow> s' = s) \<and> (p \<noteq> 0 \<longrightarrow> (\<exists>m. unat sz + 20 \<le> unat m \<and> heap_live s' p m \<and> \<not> heap_live s p m))))"
  using kmalloc_a_cases [OF assms]
proof (elim disjE exE conjE, goal_cases)
  case 2
  then show ?case using heap_wfI [OF assms(1-3)] by auto
next
  case (3 c s' bs' m)
  have "\<not> heap_live s (c + HDR) m" using heap_live_iff [OF assms(1)] 3(8) by simp
  moreover have "heap_wf s'" by (rule heap_wfI [OF 3(2,3) assms(3)])
  moreover have "heap_live s' (c + HDR) m" using 3(9) by blast
  ultimately show ?case using 3(1,4,5,6,7) by auto
qed auto

theorem kmalloc_a_spec_witness:
  "\<exists>p s'. kmalloc_a heap1 0x2000 = Some (Inr (p, s')) \<and> unat p mod 4096 = 0"
proof -
  let ?bs = "[(0xC0120000, 0x10000, False)] :: blk list"
  have na: "no_adj ?bs" by simp
  have "aligned_fit (round_size 0x2000) ?bs \<noteq> Stuck"
    by (simp add: round_size_def page_align_def HDR_def Let_def)
  then have "kmalloc_a heap1 0x2000 \<noteq> None"
    using kmalloc_a_spec [OF heap1_inv na _ req_ok_num(3)] by simp
  then obtain r where "kmalloc_a heap1 0x2000 = Some r" by auto
  then show ?thesis using kmalloc_a_spec [OF heap1_inv na _ req_ok_num(3)] by fastforce
qed


text \<open>
  Memory isolation: the payloads of two different live pointers, and the header in front of
  each, occupy disjoint byte ranges.
\<close>

theorem live_blocks_disjoint:
  assumes "heap_wf s" and "heap_live s p m" and "heap_live s q k" and "p \<noteq> q"
  shows "{unat p - 20 ..< unat p - 20 + unat m} \<inter> {unat q - 20 ..< unat q - 20 + unat k} = {}"
proof -
  obtain lo hi bs where inv: "heap_inv lo hi s bs" using assms(1) by (auto simp: heap_wf_def)
  have "20 \<le> unat p" "20 \<le> unat q"
    using live_unat(1) [OF inv assms(2)] live_unat(1) [OF inv assms(3)] by linarith+
  then show ?thesis using km.live_apart [OF assms] by auto
qed

theorem live_blocks_disjoint_witness:
  "\<exists>s p m q k. heap_wf s \<and> heap_live s p m \<and> heap_live s q k \<and> p \<noteq> q \<and>
     {unat p - 20 ..< unat p - 20 + unat m} \<inter> {unat q - 20 ..< unat q - 20 + unat k} = {}"
proof -
  let ?bs = "[(0xC0120000, 120, True), (0xC0120078, 0xFF88, False)] :: blk list"
  let ?cs = "[(0xC0120000, 120, True), (0xC0120078, 72, True), (0xC01200C0, 0xFF40, False)] :: blk list"
  obtain s where s: "heap_inv 0xC0120000 0xC0130000 s ?bs"
    using kmalloc_plain [OF heap1_inv req_ok_num(1)] by (auto simp: round_size_def HDR_def)
  obtain s' where s': "heap_inv 0xC0120000 0xC0130000 s' ?cs"
    using kmalloc_plain [OF s req_ok_num(4)] by (auto simp: round_size_def HDR_def)
  have "heap_wf s'" by (rule heap_wfI [OF s']) simp_all
  moreover have "heap_live s' 0xC0120014 120" "heap_live s' 0xC012008C 72"
    using heap_live_iff [OF s'] by (simp_all add: HDR_def)
  moreover have "(0xC0120014 :: addr) \<noteq> 0xC012008C" by simp
  ultimately show ?thesis using live_blocks_disjoint by blast
qed

text \<open>
  The guard \<open>req_ok\<close> is needed: for a request close to \<open>2^32\<close> the sum \<open>size +
  sizeof(header_t)\<close> wraps, so \<open>kmalloc(0xFFFFFFF0)\<close> on a 64 KiB heap "succeeds" and hands out
  the first free block.
\<close>

theorem kmalloc_wraps:
  "\<exists>s'. kmalloc heap1 0xFFFFFFF0 = Some (Inr (0xC0120014, s')) \<and> hsize (hdr s' 0xC0120000) = 0x10000"
proof -
  have "kmalloc_loop heap1 0xFFFFFFF0 False 0xC0120000 = Some (Inr (take_plain heap1 0xC0120000 0xFFFFFFF0))"
    by (subst kmalloc_loop.simps)
      (simp add: heap1_def heap0_def kheap_init_def Let_def upd_hdr_def HDR_def)
  then show ?thesis
    by (simp add: kmalloc_def kmalloc_int_def round_size_def heap1_def heap0_def kheap_init_def Let_def
        upd_hdr_def HDR_def take_plain_def split_block_def)
qed

text \<open>
  \<open>size += size%4\<close>, commented "round up to nearest 4 bytes", yields a multiple of 4 only for
  even sizes.
\<close>

theorem round_size_multiple:
  assumes "req_ok sz"
  shows "unat (round_size sz) mod 4 = 0 \<longleftrightarrow> even (unat sz)"
  unfolding unat_round_size [OF assms] by presburger

theorem round_size_multiple_witness: "unat (round_size 53) mod 4 \<noteq> 0"
  using round_size_multiple [of 53] by (simp add: req_ok_def)

section \<open>The diagnostics\<close>

lemma sanity_loop_ok: "chain (hdr s) p h bs \<Longrightarrow> sanity_loop s h p = Some (Inr ())"
  by (induction "hdr s" p h bs rule: chain.induct) (auto simp: sanity_loop.simps blk_ok_def)

definition sum_sizes :: "bool \<Rightarrow> blk list \<Rightarrow> nat" where
  "sum_sizes v bs = (\<Sum>(a, n, u) \<leftarrow> bs. if u = v then unat n else 0)"

lemma sum_sizes_simps [simp]: "sum_sizes v [] = 0"
  "sum_sizes v ((a, n, u) # bs) = (if u = v then unat n else 0) + sum_sizes v bs"
  by (simp_all add: sum_sizes_def)

lemma sum_sizes_total: "tiles lo hi bs \<Longrightarrow> lo + sum_sizes False bs + sum_sizes True bs = hi"
  by (induction lo hi bs rule: tiles.induct) auto

lemma print_loop_sums:
  "chain (hdr s) p h bs \<Longrightarrow>
    print_loop s h fr us = Some (fr + of_nat (sum_sizes False bs), us + of_nat (sum_sizes True bs))"
proof (induction "hdr s" p h bs arbitrary: fr us rule: chain.induct)
  case (1 p h)
  then show ?case by (simp add: print_loop.simps)
next
  case (2 p h a n u bs)
  then show ?case
    by (cases u) (simp_all add: print_loop.simps [of s a] blk_ok_def add.assoc)
qed

text \<open>
  The consistency check accepts every heap that satisfies the invariant, and the figures
  \<open>heap_print_info\<close> prints are right: free and used bytes add up to the size of the region.
\<close>

theorem heap_diagnostics:
  assumes "heap_inv lo hi s bs"
  shows "heap_sanity_check s = Some (Inr ()) \<and>
    (\<exists>fr us. unat fr = sum_sizes False bs \<and> unat us = sum_sizes True bs \<and>
       unat fr + unat us = hi - lo \<and>
       heap_print_info s = Some ((fr + us) div 1024, fr div 1024, us div 1024))"
proof -
  have ch: "chain (hdr s) 0 (kheap s) bs" and til: "tiles lo hi bs" and hi: "hi < 4294967296"
    using assms by (simp_all add: heap_inv_def)
  have tot: "lo + sum_sizes False bs + sum_sizes True bs = hi" by (rule sum_sizes_total [OF til])
  then have "unat (of_nat (sum_sizes v bs) :: u32) = sum_sizes v bs" for v
    using hi by (cases v) (simp_all add: unat_of_nat32)
  then show ?thesis
    using sanity_loop_ok [OF ch] print_loop_sums [OF ch, of 0 0] tot
    by (intro conjI exI [of _ "of_nat (sum_sizes False bs)"] exI [of _ "of_nat (sum_sizes True bs)"])
      (simp_all add: heap_sanity_check_def heap_print_info_def)
qed

theorem heap_diagnostics_witness: "heap_sanity_check heap1 = Some (Inr ())"
  using heap_diagnostics [OF heap1_inv] by blast

end
