(* ===== verification/Frames.thy ===== *)
theory Frames
  imports Paging
begin

text \<open>
  The physical frame allocator of \<open>arch/i386/frame.c\<close>: a bitmap with one bit per 4 KiB frame
  (1 = used), three counters, the initialisation from the multiboot memory map, allocation of
  the first free frame and release. The abstract view of the bitmap is the set of free frames.
\<close>

section \<open>Data\<close>

text \<open>
  \<open>MAX_FRAMES\<close> is the unparenthesised \<open>1024*1024\<close>, so the array length
  \<open>MAX_FRAMES/sizeof(uint32_t)\<close> is \<open>1024*1024/4\<close> words. Frame numbers stay below \<open>2^23\<close>, so
  the \<open>size_t\<close> arithmetic on them does not wrap and they are natural numbers here.
\<close>

definition FRAME_SIZE :: nat where "FRAME_SIZE = 4096"
definition BITMAP_WORDS :: nat where "BITMAP_WORDS = 1024 * (1024 div 4)"

record frames =
  frame_bitmap :: "nat \<Rightarrow> u32"
  num_total :: u32
  num_free :: u32
  num_used :: u32

record multiboot_mmap_entry =
  mm_size :: u32
  mm_addr :: u64
  mm_len :: u64
  mm_type :: u32

record multiboot_info =
  mbi_flags :: u32
  mmap_length :: u32
  mmap_addr :: u32

definition MULTIBOOT_MEMORY_AVAILABLE :: u32 where "MULTIBOOT_MEMORY_AVAILABLE = 1"

section \<open>The C functions\<close>

definition set_bit_f :: "nat \<Rightarrow> frames \<Rightarrow> frames" where
  "set_bit_f b f = f\<lparr>frame_bitmap := (frame_bitmap f)(b div 32 := frame_bitmap f (b div 32) OR push_bit (b mod 32) 1)\<rparr>"

definition clr_bit :: "nat \<Rightarrow> frames \<Rightarrow> frames" where
  "clr_bit b f = f\<lparr>frame_bitmap := (frame_bitmap f)(b div 32 := frame_bitmap f (b div 32) AND NOT (push_bit (b mod 32) 1))\<rparr>"

definition get_bit :: "nat \<Rightarrow> frames \<Rightarrow> bool" where
  "get_bit b f \<longleftrightarrow> frame_bitmap f (b div 32) AND push_bit (b mod 32) 1 \<noteq> 0"

definition free_region_body :: "nat \<Rightarrow> frames \<Rightarrow> frames" where
  "free_region_body i f =
     (if i \<noteq> 0 \<and> get_bit i f then
        let f = clr_bit i f; f = f\<lparr>num_free := num_free f + 1\<rparr> in f\<lparr>num_total := num_total f + 1\<rparr>
      else f)"

definition reserve_region_body :: "nat \<Rightarrow> frames \<Rightarrow> frames" where
  "reserve_region_body i f =
     (if get_bit i f then
        let f = set_bit_f i f; f = f\<lparr>num_free := num_free f - 1\<rparr> in f\<lparr>num_total := num_total f - 1\<rparr>
      else f)"

text \<open>The loop \<open>for(i=first; i<=last; i++)\<close> both region functions run.\<close>

function region_loop :: "(nat \<Rightarrow> frames \<Rightarrow> frames) \<Rightarrow> nat \<Rightarrow> nat \<Rightarrow> frames \<Rightarrow> frames" where
  "region_loop body i lst f = (if i \<le> lst then region_loop body (Suc i) lst (body i f) else f)"
  by pat_completeness auto
termination
  by (relation "measure (\<lambda>(body, i, lst, f). Suc lst - i)") auto

declare region_loop.simps [simp del]

definition free_region :: "u32 \<Rightarrow> u32 \<Rightarrow> frames \<Rightarrow> frames" where
  "free_region a sz f =
     region_loop free_region_body (unat a div FRAME_SIZE) (unat (a + sz - 1) div FRAME_SIZE) f"

definition reserve_region :: "u32 \<Rightarrow> u32 \<Rightarrow> frames \<Rightarrow> frames" where
  "reserve_region a sz f =
     region_loop reserve_region_body (unat a div FRAME_SIZE) (unat (a + sz - 1) div FRAME_SIZE) f"

text \<open>
  The memory map is read through \<open>mm\<close>, the map entry stored at an address. The 64-bit address
  and length are truncated to the 32-bit parameters of \<open>free_region\<close>.
\<close>

partial_function (option) mmap_loop ::
    "(addr \<Rightarrow> multiboot_mmap_entry) \<Rightarrow> addr \<Rightarrow> addr \<Rightarrow> frames \<Rightarrow> frames option" where
  "mmap_loop mm p endp f =
     (if p < endp then
        let e = mm p;
            f = (if mm_type e = MULTIBOOT_MEMORY_AVAILABLE
                 then free_region (ucast (mm_addr e)) (ucast (mm_addr e + mm_len e - 1)) f else f)
        in mmap_loop mm (p + mm_size e + 4) endp f
      else Some f)"

definition frame_init ::
    "(addr \<Rightarrow> multiboot_mmap_entry) \<Rightarrow> multiboot_info \<Rightarrow> frames \<Rightarrow> frames option" where
  "frame_init mm mbt f =
     (let f = f\<lparr>frame_bitmap := (\<lambda>i. if i < BITMAP_WORDS then 0xFFFFFFFF else frame_bitmap f i)\<rparr>
      in map_option (reserve_region KERNEL_PMA KERNEL_SIZE)
           (mmap_loop mm (mmap_addr mbt) (mmap_addr mbt + mmap_length mbt) f))"

definition request_frame :: "u32 \<Rightarrow> u32" where
  "request_frame p = 0"

text \<open>The inner loop of \<open>alloc_frame\<close> looks for a clear bit in a word, the outer one for a word.\<close>

function alloc_bit :: "nat \<Rightarrow> nat \<Rightarrow> frames \<Rightarrow> nat option" where
  "alloc_bit i j f =
     (if j < 32 then (if \<not> get_bit (i * 32 + j) f then Some (i * 32 + j) else alloc_bit i (Suc j) f)
      else None)"
  by pat_completeness auto
termination
  by (relation "measure (\<lambda>(i, j, f). 32 - j)") auto

function alloc_word :: "nat \<Rightarrow> frames \<Rightarrow> nat option" where
  "alloc_word i f =
     (if i < BITMAP_WORDS then
        (if frame_bitmap f i \<noteq> 0xFFFFFFFF then
           (case alloc_bit i 0 f of Some b \<Rightarrow> Some b | None \<Rightarrow> alloc_word (Suc i) f)
         else alloc_word (Suc i) f)
      else None)"
  by pat_completeness auto
termination
  by (relation "measure (\<lambda>(i, f). BITMAP_WORDS - i)") auto

declare alloc_bit.simps [simp del] alloc_word.simps [simp del]

definition alloc_frame :: "frames \<Rightarrow> u32 \<times> frames" where
  "alloc_frame f =
     (case alloc_word 0 f of
        None \<Rightarrow> (0, f)
      | Some b \<Rightarrow>
          let f = f\<lparr>frame_bitmap := (frame_bitmap f)(b div 32 := frame_bitmap f (b div 32) OR push_bit (b mod 32) 1)\<rparr>;
              f = f\<lparr>num_used := num_used f + 1\<rparr>;
              f = f\<lparr>num_free := num_free f - 1\<rparr>
          in (of_nat (b * FRAME_SIZE), f))"

definition free_frame :: "u32 \<Rightarrow> frames \<Rightarrow> frames" where
  "free_frame a f =
     (let b = unat a div FRAME_SIZE in
      if b \<noteq> 0 \<and> get_bit b f then
        let f = clr_bit b f; f = f\<lparr>num_used := num_used f - 1\<rparr> in f\<lparr>num_free := num_free f + 1\<rparr>
      else f)"

definition num_total_frames :: "frames \<Rightarrow> u32" where "num_total_frames f = num_total f"
definition num_free_frames :: "frames \<Rightarrow> u32" where "num_free_frames f = num_free f"
definition num_used_frames :: "frames \<Rightarrow> u32" where "num_used_frames f = num_used f"

section \<open>Bits\<close>

definition free_set :: "frames \<Rightarrow> nat set" where
  "free_set f = {b. b < 32 * BITMAP_WORDS \<and> \<not> get_bit b f}"

lemma get_bit_iff: "get_bit b f \<longleftrightarrow> bit (frame_bitmap f (b div 32)) (b mod 32)"
proof -
  have "w AND push_bit n 1 \<noteq> 0 \<longleftrightarrow> bit w n" if "n < 32" for w :: u32 and n
    using that by (auto simp: bit_eq_iff [where 'a = u32] bit_simps)
  then show ?thesis by (simp add: get_bit_def)
qed

lemma bit_index_eq: "b div 32 = c div 32 \<and> b mod 32 = c mod 32 \<longleftrightarrow> b = c" for b c :: nat
  by (metis mult_div_mod_eq)

lemma get_set_bit: "get_bit c (set_bit_f b f) \<longleftrightarrow> c = b \<or> get_bit c f"
  using bit_index_eq [of c b] by (auto simp: get_bit_iff set_bit_f_def bit_simps)

lemma get_clr_bit: "get_bit c (clr_bit b f) \<longleftrightarrow> c \<noteq> b \<and> get_bit c f"
  using bit_index_eq [of c b] by (auto simp: get_bit_iff clr_bit_def bit_simps)

lemma get_bit_counters [simp]:
  "get_bit c (f\<lparr>num_free := x\<rparr>) = get_bit c f" "get_bit c (f\<lparr>num_used := x\<rparr>) = get_bit c f"
  "get_bit c (f\<lparr>num_total := x\<rparr>) = get_bit c f"
  by (simp_all add: get_bit_def)

lemma counters_bits [simp]:
  "num_free (clr_bit b f) = num_free f" "num_used (clr_bit b f) = num_used f" "num_total (clr_bit b f) = num_total f"
  "num_free (set_bit_f b f) = num_free f" "num_used (set_bit_f b f) = num_used f" "num_total (set_bit_f b f) = num_total f"
  by (simp_all add: clr_bit_def set_bit_f_def)

lemma set_bit_noop: "get_bit b f \<Longrightarrow> set_bit_f b f = f"
proof -
  assume "get_bit b f"
  then have "frame_bitmap f (b div 32) OR push_bit (b mod 32) 1 = frame_bitmap f (b div 32)"
    by (auto simp: get_bit_iff bit_eq_iff [where 'a = u32] bit_simps)
  then show ?thesis by (simp add: set_bit_f_def)
qed

text \<open>Every bitmap access stays inside the array: frame numbers of 32-bit addresses are small.\<close>

lemma frame_index_bound: "unat (a :: u32) div FRAME_SIZE div 32 < BITMAP_WORDS"
  using less_mult_imp_div_less [of "unat a" 1048576 4096]
    less_mult_imp_div_less [of "unat a div 4096" 32768 32]
  by (simp add: FRAME_SIZE_def BITMAP_WORDS_def)

section \<open>Regions\<close>

lemma get_free_body: "get_bit c (free_region_body i f) \<longleftrightarrow> get_bit c f \<and> (c \<noteq> i \<or> c = 0)"
  by (auto simp: free_region_body_def Let_def get_clr_bit)

lemma get_reserve_body: "get_bit c (reserve_region_body i f) \<longleftrightarrow> get_bit c f"
  by (simp add: reserve_region_body_def Let_def set_bit_noop)

lemma get_region_free:
  "get_bit c (region_loop free_region_body i lst f) \<longleftrightarrow> get_bit c f \<and> (c \<notin> {i..lst} \<or> c = 0)"
proof (induction free_region_body i lst f rule: region_loop.induct)
  case (1 i lst f)
  show ?case
    using 1 by (subst region_loop.simps) (auto simp: get_free_body)
qed

lemma get_region_reserve: "get_bit c (region_loop reserve_region_body i lst f) \<longleftrightarrow> get_bit c f"
proof (induction reserve_region_body i lst f rule: region_loop.induct)
  case (1 i lst f)
  show ?case
    using 1 by (subst region_loop.simps) (auto simp: get_reserve_body)
qed

text \<open>The frames a 32-bit address can name, without frame 0.\<close>

definition usable :: "nat set" where
  "usable = {b. 0 < b \<and> b < 2 ^ 20}"

lemma usable_iff: "b \<in> usable \<longleftrightarrow> 0 < b \<and> b < 2 ^ 20"
  by (simp add: usable_def)

lemma usable_finite [simp]: "finite usable"
  by (rule finite_subset [of _ "{..<2 ^ 20}"]) (auto simp: usable_def)

lemma usable_card: "card usable < 2 ^ 20"
proof -
  have "card usable = card {0<..<2 ^ 20 :: nat}" by (rule arg_cong [where f = card]) (auto simp: usable_def)
  also have "\<dots> < 2 ^ 20" by (simp only: card_greaterThanLessThan) simp
  finally show ?thesis .
qed

definition region_frames :: "u32 \<Rightarrow> u32 \<Rightarrow> nat set" where
  "region_frames a sz = {unat a div FRAME_SIZE .. unat (a + sz - 1) div FRAME_SIZE} - {0}"

lemma frame_number_bound: "unat (a :: u32) div FRAME_SIZE < 2 ^ 20"
  using less_mult_imp_div_less [of "unat a" 1048576 4096] by (simp add: FRAME_SIZE_def)

lemma region_frames_bound: "region_frames a sz \<subseteq> usable"
  using frame_number_bound [of "a + sz - 1"] by (auto simp: region_frames_def usable_iff)

lemma bitmap_holds_frames: "b < 2 ^ 20 \<Longrightarrow> b < 32 * BITMAP_WORDS"
  by (simp add: BITMAP_WORDS_def)

lemma free_set_free_region: "free_set (free_region a sz f) = free_set f \<union> region_frames a sz"
proof -
  have "b < 32 * BITMAP_WORDS" if "b \<in> region_frames a sz" for b
    using that region_frames_bound [of a sz] bitmap_holds_frames [of b] by (auto simp: usable_iff)
  then show ?thesis
    by (auto simp: free_set_def free_region_def get_region_free region_frames_def)
qed

lemma free_set_reserve_region: "free_set (reserve_region a sz f) = free_set f"
  by (simp add: free_set_def reserve_region_def get_region_reserve)

section \<open>The invariant\<close>

text \<open>
  Free frames are never frame 0 and lie in the 4 GiB address space; the counters agree with
  the bitmap.
\<close>

definition frames_inv :: "frames \<Rightarrow> bool" where
  "frames_inv f \<longleftrightarrow> free_set f \<subseteq> usable \<and> unat (num_free f) = card (free_set f)
     \<and> num_total f = num_free f + num_used f"

lemma free_set_finite [simp]: "finite (free_set f)"
  by (rule finite_subset [of _ "{..<32 * BITMAP_WORDS}"]) (auto simp: free_set_def)

lemma free_set_card: "free_set f \<subseteq> usable \<Longrightarrow> card (free_set f) < 2 ^ 20"
  using card_mono [of usable "free_set f"] usable_card by simp

lemma frames_inv_grow:
  assumes "frames_inv f" "free_set f' = insert b (free_set f)" "b \<notin> free_set f" "b \<in> usable"
    "num_free f' = num_free f + 1" "num_total f' = num_free f' + num_used f'"
  shows "frames_inv f'"
proof -
  have "unat (num_free f) < 2 ^ 20"
    using assms(1) free_set_card [of f] by (simp add: frames_inv_def)
  then show ?thesis
    using assms unat_succ32 [of "num_free f"] by (auto simp: frames_inv_def)
qed

lemma frames_inv_shrink:
  assumes "frames_inv f" "free_set f' = free_set f - {b}" "b \<in> free_set f"
    "num_free f' = num_free f - 1" "num_total f' = num_free f' + num_used f'"
  shows "frames_inv f'"
proof -
  have "0 < card (free_set f)" using assms(3) by (auto simp: card_gt_0_iff)
  then show ?thesis
    using assms unat_pred32 [of "num_free f"] by (auto simp: frames_inv_def)
qed

lemma free_set_clr: "b < 32 * BITMAP_WORDS \<Longrightarrow> free_set (clr_bit b f) = insert b (free_set f)"
  by (auto simp: free_set_def get_clr_bit)

lemma free_set_set: "free_set (set_bit_f b f) = free_set f - {b}"
  by (auto simp: free_set_def get_set_bit)

lemma free_set_counters [simp]:
  "free_set (f\<lparr>num_free := x\<rparr>) = free_set f" "free_set (f\<lparr>num_used := x\<rparr>) = free_set f"
  "free_set (f\<lparr>num_total := x\<rparr>) = free_set f"
  by (simp_all add: free_set_def)

lemma free_region_body_inv: "frames_inv f \<Longrightarrow> i < 2 ^ 20 \<Longrightarrow> frames_inv (free_region_body i f)"
proof (cases "i \<noteq> 0 \<and> get_bit i f")
  case True
  assume "frames_inv f" "i < 2 ^ 20"
  have e: "free_region_body i f = (clr_bit i f)\<lparr>num_free := num_free f + 1, num_total := num_total f + 1\<rparr>"
    using True by (simp add: free_region_body_def Let_def)
  show ?thesis
  proof (rule frames_inv_grow [OF \<open>frames_inv f\<close>, of _ i])
    show "free_set (free_region_body i f) = insert i (free_set f)"
      using \<open>i < 2 ^ 20\<close> by (simp only: e free_set_counters free_set_clr bitmap_holds_frames)
    show "i \<notin> free_set f" using True by (simp add: free_set_def)
    show "i \<in> usable" using True \<open>i < 2 ^ 20\<close> by (simp add: usable_iff)
    show "num_free (free_region_body i f) = num_free f + 1" by (simp add: e)
    show "num_total (free_region_body i f) = num_free (free_region_body i f) + num_used (free_region_body i f)"
      using \<open>frames_inv f\<close> by (simp add: e frames_inv_def)
  qed
qed (auto simp: free_region_body_def)

lemma region_loop_inv:
  assumes "\<And>i f. i \<le> lst \<Longrightarrow> P f \<Longrightarrow> P (body i f)" "P f"
  shows "P (region_loop body i lst f)"
  using assms
proof (induction body i lst f rule: region_loop.induct)
  case (1 body i lst f)
  then show ?case by (subst region_loop.simps) auto
qed

lemma free_region_inv: "frames_inv f \<Longrightarrow> frames_inv (free_region a sz f)"
  using frame_number_bound [of "a + sz - 1"] unfolding free_region_def
  by (intro region_loop_inv [where P = frames_inv]) (auto intro: free_region_body_inv)

text \<open>
  \<open>reserve_region\<close> keeps the invariant only where it does nothing: on frames that are free.
\<close>

lemma reserve_region_noop:
  assumes "region_frames a sz \<subseteq> free_set f" "FRAME_SIZE \<le> unat a"
  shows "reserve_region a sz f = f"
proof -
  have "\<not> get_bit i f" if "i \<in> {unat a div FRAME_SIZE .. unat (a + sz - 1) div FRAME_SIZE}" for i
    using that assms by (auto simp: region_frames_def free_set_def FRAME_SIZE_def subset_iff)
  then have "i \<ge> unat a div FRAME_SIZE \<Longrightarrow>
      region_loop reserve_region_body i (unat (a + sz - 1) div FRAME_SIZE) f = f" for i
  proof (induction "Suc (unat (a + sz - 1) div FRAME_SIZE) - i" arbitrary: i)
    case 0
    then show ?case by (subst region_loop.simps) auto
  next
    case (Suc n)
    then show ?case by (subst region_loop.simps) (auto simp: reserve_region_body_def)
  qed
  then show ?thesis by (simp add: reserve_region_def)
qed

section \<open>Allocation and release\<close>

text \<open>The result of a search of the frames from \<open>lo\<close> up to \<open>hi\<close> for the first free one.\<close>

definition first_clear :: "frames \<Rightarrow> nat \<Rightarrow> nat \<Rightarrow> nat option \<Rightarrow> bool" where
  "first_clear f lo hi r \<longleftrightarrow>
     (case r of None \<Rightarrow> \<forall>c. lo \<le> c \<and> c < hi \<longrightarrow> get_bit c f
      | Some b \<Rightarrow> lo \<le> b \<and> b < hi \<and> \<not> get_bit b f \<and> (\<forall>c. lo \<le> c \<and> c < b \<longrightarrow> get_bit c f))"

lemma first_clear_skip:
  assumes "first_clear f mid hi r" "\<And>c. lo \<le> c \<Longrightarrow> c < mid \<Longrightarrow> get_bit c f" "lo \<le> mid"
  shows "first_clear f lo hi r"
  using assms unfolding first_clear_def by (cases r) (simp_all, meson not_le, meson not_le order_trans)

lemma first_clear_extend:
  assumes "first_clear f lo mid (Some b)" "mid \<le> hi"
  shows "first_clear f lo hi (Some b)"
  using assms by (simp add: first_clear_def)

lemma alloc_bit_first: "first_clear f (i * 32 + j) (i * 32 + 32) (alloc_bit i j f)"
proof (induction i j f rule: alloc_bit.induct)
  case (1 i j f)
  show ?case
  proof (cases "j < 32 \<and> get_bit (i * 32 + j) f")
    case True
    then have "first_clear f (i * 32 + Suc j) (i * 32 + 32) (alloc_bit i (Suc j) f)" using 1 by simp
    then have "first_clear f (i * 32 + j) (i * 32 + 32) (alloc_bit i (Suc j) f)"
    proof (rule first_clear_skip)
      show "get_bit c f" if "i * 32 + j \<le> c" "c < i * 32 + Suc j" for c
      proof -
        have "c = i * 32 + j" using that by linarith
        with True show ?thesis by simp
      qed
    qed simp
    then show ?thesis using True by (subst alloc_bit.simps) simp
  next
    case False
    then show ?thesis by (subst alloc_bit.simps) (auto simp: first_clear_def)
  qed
qed

lemma full_word: "frame_bitmap f i = 0xFFFFFFFF \<Longrightarrow> i * 32 \<le> c \<Longrightarrow> c < i * 32 + 32 \<Longrightarrow> get_bit c f"
proof -
  assume a: "frame_bitmap f i = 0xFFFFFFFF" "i * 32 \<le> c" "c < i * 32 + 32"
  then have "c div 32 = i" by (metis add.commute div_nat_eqI mult.commute mult_Suc_right)
  moreover have "frame_bitmap f i = - 1" unfolding a(1) by (rule sym) simp
  ultimately show ?thesis by (simp add: get_bit_iff)
qed

lemma alloc_word_first: "i \<le> BITMAP_WORDS \<Longrightarrow> first_clear f (i * 32) (BITMAP_WORDS * 32) (alloc_word i f)"
proof (induction i f rule: alloc_word.induct)
  case (1 i f)
  show ?case
  proof (cases "i < BITMAP_WORDS")
    case True
    then have hi: "i * 32 + 32 \<le> BITMAP_WORDS * 32" by simp
    let ?later = "first_clear f (i * 32 + 32) (BITMAP_WORDS * 32) (alloc_word (Suc i) f)"
    note found = alloc_bit_first [of f i 0]
    show ?thesis
    proof (cases "frame_bitmap f i = 0xFFFFFFFF")
      case full: True
      have ?later using 1(2) full True by (simp add: add.commute)
      then have "first_clear f (i * 32) (BITMAP_WORDS * 32) (alloc_word (Suc i) f)"
        by (rule first_clear_skip) (auto intro: full_word [OF full])
      then show ?thesis using True full by (subst alloc_word.simps) simp
    next
      case part: False
      show ?thesis
      proof (cases "alloc_bit i 0 f")
        case None
        have ?later using 1(1) part True None by (simp add: add.commute)
        then have "first_clear f (i * 32) (BITMAP_WORDS * 32) (alloc_word (Suc i) f)"
          using found None by (rule_tac first_clear_skip) (auto simp: first_clear_def)
        then show ?thesis using True part None by (subst alloc_word.simps) simp
      next
        case (Some b)
        then have "first_clear f (i * 32) (BITMAP_WORDS * 32) (Some b)"
          using found first_clear_extend [OF _ hi] by simp
        then show ?thesis using True part Some by (subst alloc_word.simps) simp
      qed
    qed
  next
    case False
    then have "alloc_word i f = None" "i = BITMAP_WORDS" using 1(3) by (simp_all add: alloc_word.simps)
    then show ?thesis unfolding first_clear_def by auto
  qed
qed

lemma alloc_word_Min:
  "alloc_word 0 f = (if free_set f = {} then None else Some (Min (free_set f)))"
proof (cases "alloc_word 0 f")
  case None
  then show ?thesis
    using alloc_word_first [of 0 f] by (simp add: first_clear_def free_set_def mult.commute)
next
  case (Some b)
  then have b: "b \<in> free_set f" "\<And>c. c \<in> free_set f \<Longrightarrow> b \<le> c"
    using alloc_word_first [of 0 f] by (auto simp: first_clear_def free_set_def mult.commute not_le [symmetric])
  then have "Min (free_set f) = b" by (intro Min_eqI) auto
  with Some b show ?thesis by auto
qed

lemma alloc_frame_eq:
  "alloc_frame f =
     (if free_set f = {} then (0, f)
      else let b = Min (free_set f) in
        (of_nat (b * FRAME_SIZE), (set_bit_f b f)\<lparr>num_used := num_used f + 1, num_free := num_free f - 1\<rparr>))"
  by (simp add: alloc_frame_def alloc_word_Min Let_def set_bit_f_def)

lemma frame_addr:
  assumes "b \<in> usable"
  shows "unat (of_nat (b * FRAME_SIZE) :: u32) = b * FRAME_SIZE"
    "unat (of_nat (b * FRAME_SIZE) :: u32) div FRAME_SIZE = b"
  using assms unat_of_nat32 [of "b * FRAME_SIZE"] by (simp_all add: usable_iff FRAME_SIZE_def)

lemma clr_set_bit: "\<not> get_bit b f \<Longrightarrow> clr_bit b (set_bit_f b f) = f"
proof -
  assume "\<not> get_bit b f"
  then have "(frame_bitmap f (b div 32) OR push_bit (b mod 32) 1) AND NOT (push_bit (b mod 32) 1) = frame_bitmap f (b div 32)"
    by (auto simp: get_bit_iff bit_eq_iff [where 'a = u32] bit_simps)
  then show ?thesis by (simp add: set_bit_f_def clr_bit_def)
qed

lemma alloc_frame_inv:
  assumes "frames_inv f" "free_set f \<noteq> {}"
  defines "b \<equiv> Min (free_set f)"
  shows "free_set (snd (alloc_frame f)) = free_set f - {b}" "frames_inv (snd (alloc_frame f))"
    "b \<in> free_set f" "b \<in> usable" "fst (alloc_frame f) = of_nat (b * FRAME_SIZE)"
proof -
  show b: "b \<in> free_set f" using assms by (simp add: b_def)
  show "b \<in> usable" using b assms(1) by (auto simp: frames_inv_def)
  show fs: "free_set (snd (alloc_frame f)) = free_set f - {b}"
    using assms by (simp add: alloc_frame_eq Let_def free_set_set)
  show "fst (alloc_frame f) = of_nat (b * FRAME_SIZE)"
    using assms by (simp add: alloc_frame_eq Let_def)
  show "frames_inv (snd (alloc_frame f))"
    using assms(1) fs b
  proof (rule frames_inv_shrink)
    show "num_free (snd (alloc_frame f)) = num_free f - 1"
      using assms(2) by (simp add: alloc_frame_eq Let_def)
    have "num_used (snd (alloc_frame f)) = num_used f + 1" "num_total (snd (alloc_frame f)) = num_total f"
      using assms(2) by (simp_all add: alloc_frame_eq Let_def)
    then show "num_total (snd (alloc_frame f)) = num_free (snd (alloc_frame f)) + num_used (snd (alloc_frame f))"
      using assms(1,2) by (simp add: alloc_frame_eq Let_def frames_inv_def)
  qed
qed

lemma free_frame_inv: "frames_inv f \<Longrightarrow> frames_inv (free_frame a f)"
proof (cases "unat a div FRAME_SIZE \<noteq> 0 \<and> get_bit (unat a div FRAME_SIZE) f")
  case True
  assume inv: "frames_inv f"
  let ?b = "unat a div FRAME_SIZE"
  have e: "free_frame a f = (clr_bit ?b f)\<lparr>num_used := num_used f - 1, num_free := num_free f + 1\<rparr>"
    using True by (simp add: free_frame_def Let_def)
  show ?thesis
  proof (rule frames_inv_grow [OF inv, of _ ?b])
    show "free_set (free_frame a f) = insert ?b (free_set f)"
      using frame_number_bound [of a] by (simp only: e free_set_counters free_set_clr bitmap_holds_frames)
    show "?b \<notin> free_set f" using True by (simp add: free_set_def)
    show "?b \<in> usable" using True frame_number_bound [of a] by (simp add: usable_iff)
    show "num_free (free_frame a f) = num_free f + 1" by (simp add: e)
    show "num_total (free_frame a f) = num_free (free_frame a f) + num_used (free_frame a f)"
      using inv by (simp add: e frames_inv_def)
  qed
qed (auto simp: free_frame_def)

lemma free_set_free_frame:
  "free_set (free_frame a f) = free_set f \<union> ({unat a div FRAME_SIZE} - {0})"
proof -
  have "unat a div FRAME_SIZE < 32 * BITMAP_WORDS"
    using frame_number_bound [of a] by (rule bitmap_holds_frames)
  then show ?thesis by (auto simp: free_frame_def Let_def free_set_clr) (auto simp: free_set_def)
qed

section \<open>The pool of frames as an interface\<close>

text \<open>
  What a client of the frame allocator relies on: a successful allocation hands out a member
  of the pool and removes it, and it succeeds as long as the pool is not empty.
\<close>

primrec takes :: "('s \<Rightarrow> 'k option \<times> 's) \<Rightarrow> nat \<Rightarrow> 's \<Rightarrow> 'k option list \<times> 's" where
  "takes tk 0 s = ([], s)"
| "takes tk (Suc n) s = (let (k, s) = tk s; (ks, s) = takes tk n s in (k # ks, s))"

locale pool =
  fixes wf :: "'s \<Rightarrow> bool" and avail :: "'s \<Rightarrow> 'k set" and take :: "'s \<Rightarrow> 'k option \<times> 's"
  assumes take_some: "wf s \<Longrightarrow> avail s \<noteq> {} \<Longrightarrow>
      \<exists>k s'. take s = (Some k, s') \<and> k \<in> avail s \<and> avail s' = avail s - {k} \<and> wf s'"
    and avail_finite: "wf s \<Longrightarrow> finite (avail s)"
begin

lemma takes_distinct:
  "wf s \<Longrightarrow> n \<le> card (avail s) \<Longrightarrow>
     \<exists>ks s'. takes take n s = (map Some ks, s') \<and> distinct ks \<and> length ks = n \<and> set ks \<subseteq> avail s
       \<and> avail s' = avail s - set ks \<and> wf s'"
proof (induction n arbitrary: s)
  case (Suc n)
  then have "avail s \<noteq> {}" by auto
  then obtain k s1 where k: "take s = (Some k, s1)" "k \<in> avail s" "avail s1 = avail s - {k}" "wf s1"
    using take_some Suc.prems by blast
  moreover have "n \<le> card (avail s1)"
    using Suc.prems k avail_finite [of s] by (simp add: card_Diff_singleton)
  ultimately obtain ks s' where "takes take n s1 = (map Some ks, s')" "distinct ks" "length ks = n"
      "set ks \<subseteq> avail s1" "avail s' = avail s1 - set ks" "wf s'"
    using Suc.IH by blast
  with k show ?case by (intro exI [of _ "k # ks"] exI [of _ s']) auto
qed simp

end

text \<open>The address 0 is how \<open>alloc_frame\<close> reports that nothing is left.\<close>

definition take_frame :: "frames \<Rightarrow> nat option \<times> frames" where
  "take_frame f = (let (a, f') = alloc_frame f in (if a = 0 then None else Some (unat a div FRAME_SIZE), f'))"

interpretation fp: pool frames_inv free_set take_frame
proof
  fix f :: frames
  assume f: "frames_inv f" "free_set f \<noteq> {}"
  let ?b = "Min (free_set f)"
  note a = alloc_frame_inv [OF f]
  have "fst (alloc_frame f) \<noteq> 0"
    using frame_addr(1) [OF a(4)] a(4,5) by (auto simp: usable_iff FRAME_SIZE_def)
  then have "take_frame f = (Some ?b, snd (alloc_frame f))"
    using frame_addr(2) [OF a(4)] a(5) by (simp add: take_frame_def case_prod_beta)
  with a show "\<exists>k s'. take_frame f = (Some k, s') \<and> k \<in> free_set f \<and> free_set s' = free_set f - {k} \<and> frames_inv s'"
    by blast
qed simp

section \<open>Initialisation\<close>

text \<open>The entries of a memory map, laid out one after the other from \<open>p\<close> up to \<open>endp\<close>.\<close>

fun mmap_at :: "(addr \<Rightarrow> multiboot_mmap_entry) \<Rightarrow> addr \<Rightarrow> multiboot_mmap_entry list \<Rightarrow> addr \<Rightarrow> bool" where
  "mmap_at mm p [] endp \<longleftrightarrow> endp \<le> p"
| "mmap_at mm p (e # es) endp \<longleftrightarrow> p < endp \<and> mm p = e \<and> mmap_at mm (p + mm_size e + 4) es endp"

definition entry_frames :: "multiboot_mmap_entry \<Rightarrow> nat set" where
  "entry_frames e =
     (if mm_type e = MULTIBOOT_MEMORY_AVAILABLE
      then region_frames (ucast (mm_addr e)) (ucast (mm_addr e + mm_len e - 1)) else {})"

definition empty_counters :: "frames \<Rightarrow> bool" where
  "empty_counters f \<longleftrightarrow> num_total f = 0 \<and> num_free f = 0 \<and> num_used f = 0"

lemma mmap_loop_spec:
  "mmap_at mm p es endp \<Longrightarrow>
     \<exists>f'. mmap_loop mm p endp f = Some f' \<and> free_set f' = free_set f \<union> \<Union> (entry_frames ` set es)
       \<and> (frames_inv f \<longrightarrow> frames_inv f')"
proof (induction es arbitrary: p f)
  case Nil
  then show ?case by (subst mmap_loop.simps) (simp add: not_less [symmetric])
next
  case (Cons e es)
  let ?f = "if mm_type e = MULTIBOOT_MEMORY_AVAILABLE
    then free_region (ucast (mm_addr e)) (ucast (mm_addr e + mm_len e - 1)) f else f"
  have "free_set ?f = free_set f \<union> entry_frames e" "frames_inv f \<longrightarrow> frames_inv ?f"
    by (simp_all add: free_set_free_region free_region_inv entry_frames_def)
  moreover have "mmap_loop mm p endp f = mmap_loop mm (p + mm_size e + 4) endp ?f"
    using Cons.prems by (subst mmap_loop.simps) (simp add: Let_def)
  moreover obtain f' where "mmap_loop mm (p + mm_size e + 4) endp ?f = Some f'"
      "free_set f' = free_set ?f \<union> \<Union> (entry_frames ` set es)" "frames_inv ?f \<longrightarrow> frames_inv f'"
    using Cons.IH [of "p + mm_size e + 4" ?f] Cons.prems by auto
  ultimately show ?case by auto
qed

definition full_frames :: "frames \<Rightarrow> frames" where
  "full_frames f = f\<lparr>frame_bitmap := (\<lambda>i. if i < BITMAP_WORDS then 0xFFFFFFFF else frame_bitmap f i)\<rparr>"

lemma free_set_full [simp]: "free_set (full_frames f) = {}"
proof -
  have "get_bit b (full_frames f)" if "b < 32 * BITMAP_WORDS" for b
  proof (rule full_word)
    show "frame_bitmap (full_frames f) (b div 32) = 0xFFFFFFFF"
      using that less_mult_imp_div_less [of b BITMAP_WORDS 32] by (simp add: full_frames_def mult.commute)
  qed (simp_all add: dividend_less_div_times add.commute)
  then show ?thesis by (auto simp: free_set_def)
qed

lemma full_frames_inv: "empty_counters f \<Longrightarrow> frames_inv (full_frames f)"
  by (simp add: frames_inv_def) (simp add: full_frames_def empty_counters_def)

lemma frame_init_spec:
  assumes "mmap_at mm (mmap_addr mbt) es (mmap_addr mbt + mmap_length mbt)"
  shows "\<exists>f'. frame_init mm mbt f = Some f' \<and> free_set f' = \<Union> (entry_frames ` set es)
     \<and> (empty_counters f \<and> region_frames KERNEL_PMA KERNEL_SIZE \<subseteq> free_set f' \<longrightarrow> frames_inv f')"
proof -
  obtain g where g: "mmap_loop mm (mmap_addr mbt) (mmap_addr mbt + mmap_length mbt) (full_frames f) = Some g"
      "free_set g = \<Union> (entry_frames ` set es)" "frames_inv (full_frames f) \<longrightarrow> frames_inv g"
    using mmap_loop_spec [OF assms, of "full_frames f"] by auto
  have "frame_init mm mbt f = Some (reserve_region KERNEL_PMA KERNEL_SIZE g)"
    using g(1) by (simp add: frame_init_def full_frames_def)
  moreover have "FRAME_SIZE \<le> unat KERNEL_PMA" by (simp add: FRAME_SIZE_def KERNEL_PMA_def)
  ultimately show ?thesis
    using g(2,3) full_frames_inv [of f] reserve_region_noop [of KERNEL_PMA KERNEL_SIZE g]
      free_set_reserve_region [of KERNEL_PMA KERNEL_SIZE g] by auto
qed

section \<open>A concrete machine\<close>

text \<open>A machine whose memory map has one available region, the bytes from 1 MiB up to 128 MiB.\<close>

definition frames0 :: frames where
  "frames0 = \<lparr>frame_bitmap = \<lambda>_. 0, num_total = 0, num_free = 0, num_used = 0\<rparr>"

definition ram_entry :: multiboot_mmap_entry where
  "ram_entry = \<lparr>mm_size = 20, mm_addr = 0x100000, mm_len = 0x7F00000, mm_type = 1\<rparr>"

definition mbt0 :: multiboot_info where
  "mbt0 = \<lparr>mbi_flags = 0x40, mmap_length = 24, mmap_addr = 0x9000\<rparr>"

lemma mbt0_map: "mmap_at (\<lambda>_. ram_entry) (mmap_addr mbt0) [ram_entry] (mmap_addr mbt0 + mmap_length mbt0)"
  by (simp add: mbt0_def ram_entry_def)

lemma ram_entry_frames: "entry_frames ram_entry = {256..33023}"
  by (simp add: entry_frames_def ram_entry_def MULTIBOOT_MEMORY_AVAILABLE_def region_frames_def FRAME_SIZE_def
    Diff_triv del: atLeastAtMost_insertL)

lemma ram_frames: "\<exists>f. frame_init (\<lambda>_. ram_entry) mbt0 frames0 = Some f \<and> free_set f = entry_frames ram_entry \<and> frames_inv f"
proof -
  have "region_frames KERNEL_PMA KERNEL_SIZE \<subseteq> entry_frames ram_entry"
    unfolding ram_entry_frames by (auto simp: region_frames_def KERNEL_PMA_def KERNEL_SIZE_def FRAME_SIZE_def)
  moreover have "empty_counters frames0" by (simp add: empty_counters_def frames0_def)
  ultimately show ?thesis
    using frame_init_spec [OF mbt0_map, of frames0] by auto
qed

lemma ram_machine:
  obtains f where "frame_init (\<lambda>_. ram_entry) mbt0 frames0 = Some f" "frames_inv f" "free_set f \<noteq> {}"
    "Min (free_set f) = 256" "32768 \<in> free_set f" "card (free_set f) = 32768"
proof -
  have "Min (entry_frames ram_entry) = 256" unfolding ram_entry_frames by (intro Min_eqI) auto
  moreover have "32768 \<in> entry_frames ram_entry" unfolding ram_entry_frames by (simp only: atLeastAtMost_iff) simp
  moreover have "card (entry_frames ram_entry) = 32768" unfolding ram_entry_frames card_atLeastAtMost by simp
  ultimately show ?thesis using that ram_frames by (metis empty_iff)
qed

section \<open>Properties\<close>

text \<open>C10. In a consistent state \<open>alloc_frame\<close> hands out the lowest free frame: it returns that
  frame's address, which is page aligned and not 0, marks exactly that frame used and keeps the
  counters in step with the bitmap. With no free frame it returns 0 and changes nothing.\<close>

theorem alloc_frame_lowest:
  assumes "frames_inv f" "alloc_frame f = (a, f')"
  shows "if free_set f = {} then a = 0 \<and> f' = f
    else a \<noteq> 0 \<and> unat a = FRAME_SIZE * Min (free_set f) \<and> free_set f' = free_set f - {Min (free_set f)}
      \<and> frames_inv f' \<and> num_free_frames f' = num_free_frames f - 1 \<and> num_used_frames f' = num_used_frames f + 1
      \<and> num_total_frames f' = num_total_frames f"
proof (cases "free_set f = {}")
  case False
  note p = alloc_frame_inv [OF assms(1) False]
  have a: "unat a = FRAME_SIZE * Min (free_set f)" using p(5) frame_addr(1) [OF p(4)] assms(2) by simp
  then have "a \<noteq> 0" using p(4) by (auto simp: usable_iff FRAME_SIZE_def)
  moreover have "num_free f' = num_free f - 1" "num_used f' = num_used f + 1" "num_total f' = num_total f"
    using assms(2) False by (auto simp: alloc_frame_eq Let_def)
  ultimately show ?thesis
    using a p(1,2) assms(2) False by (simp add: num_free_frames_def num_used_frames_def num_total_frames_def)
qed (use assms in \<open>simp add: alloc_frame_eq\<close>)

theorem alloc_frame_lowest_witness:
  "\<exists>f a f'. frame_init (\<lambda>_. ram_entry) mbt0 frames0 = Some f \<and> alloc_frame f = (a, f') \<and> unat a = 0x100000 \<and> frames_inv f'"
proof -
  obtain f where f: "frame_init (\<lambda>_. ram_entry) mbt0 frames0 = Some f" "frames_inv f" "free_set f \<noteq> {}"
    "Min (free_set f) = 256" "32768 \<in> free_set f" by (rule ram_machine)
  obtain a f' where a: "alloc_frame f = (a, f')" by (cases "alloc_frame f")
  show ?thesis
    using alloc_frame_lowest [OF f(2) a] f(1,3,4) a
    by (intro exI [of _ f] exI [of _ a] exI [of _ f']) (simp add: FRAME_SIZE_def)
qed

text \<open>Releasing the frame just allocated restores the allocator exactly: bitmap and counters.\<close>

theorem alloc_free_frame_roundtrip:
  assumes "frames_inv f" "alloc_frame f = (a, f')" "a \<noteq> 0"
  shows "free_frame a f' = f"
proof -
  have ne: "free_set f \<noteq> {}" using assms(2,3) by (auto simp: alloc_frame_eq)
  note p = alloc_frame_inv [OF assms(1) ne]
  let ?b = "Min (free_set f)"
  have a: "unat a div FRAME_SIZE = ?b" using frame_addr(2) [OF p(4)] p(5) assms(2) by simp
  have f': "f' = (set_bit_f ?b f)\<lparr>num_used := num_used f + 1, num_free := num_free f - 1\<rparr>"
    using assms(2) ne by (simp add: alloc_frame_eq Let_def)
  have "clr_bit ?b f' = (clr_bit ?b (set_bit_f ?b f))\<lparr>num_used := num_used f + 1, num_free := num_free f - 1\<rparr>"
    by (simp add: f' clr_bit_def)
  moreover have "\<not> get_bit ?b f" "?b \<noteq> 0" using p(3,4) by (auto simp: free_set_def usable_iff)
  ultimately show ?thesis
    using a by (simp add: free_frame_def Let_def clr_set_bit f' get_set_bit)
qed

theorem alloc_free_frame_roundtrip_witness:
  "\<exists>f a f'. frame_init (\<lambda>_. ram_entry) mbt0 frames0 = Some f \<and> alloc_frame f = (a, f') \<and> free_frame a f' = f"
proof -
  obtain f where f: "frame_init (\<lambda>_. ram_entry) mbt0 frames0 = Some f" "frames_inv f" "free_set f \<noteq> {}"
    "Min (free_set f) = 256" "32768 \<in> free_set f" by (rule ram_machine)
  obtain a f' where a: "alloc_frame f = (a, f')" by (cases "alloc_frame f")
  have "a = 0x100000" using alloc_frame_inv(5) [OF f(2,3)] f(4) a by (simp add: FRAME_SIZE_def)
  then show ?thesis using alloc_free_frame_roundtrip [OF f(2) a] f(1) a by auto
qed

text \<open>As many successive calls of \<open>alloc_frame\<close> as there are free frames all succeed and
  hand out pairwise different frames.\<close>

theorem alloc_frames_distinct:
  assumes "frames_inv f" "n \<le> card (free_set f)"
  shows "\<exists>ks f'. takes take_frame n f = (map Some ks, f') \<and> distinct ks \<and> length ks = n
    \<and> set ks \<subseteq> free_set f \<and> free_set f' = free_set f - set ks \<and> frames_inv f'"
  using assms by (rule fp.takes_distinct)

theorem alloc_frames_distinct_witness:
  "\<exists>f ks f'. takes take_frame 1000 f = (map Some ks, f') \<and> distinct ks \<and> length ks = 1000 \<and> frames_inv f'"
proof -
  obtain f where f: "frames_inv f" "card (free_set f) = 32768" using ram_machine by metis
  show ?thesis using alloc_frames_distinct [OF f(1), of 1000] f(2) by auto
qed

text \<open>\<open>free_frame\<close> frees the frame an address lies in unless that is frame 0, frees nothing
  else, and keeps the allocator consistent whatever address it is given.\<close>

theorem free_frame_spec:
  assumes "frames_inv f"
  shows "free_set (free_frame a f) = free_set f \<union> ({unat a div FRAME_SIZE} - {0}) \<and> frames_inv (free_frame a f)"
  using assms by (simp add: free_set_free_frame free_frame_inv)

theorem free_frame_spec_witness:
  "\<exists>f. frames_inv f \<and> free_set (free_frame 0x1234 f) = insert 1 (free_set f) \<and> frames_inv (free_frame 0x1234 f)"
proof -
  obtain f where f: "frames_inv f" using ram_frames by blast
  show ?thesis
    using free_frame_spec [OF f, where a = "0x1234"] f by (intro exI [of _ f]) (simp add: FRAME_SIZE_def)
qed

text \<open>\<open>frame_init\<close> ends on every well-formed memory map, and afterwards the free frames are
  exactly those of the ranges it passes to \<open>free_region\<close> for the available entries, frame 0
  excepted; the reservation of the kernel's frames takes none of them away. The allocator is
  consistent when the kernel's frames are among the available ones.\<close>

theorem frame_init_free_frames:
  assumes "mmap_at mm (mmap_addr mbt) es (mmap_addr mbt + mmap_length mbt)"
  shows "\<exists>f'. frame_init mm mbt f = Some f' \<and> free_set f' = \<Union> (entry_frames ` set es)
     \<and> (empty_counters f \<and> region_frames KERNEL_PMA KERNEL_SIZE \<subseteq> free_set f' \<longrightarrow> frames_inv f')"
  using assms by (rule frame_init_spec)

theorem frame_init_free_frames_witness:
  "\<exists>f'. frame_init (\<lambda>_. ram_entry) mbt0 frames0 = Some f' \<and> free_set f' = entry_frames ram_entry"
  using frame_init_free_frames [OF mbt0_map, of frames0] by auto

text \<open>On a machine with memory from 1 MiB up to 128 MiB the first frame handed out is the one
  that holds the start of the kernel image, and frames past the end of memory count as free:
  \<open>reserve_region\<close> tests the wrong polarity and \<open>frame_init\<close> passes an end address as a length.\<close>

theorem frame_init_gives_away_kernel:
  "\<exists>f. frame_init (\<lambda>_. ram_entry) mbt0 frames0 = Some f \<and> fst (alloc_frame f) = KERNEL_PMA
     \<and> unat (mm_addr ram_entry + mm_len ram_entry) div FRAME_SIZE \<in> free_set f"
proof -
  obtain f where f: "frame_init (\<lambda>_. ram_entry) mbt0 frames0 = Some f" "frames_inv f" "free_set f \<noteq> {}"
    "Min (free_set f) = 256" "32768 \<in> free_set f" by (rule ram_machine)
  have "fst (alloc_frame f) = KERNEL_PMA"
    using alloc_frame_inv(5) [OF f(2,3)] f(4) by (simp add: FRAME_SIZE_def KERNEL_PMA_def)
  with f(1,5) show ?thesis by (simp add: ram_entry_def FRAME_SIZE_def)
qed

end
