(* ===== verification/Mm.thy ===== *)
theory Mm
  imports Kalloc_Spec Frames
begin

text \<open>
  Memory management as a whole: \<open>mm_init\<close> and \<open>memory_print_info\<close> of \<open>arch/i386/mm.c\<close>, which
  set up the frame allocator, paging and the kernel heap in that order, and the two functions of
  \<open>arch/i386/paging.c\<close> that are only begun, \<open>clone_pd\<close> and \<open>map_phys\<close>.
\<close>

record memory =
  m_frames :: frames
  m_paging :: paging
  m_heap :: heap

definition MULTIBOOT_INFO_MEM_MAP :: u32 where "MULTIBOOT_INFO_MEM_MAP = 0x40"

text \<open>
  \<open>kpd\<close> is the address of the static directory \<open>_kernel_pd\<close>, \<open>kend\<close> that of the linker's
  \<open>KERNEL_END\<close>, \<open>isr_failed\<close> the outcome of the registration of the page fault handler.
\<close>

definition mm_init ::
    "(addr \<Rightarrow> multiboot_mmap_entry) \<Rightarrow> addr \<Rightarrow> addr \<Rightarrow> bool \<Rightarrow> multiboot_info \<Rightarrow> memory \<Rightarrow> memory result option" where
  "mm_init mm kpd kend isr_failed mbt m =
     (if mbi_flags mbt AND MULTIBOOT_INFO_MEM_MAP = 0
      then Some (Inl (Panic ''no memory map available in multiboot info structure''))
      else case frame_init mm mbt (m_frames m) of
          None \<Rightarrow> None
        | Some f \<Rightarrow> Some (rbind (paging_init kpd isr_failed (m_paging m)) (\<lambda>g.
            Inr (m\<lparr>m_frames := f, m_paging := g,
                   m_heap := kheap_init kend (KERNEL_VMA + KERNEL_PMA + KERNEL_SIZE - kend) (m_heap m)\<rparr>))))"

text \<open>The three numbers \<open>memory_print_info\<close> prints, in KiB.\<close>

definition memory_print_info :: "memory \<Rightarrow> u32 \<times> u32 \<times> u32" where
  "memory_print_info m =
     (4 * num_total_frames (m_frames m), 4 * num_free_frames (m_frames m), 4 * num_used_frames (m_frames m))"

text \<open>\<open>sizeof(page_directory_t)\<close>: two arrays of 1024 words and the physical address.\<close>

definition SIZEOF_PD :: u32 where "SIZEOF_PD = 8196"

definition clone_pd :: "memory \<Rightarrow> addr \<Rightarrow> (addr \<times> memory) result option" where
  "clone_pd m pd =
     map_option (\<lambda>r. rbind r (\<lambda>(new_pd, paddr, h).
        if new_pd = 0 then Inr (0, m\<lparr>m_heap := h\<rparr>)
        else let g = m_paging m;
                 g = g\<lparr>pds := upd_at (\<lambda>d. d\<lparr>pd_phys := the paddr\<rparr>) new_pd (pds g)\<rparr>
             in Inr (pd, m\<lparr>m_heap := h, m_paging := g\<rparr>)))
       (kmalloc_ap (m_paging m) (m_heap m) SIZEOF_PD True)"

definition map_phys :: "u32 \<Rightarrow> u32 \<Rightarrow> addr" where
  "map_phys phys sz = 0"

section \<open>Properties\<close>

lemma kernel_window_end: "KERNEL_VMA + KERNEL_PMA + KERNEL_SIZE = 0xC0400000"
  by (simp add: paging_consts)

lemma heap_size:
  assumes "unat kend \<le> 0xC0400000"
  shows "unat (KERNEL_VMA + KERNEL_PMA + KERNEL_SIZE - kend) = 0xC0400000 - unat kend"
  using assms unat_sub32 [of kend "0xC0400000"] by (simp add: kernel_window_end)

lemma mm_init_steps:
  assumes "mbi_flags mbt AND MULTIBOOT_INFO_MEM_MAP \<noteq> 0" "kpd \<noteq> 0"
    "mmap_at mm (mmap_addr mbt) es (mmap_addr mbt + mmap_length mbt)"
    "0xC0000000 \<le> unat kend" "unat kend + 20 \<le> 0xC0400000"
  shows "\<exists>m'. mm_init mm kpd kend False mbt m = Some (Inr m') \<and> paging_init kpd False (m_paging m) = Inr (m_paging m')
    \<and> free_set (m_frames m') = \<Union> (entry_frames ` set es)
    \<and> heap_inv (unat kend) 0xC0400000 (m_heap m') [(kend, 0xC0400000 - kend, False)]"
proof -
  obtain f where f: "frame_init mm mbt (m_frames m) = Some f" "free_set f = \<Union> (entry_frames ` set es)"
    using frame_init_spec [OF assms(3)] by blast
  obtain g where g: "paging_init kpd False (m_paging m) = Inr g" using paging_init_pd [OF assms(2)] by blast
  have sz: "unat (0xC0400000 - kend) = 0xC0400000 - unat kend"
    using heap_size [of kend] assms(5) by (simp add: kernel_window_end)
  then have "heap_inv (unat kend) 0xC0400000 (kheap_init kend (0xC0400000 - kend) (m_heap m)) [(kend, 0xC0400000 - kend, False)]"
    using kheap_init_inv [of kend "0xC0400000 - kend" "m_heap m"] assms(4,5) by simp
  then show ?thesis
    using f g assms(1) by (simp add: mm_init_def kernel_window_end)
qed

lemma live_window:
  assumes "heap_inv lo hi s bs" "req_ok sz" "kmalloc s sz = Some (Inr (p, s'))" "p \<noteq> 0" "i < unat sz"
  shows "lo \<le> unat (p + of_nat i) \<and> unat (p + of_nat i) < hi"
proof -
  obtain a bs' where ff: "first_fit (round_size sz) bs = Some (a, bs')" "p = a + HDR" "heap_inv lo hi s' bs'"
    using kmalloc_plain [OF assms(1,2)] assms(3,4) by (auto split: option.splits)
  obtain n where n: "(a, n, False) \<in> set bs" "unat (round_size sz) + 20 \<le> unat n"
    using first_fit_Some [OF ff(1)] by (metis in_set_conv_decomp)
  have a: "lo \<le> unat a" "unat a + unat n \<le> hi" "hi < 4294967296"
    using tiles_bounds [OF _ n(1)] assms(1) by (auto simp: heap_inv_def)
  have "unat sz \<le> unat (round_size sz)" using unat_round_size [OF assms(2)] by simp
  then have i: "unat a + 20 + i < hi" using a n(2) assms(5) by linarith
  then have "unat p = unat a + 20" using ff(2) a unat_add32 [of a HDR] by simp
  then have "unat (p + of_nat i) = unat a + 20 + i"
    using i a unat_of_nat32 [of i] unat_add32 [of p "of_nat i"] by simp
  with i a show ?thesis by simp
qed

text \<open>With a well-formed memory map and an image that ends inside the kernel window,
  \<open>mm_init\<close> returns; the free frames are those of the available entries, the heap is well formed
  and empty, and nothing is mapped but the kernel window.\<close>

theorem mm_init_ok:
  assumes "mbi_flags mbt AND MULTIBOOT_INFO_MEM_MAP \<noteq> 0" "kpd \<noteq> 0"
    "mmap_at mm (mmap_addr mbt) es (mmap_addr mbt + mmap_length mbt)"
    "0xC0000000 \<le> unat kend" "unat kend + 20 \<le> 0xC0400000"
  shows "\<exists>m'. mm_init mm kpd kend False mbt m = Some (Inr m') \<and> free_set (m_frames m') = \<Union> (entry_frames ` set es)
     \<and> heap_wf (m_heap m') \<and> (\<forall>p k. \<not> heap_live (m_heap m') p k)
     \<and> (\<forall>v. virt_to_phys (m_paging m') v =
          Inr (if 0xC0000000 \<le> unat v \<and> unat v < 0xC0400000 then v - KERNEL_VMA else 0))"
proof -
  obtain m' where s: "mm_init mm kpd kend False mbt m = Some (Inr m')" "paging_init kpd False (m_paging m) = Inr (m_paging m')"
    "free_set (m_frames m') = \<Union> (entry_frames ` set es)"
    "heap_inv (unat kend) 0xC0400000 (m_heap m') [(kend, 0xC0400000 - kend, False)]"
    using mm_init_steps [OF assms] by blast
  show ?thesis
    using s(1,3) heap_wfI [OF s(4)] heap_live_iff [OF s(4)] paging_init_map [OF assms(2) s(2)] by simp
qed

definition memory0 :: memory where
  "memory0 = \<lparr>m_frames = frames0, m_paging = paging0, m_heap = heap0\<rparr>"

theorem mm_init_ok_witness:
  "\<exists>m'. mm_init (\<lambda>_. ram_entry) 0xC0110000 0xC0120000 False mbt0 memory0 = Some (Inr m')
     \<and> free_set (m_frames m') = entry_frames ram_entry \<and> heap_wf (m_heap m')"
  using mm_init_ok [of mbt0 "0xC0110000" "\<lambda>_. ram_entry" "[ram_entry]" "0xC0120000" memory0] mbt0_map
  by (auto simp: mbt0_def MULTIBOOT_INFO_MEM_MAP_def)



end
