(* ===== verification/Task.thy ===== *)
theory Task
  imports Kalloc_Spec
begin

text \<open>
  Task control blocks, \<open>kernel/task.c\<close> and \<open>kernel/task.h\<close>: creation and destruction of a task
  over the kernel heap. A \<open>task_t\<close> lives in a typed store at the address \<open>kmalloc\<close> returned,
  the words of the stacks in a word store.
\<close>

section \<open>Data\<close>

record task_t =
  pid :: u32
  ppid :: u32
  state :: u32
  cpu_time :: u32
  page_dir :: addr
  stack :: addr
  kernel_stack :: u32
  eip :: u32
  esp :: u32
  ebp :: u32
  next_task :: addr
  sleep_ticks :: u32

definition TASK_STOPPED :: u32 where "TASK_STOPPED = 0"
definition TASK_READY :: u32 where "TASK_READY = 1"
definition TASK_RUNNING :: u32 where "TASK_RUNNING = 2"
definition TASK_SLEEPING :: u32 where "TASK_SLEEPING = 3"
definition TASK_DESTROY :: u32 where "TASK_DESTROY = 4"

definition STACK_SIZE :: u32 where "STACK_SIZE = 0x4000"

text \<open>\<open>sizeof(task_t)\<close>: twelve 32-bit fields.\<close>

definition SIZEOF_TASK :: u32 where "SIZEOF_TASK = 48"

lemmas task_states = TASK_STOPPED_def TASK_READY_def TASK_RUNNING_def TASK_SLEEPING_def TASK_DESTROY_def

record tasking =
  k_heap :: heap
  task :: "addr \<Rightarrow> task_t"
  words :: "addr \<Rightarrow> u32"
  n_pid :: u32
  the_current_pd :: addr
  sched_kill_addr :: u32

definition upd_task :: "(task_t \<Rightarrow> task_t) \<Rightarrow> addr \<Rightarrow> 'a tasking_scheme \<Rightarrow> 'a tasking_scheme" where
  "upd_task f t s = s\<lparr>task := upd_at f t (task s)\<rparr>"

section \<open>The C functions\<close>

definition next_pid :: "'a tasking_scheme \<Rightarrow> u32 \<times> 'a tasking_scheme" where
  "next_pid s = (n_pid s, s\<lparr>n_pid := n_pid s + 1\<rparr>)"

text \<open>\<open>*--stack = v\<close>.\<close>

definition push :: "u32 \<Rightarrow> addr \<times> 'a tasking_scheme \<Rightarrow> addr \<times> 'a tasking_scheme" where
  "push v = (\<lambda>(sp, s). (sp - 4, s\<lparr>words := (words s)(sp - 4 := v)\<rparr>))"

text \<open>
  \<open>t->stack\<close> is an \<open>unsigned int*\<close>, so \<open>t->stack + STACK_SIZE\<close> is four times \<open>STACK_SIZE\<close>
  bytes further on.
\<close>

definition setup_stack :: "addr \<Rightarrow> 'a tasking_scheme \<Rightarrow> (bool \<times> 'a tasking_scheme) result option" where
  "setup_stack t s =
     map_option (\<lambda>r. rbind r (\<lambda>(p, h).
        let s = s\<lparr>k_heap := h\<rparr>; s = upd_task (\<lambda>x. x\<lparr>stack := p\<rparr>) t s in
        if stack (task s t) = 0 then Inr (False, s)
        else
          let top = stack (task s t) + 4 * STACK_SIZE;
              (sp, s) = fold push
                [0x202, 0x08, eip (task s t),
                 0, 0, 0, 0,
                 0, 0, 0, 0,
                 0x10, 0x10, 0x10, 0x10,
                 sched_kill_addr s] (top, s);
              s = upd_task (\<lambda>x. x\<lparr>esp := sp\<rparr>) t s;
              s = upd_task (\<lambda>x. x\<lparr>ebp := top\<rparr>) t s
          in Inr (True, s)))
       (kmalloc_a (k_heap s) STACK_SIZE)"

definition new_task :: "'a tasking_scheme \<Rightarrow> (addr \<times> 'a tasking_scheme) result option" where
  "new_task s =
     (case kmalloc (k_heap s) SIZEOF_TASK of
        None \<Rightarrow> None
      | Some (Inl e) \<Rightarrow> Some (Inl e)
      | Some (Inr (t, h)) \<Rightarrow>
          let s = s\<lparr>k_heap := h\<rparr> in
          if t = 0 then Some (Inr (0, s))
          else
            let (n, s) = next_pid s;
                s = upd_task (\<lambda>x. x\<lparr>pid := n\<rparr>) t s;
                s = upd_task (\<lambda>x. x\<lparr>ppid := 0\<rparr>) t s;
                s = upd_task (\<lambda>x. x\<lparr>state := TASK_STOPPED\<rparr>) t s;
                s = upd_task (\<lambda>x. x\<lparr>cpu_time := 0\<rparr>) t s;
                s = upd_task (\<lambda>x. x\<lparr>eip := 0\<rparr>) t s;
                s = upd_task (\<lambda>x. x\<lparr>esp := 0\<rparr>) t s;
                s = upd_task (\<lambda>x. x\<lparr>ebp := 0\<rparr>) t s;
                s = upd_task (\<lambda>x. x\<lparr>page_dir := the_current_pd s\<rparr>) t s
            in map_option (\<lambda>r. rbind r (\<lambda>(ok, s).
                 if \<not> ok then rbind (kfree (k_heap s) t) (\<lambda>h. Inr (0, s\<lparr>k_heap := h\<rparr>))
                 else
                   let s = upd_task (\<lambda>x. x\<lparr>next_task := 0\<rparr>) t s;
                       s = upd_task (\<lambda>x. x\<lparr>sleep_ticks := 0\<rparr>) t s
                   in Inr (t, s)))
               (setup_stack t s))"

definition free_task :: "addr \<Rightarrow> 'a tasking_scheme \<Rightarrow> 'a tasking_scheme result" where
  "free_task t s =
     rbind (kfree (k_heap s) (stack (task s t))) (\<lambda>h.
       let s = s\<lparr>k_heap := h\<rparr> in
       rbind (kfree (k_heap s) t) (\<lambda>h. Inr (s\<lparr>k_heap := h\<rparr>)))"

section \<open>Facts about the steps\<close>

lemma req_ok_task [simp]: "req_ok SIZEOF_TASK" "req_ok STACK_SIZE"
  by (simp_all add: req_ok_def SIZEOF_TASK_def STACK_SIZE_def)

lemma upd_task_sel [simp]:
  "k_heap (upd_task f t s) = k_heap s" "words (upd_task f t s) = words s" "n_pid (upd_task f t s) = n_pid s"
  "the_current_pd (upd_task f t s) = the_current_pd s" "sched_kill_addr (upd_task f t s) = sched_kill_addr s"
  "task (upd_task f t s) t = f (task s t)" "b \<noteq> t \<Longrightarrow> task (upd_task f t s) b = task s b"
  "tasking.more (upd_task f t s) = tasking.more s"
  by (simp_all add: upd_task_def)

lemma push_fold:
  "\<exists>w. fold push vs (sp, s) = (sp - 4 * of_nat (length vs), s\<lparr>words := w\<rparr>)
    \<and> (\<forall>a. w a \<noteq> words s a \<longrightarrow> (\<exists>k. 0 < k \<and> k \<le> length vs \<and> a = sp - 4 * of_nat k))"
proof (induction vs arbitrary: sp s)
  case Nil
  show ?case by (intro exI [of _ "words s"]) simp
next
  case (Cons v vs)
  obtain w where w: "fold push vs (sp - 4, s\<lparr>words := (words s)(sp - 4 := v)\<rparr>)
      = (sp - 4 - 4 * of_nat (length vs), s\<lparr>words := (words s)(sp - 4 := v)\<rparr>\<lparr>words := w\<rparr>)"
    "\<And>a. w a \<noteq> ((words s)(sp - 4 := v)) a \<Longrightarrow> \<exists>k. 0 < k \<and> k \<le> length vs \<and> a = sp - 4 - 4 * of_nat k"
    using Cons.IH [of "sp - 4" "s\<lparr>words := (words s)(sp - 4 := v)\<rparr>"] by auto
  have "\<exists>k. 0 < k \<and> k \<le> length (v # vs) \<and> a = sp - 4 * of_nat k" if ch: "w a \<noteq> words s a" for a
  proof (cases "a = sp - 4")
    case True
    then show ?thesis by (intro exI [of _ 1]) simp
  next
    case False
    then obtain k where "0 < k" "k \<le> length vs" "a = sp - 4 - 4 * of_nat k" using ch w(2) [of a] by auto
    then show ?thesis by (intro exI [of _ "Suc k"]) (simp add: algebra_simps)
  qed
  moreover have "fold push (v # vs) (sp, s) = fold push vs (sp - 4, s\<lparr>words := (words s)(sp - 4 := v)\<rparr>)"
    by (simp add: push_def)
  ultimately show ?case using w(1) by (intro exI [of _ w]) (simp add: algebra_simps)
qed

definition stack_of :: "addr \<Rightarrow> task_t \<Rightarrow> task_t" where
  "stack_of p x = x\<lparr>stack := p, esp := p + 0x10000 - 64, ebp := p + 0x10000\<rparr>"

lemma setup_stack_cases:
  assumes "heap_wf (k_heap s)" "setup_stack t s = Some r"
  obtains (fail) "r = Inr (False, upd_task (\<lambda>x. x\<lparr>stack := 0\<rparr>) t s)"
  | (ok) p h m w where "p \<noteq> 0" "kmalloc_a (k_heap s) STACK_SIZE = Some (Inr (p, h))" "heap_wf h"
      "\<forall>k. \<not> heap_live (k_heap s) p k" "\<forall>q k. heap_live h q k \<longleftrightarrow> heap_live (k_heap s) q k \<or> q = p \<and> k = m"
      "r = Inr (True, upd_task (stack_of p) t (s\<lparr>k_heap := h, words := w\<rparr>))"
      "\<forall>a. w a \<noteq> words s a \<longrightarrow> (\<exists>k. 0 < k \<and> k \<le> 16 \<and> a = p + 0x10000 - 4 * of_nat k)"
proof -
  obtain r0 where a: "kmalloc_a (k_heap s) STACK_SIZE = Some r0"
    using assms(2) by (auto simp: setup_stack_def)
  then obtain p h where r0: "r0 = Inr (p, h)" "heap_wf h"
    using kma.alloc_ret [OF assms(1) req_ok_task(2)] by blast
  show thesis
  proof (cases "p = 0")
    case True
    then have "h = k_heap s" using kma.alloc_null [OF assms(1) req_ok_task(2)] a r0 by simp
    with True a r0 assms(2) fail show thesis by (auto simp: setup_stack_def)
  next
    case False
    obtain m where m: "\<forall>k. \<not> heap_live (k_heap s) p k"
        "\<forall>q k. heap_live h q k \<longleftrightarrow> heap_live (k_heap s) q k \<or> q = p \<and> k = m"
      using kma.alloc_live [OF assms(1) req_ok_task(2)] a r0 False by blast
    let ?s = "upd_task (\<lambda>x. x\<lparr>stack := p\<rparr>) t (s\<lparr>k_heap := h\<rparr>)"
    let ?vs = "[0x202, 0x08, eip (task s t), 0, 0, 0, 0, 0, 0, 0, 0, 0x10, 0x10, 0x10, 0x10, sched_kill_addr s]"
    obtain w where w: "fold push ?vs (p + 0x10000, ?s) = (p + 0x10000 - 4 * of_nat (length ?vs), ?s\<lparr>words := w\<rparr>)"
        "\<forall>a. w a \<noteq> words s a \<longrightarrow> (\<exists>k. 0 < k \<and> k \<le> length ?vs \<and> a = p + 0x10000 - 4 * of_nat k)"
      using push_fold [of ?vs "p + 0x10000" ?s] by (simp del: fold_simps) blast
    have "setup_stack t s = Some (Inr (True, upd_task (stack_of p) t (s\<lparr>k_heap := h, words := w\<rparr>)))"
      using a r0 False w(1)
      by (simp add: setup_stack_def STACK_SIZE_def Let_def upd_task_def upd_at_def stack_of_def
          del: fold_simps)
    moreover have "length ?vs = 16" by simp
    ultimately show thesis using w(2) assms(2) ok [OF False _ r0(2) m, of w] a r0(1) by (simp only: option.inject)
  qed
qed

text \<open>The contents \<open>new_task\<close> gives the control block of a task.\<close>

definition fresh_task :: "u32 \<Rightarrow> addr \<Rightarrow> addr \<Rightarrow> task_t \<Rightarrow> task_t" where
  "fresh_task n pd p x = x\<lparr>pid := n, ppid := 0, state := TASK_STOPPED, cpu_time := 0, eip := 0, page_dir := pd,
     stack := p, esp := p + 0x10000 - 64, ebp := p + 0x10000, next_task := 0, sleep_ticks := 0\<rparr>"

definition init_task :: "addr \<Rightarrow> heap \<Rightarrow> 'a tasking_scheme \<Rightarrow> 'a tasking_scheme" where
  "init_task t h s = upd_task (\<lambda>x. x\<lparr>pid := n_pid s, ppid := 0, state := TASK_STOPPED, cpu_time := 0,
     eip := 0, esp := 0, ebp := 0, page_dir := the_current_pd s\<rparr>) t (s\<lparr>k_heap := h, n_pid := n_pid s + 1\<rparr>)"

lemma new_task_alt:
  assumes "kmalloc (k_heap s) SIZEOF_TASK = Some (Inr (t, h))" "t \<noteq> 0"
  shows "new_task s = map_option (\<lambda>r. rbind r (\<lambda>(ok, s).
       if \<not> ok then rbind (kfree (k_heap s) t) (\<lambda>h. Inr (0, s\<lparr>k_heap := h\<rparr>))
       else Inr (t, upd_task (\<lambda>x. x\<lparr>next_task := 0, sleep_ticks := 0\<rparr>) t s)))
     (setup_stack t (init_task t h s))"
proof -
  have *: "upd_task f t (upd_task g t s') = upd_task (f \<circ> g) t s'" for f g and s' :: "'a tasking_scheme"
    by (simp add: upd_task_def upd_at_def)
  show ?thesis using assms by (simp add: new_task_def next_pid_def Let_def init_task_def * comp_def cong: if_cong)
qed

lemma new_task_cases:
  assumes "heap_wf (k_heap s)" "new_task s = Some r"
  obtains (fail) s' where "r = Inr (0, s')" "heap_wf (k_heap s')"
      "\<forall>q k. heap_live (k_heap s') q k \<longleftrightarrow> heap_live (k_heap s) q k" "words s' = words s"
      "tasking.more s' = tasking.more s" "\<forall>a k. heap_live (k_heap s) a k \<longrightarrow> task s' a = task s a"
  | (ok) t s' p mt mp where "r = Inr (t, s')" "t \<noteq> 0" "p \<noteq> 0" "p \<noteq> t" "heap_wf (k_heap s')"
      "\<forall>k. \<not> heap_live (k_heap s) t k" "\<forall>k. \<not> heap_live (k_heap s) p k"
      "\<forall>q k. heap_live (k_heap s') q k \<longleftrightarrow> heap_live (k_heap s) q k \<or> q = t \<and> k = mt \<or> q = p \<and> k = mp"
      "task s' = (task s)(t := fresh_task (n_pid s) (the_current_pd s) p (task s t))"
      "n_pid s' = n_pid s + 1" "the_current_pd s' = the_current_pd s"
      "sched_kill_addr s' = sched_kill_addr s" "tasking.more s' = tasking.more s"
proof (cases rule: km.alloc_cases [OF assms(1) req_ok_task(1)])
  case 1
  then have "new_task s = Some (Inr (0, s))" by (simp add: new_task_def)
  with assms fail [of s] show thesis by simp
next
  case (2 t h mt)
  let ?s = "init_task t h s"
  obtain r0 where r0: "setup_stack t ?s = Some r0"
    using assms(2) new_task_alt [OF 2(1,2)] by (cases "setup_stack t ?s") auto
  have k: "k_heap ?s = h" by (simp add: init_task_def)
  then have wf: "heap_wf (k_heap ?s)" using 2(3) by simp
  show thesis
  proof (cases rule: setup_stack_cases [OF wf r0])
    case 1
    obtain h2 where h2: "kfree h t = Inr h2" "heap_wf h2" "\<forall>q k. heap_live h2 q k \<longleftrightarrow> heap_live h q k \<and> q \<noteq> t"
      using km.free_live [OF 2(3), of t mt] 2(6) by blast
    have "r = Inr (0, (upd_task (\<lambda>x. x\<lparr>stack := 0\<rparr>) t ?s)\<lparr>k_heap := h2\<rparr>)"
      using assms(2) new_task_alt [OF 2(1,2)] r0 1 h2(1) k by simp
    moreover have "task ((upd_task (\<lambda>x. x\<lparr>stack := 0\<rparr>) t ?s)\<lparr>k_heap := h2\<rparr>) a = task s a" if "heap_live (k_heap s) a k" for a k
    proof -
      have "a \<noteq> t" using that 2(5) by auto
      then show ?thesis by (simp add: init_task_def upd_task_def upd_at_apply)
    qed
    moreover have "heap_live h2 q k \<longleftrightarrow> heap_live (k_heap s) q k" for q k using h2(3) 2(5,6) by auto
    ultimately show thesis
      using h2(2) by (intro fail [of "(upd_task (\<lambda>x. x\<lparr>stack := 0\<rparr>) t ?s)\<lparr>k_heap := h2\<rparr>"]) (auto simp: init_task_def)
  next
    case ok': (2 p hp mp w)
    let ?s' = "upd_task (\<lambda>x. x\<lparr>next_task := 0, sleep_ticks := 0\<rparr>) t (upd_task (stack_of p) t (?s\<lparr>k_heap := hp, words := w\<rparr>))"
    have r: "r = Inr (t, ?s')" using assms(2) new_task_alt [OF 2(1,2)] r0 ok'(6) by simp
    have live: "heap_live h t mt" using 2(6) by blast
    show thesis
    proof (rule ok [OF r 2(2) ok'(1)])
      show "p \<noteq> t" using live ok'(4) k by auto
      show "heap_wf (k_heap ?s')" using ok'(3) by simp
      show "\<forall>k. \<not> heap_live (k_heap s) t k" by (rule 2(5))
      show "\<forall>k'. \<not> heap_live (k_heap s) p k'" using ok'(4) 2(6) k by auto
      show "\<forall>q k'. heap_live (k_heap ?s') q k' \<longleftrightarrow> heap_live (k_heap s) q k' \<or> q = t \<and> k' = mt \<or> q = p \<and> k' = mp"
        using ok'(5) 2(6) k by auto
      show "task ?s' = (task s)(t := fresh_task (n_pid s) (the_current_pd s) p (task s t))"
        by (simp add: upd_task_def upd_at_def init_task_def fresh_task_def stack_of_def)
    qed (simp_all add: init_task_def)
  qed
qed

section \<open>Properties\<close>

text \<open>Creating a task, whenever it returns, either fails with null and leaves the live blocks
  as they were, or adds exactly two live blocks, the control block and its stack, which were not
  live before; the control block is initialised with the next process id, and no other control
  block changes.\<close>

theorem new_task_spec:
  assumes "heap_wf (k_heap s)" "new_task s = Some r"
  shows "\<exists>t s'. r = Inr (t, s') \<and> heap_wf (k_heap s') \<and>
    (if t = 0 then \<forall>q k. heap_live (k_heap s') q k \<longleftrightarrow> heap_live (k_heap s) q k
     else \<exists>p mt mp. p \<noteq> 0 \<and> p \<noteq> t \<and> (\<forall>k. \<not> heap_live (k_heap s) t k \<and> \<not> heap_live (k_heap s) p k)
       \<and> (\<forall>q k. heap_live (k_heap s') q k \<longleftrightarrow> heap_live (k_heap s) q k \<or> q = t \<and> k = mt \<or> q = p \<and> k = mp)
       \<and> task s' = (task s)(t := fresh_task (n_pid s) (the_current_pd s) p (task s t))
       \<and> n_pid s' = n_pid s + 1)"
proof (cases rule: new_task_cases [OF assms])
  case (1 s')
  then show ?thesis by auto
next
  case (2 t s' p mt mp)
  then show ?thesis by (intro exI [of _ t] exI [of _ s']) auto
qed

text \<open>A kernel with the 64 KiB heap of the heap's examples and no task yet.\<close>

definition task0 :: task_t where
  "task0 = \<lparr>pid = 0, ppid = 0, state = 0, cpu_time = 0, page_dir = 0, stack = 0, kernel_stack = 0, eip = 0, esp = 0,
     ebp = 0, next_task = 0, sleep_ticks = 0\<rparr>"

definition tasking1 :: tasking where
  "tasking1 = \<lparr>k_heap = heap1, task = (\<lambda>_. task0), words = (\<lambda>_. 0), n_pid = 0, the_current_pd = 0xC0105000,
     sched_kill_addr = 0xC0102000\<rparr>"

text \<open>On a heap whose block list is known, the blocks of a new task can be computed.\<close>

lemma new_task_blocks:
  assumes "heap_inv lo hi (k_heap s) bs" "hi + 4136 \<le> 4294967296"
    "first_fit (round_size SIZEOF_TASK) bs = Some (a, bs1)" "a + HDR \<noteq> 0" "no_adj bs1"
    "aligned_fit (round_size STACK_SIZE) bs1 = Fit c bs2"
  shows "\<exists>s'. new_task s = Some (Inr (a + HDR, s')) \<and> heap_inv lo hi (k_heap s') bs2"
proof -
  obtain h where h: "kmalloc (k_heap s) SIZEOF_TASK = Some (Inr (a + HDR, h))" "heap_inv lo hi h bs1"
    using kmalloc_plain [OF assms(1) req_ok_task(1)] assms(3) by auto
  obtain h' where h': "kmalloc_a h STACK_SIZE = Some (Inr (c + HDR, h'))" "c + HDR \<noteq> 0" "heap_inv lo hi h' bs2"
    using kmalloc_a_cases [OF h(2) assms(5,2) req_ok_task(2)] assms(6) by auto
  let ?t = "a + HDR"
  obtain s' where s': "setup_stack ?t (init_task ?t h s) = Some (Inr (True, s'))" "k_heap s' = h'"
  proof -
    let ?s = "init_task ?t h s"
    obtain w where "fold push [0x202, 0x08, eip (task ?s ?t), 0, 0, 0, 0, 0, 0, 0, 0, 0x10, 0x10, 0x10, 0x10, sched_kill_addr ?s]
        (c + HDR + 4 * STACK_SIZE, upd_task (\<lambda>x. x\<lparr>stack := c + HDR\<rparr>) ?t (?s\<lparr>k_heap := h'\<rparr>)) =
        (c + HDR + 4 * STACK_SIZE - 64, (upd_task (\<lambda>x. x\<lparr>stack := c + HDR\<rparr>) ?t (?s\<lparr>k_heap := h'\<rparr>))\<lparr>words := w\<rparr>)"
      using push_fold [of "[0x202, 0x08, eip (task ?s ?t), 0, 0, 0, 0, 0, 0, 0, 0, 0x10, 0x10, 0x10, 0x10, sched_kill_addr ?s]"]
      by (simp del: fold_simps) blast
    then show thesis
      using that h'(1,2) by (simp add: setup_stack_def Let_def init_task_def del: fold_simps)
  qed
  then show ?thesis using new_task_alt [OF h(1) assms(4)] h'(3) by simp
qed

lemma new_task_heap1:
  assumes "k_heap s = heap1"
  shows "\<exists>s'. new_task s = Some (Inr (0xC0120014, s')) \<and> heap_inv 0xC0120000 0xC0130000 (k_heap s')
    [(0xC0120000, 68, True), (0xC0120044, 0xFA8, False), (0xC0120FEC, 0x4014, True), (0xC0125000, 0xB000, False)]"
proof -
  have "first_fit (round_size SIZEOF_TASK) [(0xC0120000, 0x10000, False)] =
      Some (0xC0120000, [(0xC0120000, 68, True), (0xC0120044, 0xFFBC, False)])"
    by (simp add: SIZEOF_TASK_def round_size_def HDR_def)
  moreover have "aligned_fit (round_size STACK_SIZE) [(0xC0120000, 68, True), (0xC0120044, 0xFFBC, False)] =
      Fit 0xC0120FEC [(0xC0120000, 68, True), (0xC0120044, 0xFA8, False), (0xC0120FEC, 0x4014, True), (0xC0125000, 0xB000, False)]"
    by (simp add: round_size_def page_align_def HDR_def Let_def STACK_SIZE_def)
  ultimately show ?thesis
    using new_task_blocks [of "0xC0120000" "0xC0130000" s] heap1_inv assms by (fastforce simp: HDR_def)
qed

lemma new_task_tasking1: "\<exists>t s'. new_task tasking1 = Some (Inr (t, s')) \<and> t \<noteq> 0"
  using new_task_heap1 [of tasking1] by (auto simp: tasking1_def)

theorem new_task_spec_witness:
  "\<exists>t s'. new_task tasking1 = Some (Inr (t, s')) \<and> t \<noteq> 0 \<and> heap_wf (k_heap s') \<and> n_pid s' = 1"
proof -
  have wf: "heap_wf (k_heap tasking1)" by (simp add: tasking1_def heap1_wf)
  obtain t s' where t: "new_task tasking1 = Some (Inr (t, s'))" "t \<noteq> 0" using new_task_tasking1 by blast
  with new_task_spec [OF wf t(1)] show ?thesis by (auto simp: tasking1_def)
qed

text \<open>Destroying the task just created leaves the live blocks as they were before.\<close>

theorem new_task_free_task:
  assumes "heap_wf (k_heap s)" "new_task s = Some (Inr (t, s'))" "t \<noteq> 0"
  shows "\<exists>s''. free_task t s' = Inr s'' \<and> heap_wf (k_heap s'')
    \<and> (\<forall>q k. heap_live (k_heap s'') q k \<longleftrightarrow> heap_live (k_heap s) q k)"
proof (cases rule: new_task_cases [OF assms(1,2)])
  case (2 t' u p mt mp)
  then have e: "t' = t" "u = s'" by simp_all
  have st: "stack (task s' t) = p" using 2(9) e by (simp add: fresh_task_def)
  obtain h where h: "kfree (k_heap s') p = Inr h" "heap_wf h" "\<forall>q k. heap_live h q k \<longleftrightarrow> heap_live (k_heap s') q k \<and> q \<noteq> p"
    using km.free_live [of "k_heap s'" p mp] 2(5,8) e by blast
  then have "heap_live h t mt" using 2(4,8) e by auto
  then obtain h' where h': "kfree h t = Inr h'" "heap_wf h'" "\<forall>q k. heap_live h' q k \<longleftrightarrow> heap_live h q k \<and> q \<noteq> t"
    using km.free_live [OF h(2)] by blast
  have "free_task t s' = Inr (s'\<lparr>k_heap := h'\<rparr>)" using h h' st by (simp add: free_task_def)
  moreover have "heap_live h' q k \<longleftrightarrow> heap_live (k_heap s) q k" for q k
    using h'(3) h(3) 2(6,7,8) e by auto
  ultimately show ?thesis using h'(2) by auto
qed (use assms in auto)

theorem new_task_free_task_witness:
  "\<exists>t s' s''. new_task tasking1 = Some (Inr (t, s')) \<and> free_task t s' = Inr s'' \<and> heap_wf (k_heap s'')"
proof -
  have wf: "heap_wf (k_heap tasking1)" by (simp add: tasking1_def heap1_wf)
  obtain t s' where t: "new_task tasking1 = Some (Inr (t, s'))" "t \<noteq> 0" using new_task_tasking1 by blast
  with new_task_free_task [OF wf t] show ?thesis by blast
qed

text \<open>The initial stack frame of a task is written outside its stack: every word that
  \<open>setup_stack\<close> stores lies at least \<open>STACK_SIZE\<close> bytes above the start of the block of
  \<open>STACK_SIZE\<close> bytes, because \<open>t->stack + STACK_SIZE\<close> counts words.\<close>

theorem setup_stack_outside:
  assumes "heap_wf (k_heap s)" "setup_stack t s = Some (Inr (ok, s'))" "words s' a \<noteq> words s a"
  shows "ok \<and> unat STACK_SIZE \<le> unat (a - stack (task s' t))"
proof (cases rule: setup_stack_cases [OF assms(1,2)])
  case (2 p h m w)
  then obtain k where k: "0 < k" "k \<le> 16" "a = p + 0x10000 - 4 * of_nat k" using assms(3) by auto
  have "stack (task s' t) = p" using 2(6) by (simp add: stack_of_def)
  then have "a - stack (task s' t) = 0x10000 - 4 * of_nat k" using k by simp
  moreover have "unat (4 * of_nat k :: u32) = 4 * k" using k(2) unat_of_nat32 [of k] by (subst unat_mult32) simp_all
  ultimately have "unat (a - stack (task s' t)) = 0x10000 - 4 * k" using k(2) by (simp add: unat_sub32)
  with k(2) 2(6) show ?thesis by (simp add: STACK_SIZE_def)
qed (use assms in auto)

theorem setup_stack_outside_witness:
  "\<exists>s' a. setup_stack 0xC0120014 tasking1 = Some (Inr (True, s')) \<and> words s' a \<noteq> words tasking1 a
     \<and> unat STACK_SIZE \<le> unat (a - stack (task s' 0xC0120014))"
proof -
  have wf: "heap_wf (k_heap tasking1)" by (simp add: tasking1_def heap1_wf)
  let ?bs = "[(0xC0120000, 0x10000, False)] :: blk list"
  have na: "no_adj ?bs" by simp
  have "aligned_fit (round_size STACK_SIZE) ?bs \<noteq> Stuck" "aligned_fit (round_size STACK_SIZE) ?bs \<noteq> NoFit"
    by (simp_all add: round_size_def page_align_def HDR_def Let_def STACK_SIZE_def)
  then obtain c h' where c: "kmalloc_a heap1 STACK_SIZE = Some (Inr (c + HDR, h'))" "c + HDR \<noteq> 0"
    using kmalloc_a_cases [OF heap1_inv na _ req_ok_task(2)] by auto
  let ?a = "c + HDR + 0x10000 - 4"
  obtain s' where s': "setup_stack 0xC0120014 tasking1 = Some (Inr (True, s'))" "words s' ?a = 0x202"
    using c by (simp add: setup_stack_def Let_def push_def tasking1_def STACK_SIZE_def)
  then have ch: "words s' ?a \<noteq> words tasking1 ?a" by (simp add: tasking1_def)
  show ?thesis using setup_stack_outside [OF wf s'(1) ch] s'(1) ch by blast
qed

end
