(* ===== verification/Linked.thy ===== *)
theory Linked
  imports Prelude
begin

text \<open>
  Singly linked lists in a typed store, the data structure of the task queues, the device, drive
  and volume lists and the interrupt handler chains. \<open>lseg\<close> relates the pointer structure to
  the list of node addresses; the locale \<open>linked\<close> collects what an update of one link does to
  it, for any node type with a link field.
\<close>

section \<open>Segments\<close>

fun lseg :: "('o \<Rightarrow> addr) \<Rightarrow> (addr \<Rightarrow> 'o) \<Rightarrow> addr \<Rightarrow> addr list \<Rightarrow> addr \<Rightarrow> bool" where
  "lseg nxt m h [] k \<longleftrightarrow> h = k"
| "lseg nxt m h (a # as) k \<longleftrightarrow> h = a \<and> a \<noteq> 0 \<and> lseg nxt m (nxt (m a)) as k"

abbreviation llist :: "('o \<Rightarrow> addr) \<Rightarrow> (addr \<Rightarrow> 'o) \<Rightarrow> addr \<Rightarrow> addr list \<Rightarrow> bool" where
  "llist nxt m h as \<equiv> lseg nxt m h as 0"

definition last_or_null :: "addr list \<Rightarrow> addr" where
  "last_or_null as = (if as = [] then 0 else last as)"

definition head_or_null :: "addr list \<Rightarrow> addr" where
  "head_or_null as = (if as = [] then 0 else hd as)"

lemma or_null_simps [simp]:
  "last_or_null [] = 0" "last_or_null [a] = a" "last_or_null (as @ [a]) = a" "head_or_null [] = 0" "head_or_null (a # as) = a"
  by (simp_all add: last_or_null_def head_or_null_def)

lemma lseg_append: "lseg nxt m h (as @ bs) k \<longleftrightarrow> (\<exists>j. lseg nxt m h as j \<and> lseg nxt m j bs k)"
  by (induction as arbitrary: h) auto

lemma lseg_cong: "(\<And>a. a \<in> set as \<Longrightarrow> nxt (m a) = nxt (m' a)) \<Longrightarrow> lseg nxt m h as k = lseg nxt m' h as k"
  by (induction as arbitrary: h) auto

lemma lseg_nonnull: "lseg nxt m h as k \<Longrightarrow> 0 \<notin> set as"
  by (induction as arbitrary: h) auto

lemma llist_null [simp]: "llist nxt m 0 as \<longleftrightarrow> as = []"
  by (cases as) auto

lemma llist_head: "llist nxt m h as \<Longrightarrow> h = head_or_null as"
  by (cases as) auto

lemma llist_unique: "llist nxt m h as \<Longrightarrow> llist nxt m h bs \<Longrightarrow> as = bs"
proof (induction as arbitrary: h bs)
  case (Cons a as)
  then show ?case by (cases bs) auto
qed auto

text \<open>A list that ends cannot pass through a node twice.\<close>

lemma llist_suffix_length:
  "llist nxt m h as \<Longrightarrow> llist nxt m h bs \<Longrightarrow> length as = length bs"
  using llist_unique by blast

lemma llist_distinct: "llist nxt m h as \<Longrightarrow> distinct as"
proof (induction as arbitrary: h)
  case (Cons a as)
  have "a \<notin> set as"
  proof
    assume "a \<in> set as"
    then obtain xs ys where as: "as = xs @ a # ys" by (auto simp: in_set_conv_decomp)
    then have "llist nxt m a (a # ys)" using Cons.prems by (auto simp: lseg_append)
    moreover have "llist nxt m a (a # as)" using Cons.prems by auto
    ultimately have "length (a # ys) = length (a # as)" by (rule llist_suffix_length)
    with as show False by simp
  qed
  with Cons show ?case by auto
qed simp

lemma lseg_last: "lseg nxt m h as k \<Longrightarrow> as \<noteq> [] \<Longrightarrow> nxt (m (last as)) = k \<and> last as \<noteq> 0"
proof (induction as arbitrary: h)
  case (Cons a as)
  then show ?case by (cases as) auto
qed simp

section \<open>Changing links\<close>

locale linked =
  fixes nxt :: "'o \<Rightarrow> addr" and set_nxt :: "addr \<Rightarrow> 'o \<Rightarrow> 'o"
  assumes nxt_set [simp]: "nxt (set_nxt v x) = v"
    and set_set [simp]: "set_nxt v (set_nxt w x) = set_nxt v x"
    and set_self: "set_nxt (nxt x) x = x"
begin

abbreviation link :: "addr \<Rightarrow> addr \<Rightarrow> (addr \<Rightarrow> 'o) \<Rightarrow> (addr \<Rightarrow> 'o)" where
  "link a v m \<equiv> upd_at (set_nxt v) a m"

lemma lseg_link_other: "a \<notin> set as \<Longrightarrow> lseg nxt (link a v m) h as k = lseg nxt m h as k"
  by (rule lseg_cong) (auto simp: upd_at_apply)

text \<open>Redirecting the last link of a segment changes where the segment ends.\<close>

lemma lseg_relink:
  "lseg nxt m h as k \<Longrightarrow> as \<noteq> [] \<Longrightarrow> distinct as \<Longrightarrow> lseg nxt (link (last as) v m) h as v"
proof (induction as arbitrary: h)
  case (Cons a as)
  then show ?case
  proof (cases "as = []")
    case False
    then have "a \<noteq> last as" using Cons.prems(3) by auto
    with False Cons show ?thesis by (auto simp: upd_at_apply)
  qed auto
qed simp

lemma llist_push: "llist nxt m h as \<Longrightarrow> a \<noteq> 0 \<Longrightarrow> a \<notin> set as \<Longrightarrow> llist nxt (link a h m) a (a # as)"
  by (simp add: lseg_link_other)

lemma llist_append:
  assumes "llist nxt m h as" "as \<noteq> []" "a \<noteq> 0" "a \<notin> set as" "nxt (m a) = 0"
  shows "llist nxt (link (last as) a m) h (as @ [a])"
proof -
  have "a \<noteq> last as" using assms(2,4) by auto
  then show ?thesis
    using lseg_relink [OF assms(1,2) llist_distinct [OF assms(1)], of a] assms(3,5)
    by (auto simp: lseg_append upd_at_apply)
qed

lemma llist_insert:
  assumes "llist nxt m h (as @ bs)" "as \<noteq> []" "a \<noteq> 0" "a \<notin> set as" "a \<notin> set bs" "z = head_or_null bs"
  shows "llist nxt (link a z (link (last as) a m)) h (as @ a # bs)"
proof -
  have d: "distinct (as @ bs)" using assms(1) by (rule llist_distinct)
  obtain j where j: "lseg nxt m h as j" "llist nxt m j bs" using assms(1) by (auto simp: lseg_append)
  then have "j = z" using llist_head assms(6) by blast
  have "last as \<notin> set bs" using d assms(2) last_in_set [of as] by (metis disjoint_iff distinct_append)
  then have "llist nxt (link a z (link (last as) a m)) z bs"
    using j(2) assms(5) \<open>j = z\<close> by (simp add: lseg_link_other)
  moreover have "lseg nxt (link a z (link (last as) a m)) h as a"
    using lseg_relink [OF j(1) assms(2), of a] d assms(4) by (simp add: lseg_link_other)
  ultimately show ?thesis using assms(3) by (auto simp: lseg_append)
qed

lemma llist_unlink:
  assumes "llist nxt m h (as @ a # bs)" "as \<noteq> []"
  shows "llist nxt (link (last as) (nxt (m a)) m) h (as @ bs)"
proof -
  have d: "distinct (as @ a # bs)" using assms(1) by (rule llist_distinct)
  have j: "lseg nxt m h as a" "llist nxt m (nxt (m a)) bs" using assms(1) by (auto simp: lseg_append)
  have "last as \<notin> set bs" using d assms(2) last_in_set [of as] by (auto simp: disjoint_iff)
  then show ?thesis
    using lseg_relink [OF j(1) assms(2), of "nxt (m a)"] d j(2) by (auto simp: lseg_append lseg_link_other)
qed

end

section \<open>Walks\<close>

text \<open>The loop \<open>while(t->next) t = t->next;\<close>, which ends at the last node of a list.\<close>

partial_function (option) walk_tail :: "('o \<Rightarrow> addr) \<Rightarrow> (addr \<Rightarrow> 'o) \<Rightarrow> addr \<Rightarrow> addr option" where
  "walk_tail nxt m t = (if nxt (m t) \<noteq> 0 then walk_tail nxt m (nxt (m t)) else Some t)"

lemma walk_tail_last: "llist nxt m h as \<Longrightarrow> as \<noteq> [] \<Longrightarrow> walk_tail nxt m h = Some (last as)"
proof (induction as arbitrary: h)
  case (Cons a as)
  then show ?case by (subst walk_tail.simps) (cases as; auto)
qed simp

text \<open>The loop \<open>while(t) { if(found) return t; t = t->next; }\<close>.\<close>

partial_function (option) walk_find :: "('o \<Rightarrow> addr) \<Rightarrow> ('o \<Rightarrow> bool) \<Rightarrow> (addr \<Rightarrow> 'o) \<Rightarrow> addr \<Rightarrow> addr option" where
  "walk_find nxt ok m t =
     (if t \<noteq> 0 then if ok (m t) then Some t else walk_find nxt ok m (nxt (m t)) else Some 0)"

lemma walk_find_first:
  "llist nxt m h as \<Longrightarrow> walk_find nxt ok m h = Some (case find (\<lambda>a. ok (m a)) as of None \<Rightarrow> 0 | Some a \<Rightarrow> a)"
proof (induction as arbitrary: h)
  case Nil
  then show ?case by (subst walk_find.simps) simp
next
  case (Cons a as)
  then show ?case by (subst walk_find.simps) auto
qed

section \<open>Registries\<close>

text \<open>
  The kernel keeps its drives and network devices, and the list of PCI functions, in linked
  lists with a head variable. Adding puts a node at the end, removing searches the node.
\<close>

definition list_link ::
  "('o \<Rightarrow> addr) \<Rightarrow> (addr \<Rightarrow> 'o \<Rightarrow> 'o) \<Rightarrow> addr \<Rightarrow> addr \<Rightarrow> (addr \<Rightarrow> 'o) \<Rightarrow> (addr \<times> (addr \<Rightarrow> 'o)) option" where
  "list_link nxt set_nxt d h m =
     (if h = 0 then Some (d, m)
      else map_option (\<lambda>t. (h, upd_at (set_nxt d) t m)) (walk_tail nxt m h))"

definition list_append ::
  "('o \<Rightarrow> addr) \<Rightarrow> (addr \<Rightarrow> 'o \<Rightarrow> 'o) \<Rightarrow> addr \<Rightarrow> addr \<Rightarrow> (addr \<Rightarrow> 'o) \<Rightarrow> (addr \<times> (addr \<Rightarrow> 'o)) option" where
  "list_append nxt set_nxt d h m = list_link nxt set_nxt d h (upd_at (set_nxt 0) d m)"

partial_function (option) remove_loop ::
  "('o \<Rightarrow> addr) \<Rightarrow> (addr \<Rightarrow> 'o \<Rightarrow> 'o) \<Rightarrow> addr \<Rightarrow> addr \<Rightarrow> (addr \<Rightarrow> 'o) \<Rightarrow> (bool \<times> (addr \<Rightarrow> 'o)) option" where
  "remove_loop nxt set_nxt d t m =
     (if nxt (m t) \<noteq> 0
      then if nxt (m t) = d
           then let m = upd_at (set_nxt (nxt (m (nxt (m t))))) t m; m = upd_at (set_nxt 0) d m in Some (True, m)
           else remove_loop nxt set_nxt d (nxt (m t)) m
      else Some (False, m))"

text \<open>The result tells whether the node was found, then the new head and the new store.\<close>

definition list_remove ::
  "('o \<Rightarrow> addr) \<Rightarrow> (addr \<Rightarrow> 'o \<Rightarrow> 'o) \<Rightarrow> addr \<Rightarrow> addr \<Rightarrow> (addr \<Rightarrow> 'o) \<Rightarrow> (bool \<times> addr \<times> (addr \<Rightarrow> 'o)) option" where
  "list_remove nxt set_nxt d h m =
     (if h = 0 then Some (False, h, m)
      else if d = h then let h' = nxt (m d); m = upd_at (set_nxt 0) d m in Some (True, h', m)
      else map_option (\<lambda>(found, m). (found, h, m)) (remove_loop nxt set_nxt d h m))"

text \<open>Only links differ: every node is as it was but for its link field, nodes outside \<open>A\<close> altogether.\<close>

definition only_links :: "(addr \<Rightarrow> 'o \<Rightarrow> 'o) \<Rightarrow> addr set \<Rightarrow> (addr \<Rightarrow> 'o) \<Rightarrow> (addr \<Rightarrow> 'o) \<Rightarrow> bool" where
  "only_links set_nxt A m m' \<longleftrightarrow>
     (\<forall>b. b \<notin> A \<longrightarrow> m' b = m b) \<and> (\<forall>b. \<exists>v. m' b = set_nxt v (m b))"

context linked
begin

lemma only_links_refl: "only_links set_nxt A m m"
  using set_self by (auto simp: only_links_def) metis

lemma only_links_upd: "only_links set_nxt A m m' \<Longrightarrow> a \<in> A \<Longrightarrow> only_links set_nxt A m (link a v m')"
  by (auto simp: only_links_def upd_at_apply) (metis set_set)

lemma list_link_ok:
  assumes "llist nxt m h as" "d \<noteq> 0" "d \<notin> set as" "nxt (m d) = 0"
  shows "\<exists>h' m'. list_link nxt set_nxt d h m = Some (h', m') \<and> llist nxt m' h' (as @ [d]) \<and> only_links set_nxt (set as) m m'"
proof (cases "as = []")
  case True
  then show ?thesis using assms by (auto simp: list_link_def intro: only_links_refl)
next
  case False
  have "h \<noteq> 0" using assms(1) False by (cases as) auto
  then have "list_link nxt set_nxt d h m = Some (h, link (last as) d m)"
    using walk_tail_last [OF assms(1) False] by (simp add: list_link_def)
  moreover have "llist nxt (link (last as) d m) h (as @ [d])"
    by (rule llist_append [OF assms(1) False assms(2-4)])
  moreover have "only_links set_nxt (set as) m (link (last as) d m)"
    using False by (intro only_links_upd only_links_refl) auto
  ultimately show ?thesis by blast
qed

lemma list_append_ok:
  assumes "llist nxt m h as" "d \<noteq> 0" "d \<notin> set as"
  shows "\<exists>h' m'. list_append nxt set_nxt d h m = Some (h', m') \<and> llist nxt m' h' (as @ [d]) \<and> only_links set_nxt (insert d (set as)) m m'"
proof -
  let ?m = "link d 0 m"
  have "llist nxt ?m h as" using assms(1,3) by (simp add: lseg_link_other)
  from list_link_ok [OF this assms(2,3)] obtain h' m' where
    "list_link nxt set_nxt d h ?m = Some (h', m')" "llist nxt m' h' (as @ [d])" "only_links set_nxt (set as) ?m m'" by auto
  moreover from this(3) have "only_links set_nxt (insert d (set as)) m m'"
    by (auto simp: only_links_def upd_at_apply) (metis set_set)
  ultimately show ?thesis by (simp add: list_append_def)
qed

lemma remove_loop_ok:
  assumes "d \<noteq> 0"
  shows "llist nxt m t (t # qs) \<Longrightarrow> d \<noteq> t \<Longrightarrow> distinct (t # qs) \<Longrightarrow>
    \<exists>m'. remove_loop nxt set_nxt d t m = Some (d \<in> set qs, m') \<and> llist nxt m' t (t # remove1 d qs) \<and> only_links set_nxt (set (t # qs)) m m'"
proof (induction qs arbitrary: t)
  case Nil
  then show ?case by (subst remove_loop.simps) (simp add: only_links_refl)
next
  case (Cons q qs)
  have q: "nxt (m t) = q" "q \<noteq> 0" "llist nxt m q (q # qs)" "t \<noteq> 0" using Cons.prems(1) by auto
  show ?case
  proof (cases "q = d")
    case True
    let ?m = "link d 0 (link t (nxt (m d)) m)"
    have rl: "remove_loop nxt set_nxt d t m = Some (True, ?m)"
      using True q by (subst remove_loop.simps) simp
    have "llist nxt (link t (nxt (m d)) m) t ([t] @ qs)"
      using llist_unlink [of m t "[t]" d qs] Cons.prems(1) True by simp
    moreover have "d \<notin> set (t # qs)" using Cons.prems(2,3) True by auto
    ultimately have "llist nxt ?m t (t # qs)" unfolding append_Cons append_Nil by (rule iffD2 [OF lseg_link_other, rotated])
    moreover have "only_links set_nxt (set (t # q # qs)) m ?m"
      using True by (intro only_links_upd only_links_refl) auto
    ultimately show ?thesis using True rl by auto
  next
    case False
    have "distinct (q # qs)" using Cons.prems(3) by simp
    then obtain m' where m': "remove_loop nxt set_nxt d q m = Some (d \<in> set qs, m')" "llist nxt m' q (q # remove1 d qs)"
      "only_links set_nxt (set (q # qs)) m m'"
      using Cons.IH [OF q(3)] False by auto
    have "t \<notin> set (q # qs)" using Cons.prems(3) by simp
    then have "m' t = m t" using m'(3) by (simp add: only_links_def)
    then have "llist nxt m' t (t # q # remove1 d qs)" using m'(2) q by simp
    moreover have "remove_loop nxt set_nxt d t m = Some (d \<in> set (q # qs), m')"
      using q False m'(1) by (subst remove_loop.simps) auto
    moreover have "only_links set_nxt (set (t # q # qs)) m m'" using m'(3) by (simp add: only_links_def)
    ultimately show ?thesis using False by auto
  qed
qed

lemma list_remove_ok:
  assumes "llist nxt m h as" "d \<noteq> 0"
  shows "\<exists>h' m'. list_remove nxt set_nxt d h m = Some (d \<in> set as, h', m') \<and> llist nxt m' h' (remove1 d as) \<and> only_links set_nxt (set as) m m'"
proof (cases as)
  case Nil
  then show ?thesis using assms by (simp add: list_remove_def only_links_refl)
next
  case (Cons a qs)
  have l: "llist nxt m h (h # qs)" "a = h" "h \<noteq> 0" using assms(1) Cons by auto
  have d: "distinct (h # qs)" by (rule llist_distinct [OF l(1)])
  show ?thesis
  proof (cases "d = h")
    case True
    have "llist nxt (link d 0 m) (nxt (m d)) qs" using l(1) d True by (simp add: lseg_link_other)
    then show ?thesis using True Cons l assms(2)
      by (auto simp: list_remove_def intro!: only_links_upd only_links_refl)
  next
    case False
    then show ?thesis using remove_loop_ok [OF assms(2) l(1) False d] l(2,3) Cons
      by (auto simp: list_remove_def)
  qed
qed

end

end
