(* ===== verification/Sched.thy ===== *)
theory Sched
  imports Task Linked
begin

text \<open>
  The scheduler, \<open>kernel/sched.c\<close>: the ready queue and the sleep queue, both linked through the
  \<open>next_task\<close> field, the running task, and the switch between tasks. Every access through a
  null task pointer is a \<open>Fault\<close>.
\<close>

section \<open>State\<close>

record cpu_regs =
  r_eip :: u32
  r_esp :: u32
  r_ebp :: u32

record sched = tasking +
  ready_queue_head :: addr
  ready_queue_tail :: addr
  sleep_queue_head :: addr
  sleep_queue_tail :: addr
  running_task :: addr
  scheduling_enabled :: bool
  ticks :: u32
  interrupts :: bool
  cpu :: cpu_regs
  the_cr3 :: u32
  phys_of_pd :: "addr \<Rightarrow> u32"

definition KERNEL_SCHED_HZ :: u32 where "KERNEL_SCHED_HZ = 1000"

text \<open>A write through a task pointer.\<close>

definition set_task :: "addr \<Rightarrow> (task_t \<Rightarrow> task_t) \<Rightarrow> sched \<Rightarrow> sched result" where
  "set_task t f s = (if t = 0 then Inl (Fault ''null task'') else Inr (upd_task f t s))"

section \<open>Queues\<close>

definition find_task :: "u32 \<Rightarrow> sched \<Rightarrow> addr result option" where
  "find_task n s =
     (if running_task s = 0 then Some (Inl (Fault ''null task''))
      else if pid (task s (running_task s)) = n then Some (Inr (running_task s))
      else case walk_find next_task (\<lambda>x. pid x = n) (task s) (ready_queue_head s) of
          None \<Rightarrow> None
        | Some t \<Rightarrow>
            if t \<noteq> 0 then Some (Inr t)
            else map_option Inr (walk_find next_task (\<lambda>x. pid x = n) (task s) (sleep_queue_head s)))"

definition enqueue_ready_task :: "addr \<Rightarrow> sched \<Rightarrow> sched result" where
  "enqueue_ready_task t s =
     (if ready_queue_head s = 0 \<and> ready_queue_tail s = 0
      then Inr (s\<lparr>ready_queue_head := t, ready_queue_tail := t\<rparr>)
      else rbind (set_task (ready_queue_tail s) (\<lambda>x. x\<lparr>next_task := t\<rparr>) s) (\<lambda>s.
        Inr (s\<lparr>ready_queue_tail := t\<rparr>)))"

definition get_next_ready_task :: "sched \<Rightarrow> (addr \<times> sched) result" where
  "get_next_ready_task s =
     (let t = ready_queue_head s in
      if ready_queue_head s = 0 then Inl (Panic ''sched: ready queue should never be empty!'')
      else
        let s = (if ready_queue_head s = ready_queue_tail s
                 then s\<lparr>ready_queue_head := 0, ready_queue_tail := 0\<rparr>
                 else s\<lparr>ready_queue_head := next_task (task s (ready_queue_head s))\<rparr>)
        in rbind (set_task t (\<lambda>x. x\<lparr>next_task := 0\<rparr>) s) (\<lambda>s. Inr (t, s)))"

text \<open>
  The search of \<open>enqueue_sleep_task\<close>: \<open>None\<close> inside the result stands for reaching the end of
  the queue without an insertion, with the sum of all ticks.
\<close>

partial_function (option) sleep_search :: "u32 \<Rightarrow> addr \<Rightarrow> u32 \<Rightarrow> addr \<Rightarrow> addr \<Rightarrow> sched \<Rightarrow> (u32 option \<times> sched) result option" where
  "sleep_search target_ticks y acc x z s =
     (if z \<noteq> 0 then
        if acc < target_ticks \<and> acc + sleep_ticks (task s z) > target_ticks then
          Some (rbind (set_task x (\<lambda>t. t\<lparr>next_task := y\<rparr>) s) (\<lambda>s.
            rbind (set_task y (\<lambda>t. t\<lparr>next_task := z\<rparr>) s) (\<lambda>s.
            rbind (set_task y (\<lambda>t. t\<lparr>sleep_ticks := target_ticks - acc\<rparr>) s) (\<lambda>s.
            rbind (set_task z (\<lambda>t. t\<lparr>sleep_ticks := sleep_ticks t - sleep_ticks (task s y)\<rparr>) s) (\<lambda>s.
            Inr (None, s))))))
        else sleep_search target_ticks y (acc + sleep_ticks (task s z)) z (next_task (task s z)) s
      else Some (Inr (Some acc, s)))"

definition enqueue_sleep_task :: "addr \<Rightarrow> sched \<Rightarrow> sched result option" where
  "enqueue_sleep_task y s =
     (if sleep_queue_head s = 0 then
        Some (let s = s\<lparr>sleep_queue_head := y, sleep_queue_tail := y\<rparr> in set_task y (\<lambda>t. t\<lparr>next_task := 0\<rparr>) s)
      else
        let target_ticks = sleep_ticks (task s y) in
        map_option (\<lambda>r. rbind r (\<lambda>(found, s).
            case found of
              None \<Rightarrow> Inr s
            | Some acc \<Rightarrow>
                rbind (set_task (sleep_queue_tail s) (\<lambda>t. t\<lparr>next_task := y\<rparr>) s) (\<lambda>s.
                let s = s\<lparr>sleep_queue_tail := y\<rparr> in
                rbind (set_task y (\<lambda>t. t\<lparr>next_task := 0\<rparr>) s) (\<lambda>s.
                set_task y (\<lambda>t. t\<lparr>sleep_ticks := target_ticks - acc\<rparr>) s))))
          (sleep_search target_ticks y 0 0 (sleep_queue_head s) s))"

definition dequeue_sleep_task :: "sched \<Rightarrow> addr \<times> sched" where
  "dequeue_sleep_task s =
     (let t = sleep_queue_head s in
      if t \<noteq> 0 \<and> sleep_ticks (task s t) = 0 then
        let s = s\<lparr>sleep_queue_head := next_task (task s t)\<rparr>;
            s = (if sleep_queue_head s = 0 then s\<lparr>sleep_queue_tail := 0\<rparr> else s);
            s = upd_task (\<lambda>x. x\<lparr>next_task := 0\<rparr>) t s
        in (t, s)
      else (0, s))"

partial_function (option) wake_loop :: "sched \<Rightarrow> sched result option" where
  "wake_loop s =
     (let (t, s) = dequeue_sleep_task s in
      if t = 0 then Some (Inr s)
      else
        let s = upd_task (\<lambda>x. x\<lparr>state := TASK_READY\<rparr>) t s in
        case enqueue_ready_task t s of Inl e \<Rightarrow> Some (Inl e) | Inr s \<Rightarrow> wake_loop s)"

definition update_sleep_queue :: "sched \<Rightarrow> sched result option" where
  "update_sleep_queue s =
     (let s = (if sleep_queue_head s \<noteq> 0
               then upd_task (\<lambda>x. x\<lparr>sleep_ticks := sleep_ticks x - 1\<rparr>) (sleep_queue_head s) s else s)
      in wake_loop s)"

section \<open>Switching\<close>

text \<open>What becomes of the current task, and the choice of the next one.\<close>

definition requeue_running :: "sched \<Rightarrow> sched result option" where
  "requeue_running s =
     (let r = running_task s; st = state (task s r) in
      if r = 0 then Some (Inl (Fault ''null task''))
      else if st = TASK_RUNNING then Some (enqueue_ready_task r (upd_task (\<lambda>x. x\<lparr>state := TASK_READY\<rparr>) r s))
      else if st = TASK_DESTROY then Some (enqueue_ready_task r s)
      else if st = TASK_SLEEPING then enqueue_sleep_task r s
      else Some (Inl (Panic ''sched: how did you reach here???'')))"

partial_function (option) pick_loop :: "sched \<Rightarrow> sched result option" where
  "pick_loop s =
     (case get_next_ready_task s of
        Inl e \<Rightarrow> Some (Inl e)
      | Inr (t, s) \<Rightarrow>
          if state (task s t) = TASK_DESTROY
          then (case free_task t s of Inl e \<Rightarrow> Some (Inl e) | Inr s \<Rightarrow> pick_loop s)
          else Some (Inr (s\<lparr>running_task := t\<rparr>)))"

text \<open>Loading the chosen task: the jump into it is the update of \<open>cpu\<close> with its registers.\<close>

definition load_task :: "sched \<Rightarrow> sched" where
  "load_task s =
     (let t = running_task s;
          s = upd_task (\<lambda>x. x\<lparr>state := TASK_RUNNING\<rparr>) t s;
          s = s\<lparr>the_current_pd := page_dir (task s t)\<rparr>
      in s\<lparr>cpu := \<lparr>r_eip = eip (task s t), r_esp = esp (task s t), r_ebp = ebp (task s t)\<rparr>,
           the_cr3 := phys_of_pd s (the_current_pd s), interrupts := True\<rparr>)"

text \<open>\<open>regs\<close> is the snapshot \<open>read_esp\<close>, \<open>read_ebp\<close> and \<open>read_eip\<close> take.\<close>

definition switch_task :: "cpu_regs \<Rightarrow> sched \<Rightarrow> sched result option" where
  "switch_task regs s =
     (let s = s\<lparr>interrupts := False\<rparr> in
      if r_eip regs = 0x12345 then Some (Inr s)
      else if running_task s = 0 then Some (Inl (Fault ''null task''))
      else
        let r = running_task s;
            s = upd_task (\<lambda>x. x\<lparr>eip := r_eip regs\<rparr>) r s;
            s = upd_task (\<lambda>x. x\<lparr>esp := r_esp regs\<rparr>) r s;
            s = upd_task (\<lambda>x. x\<lparr>ebp := r_ebp regs\<rparr>) r s
        in case requeue_running s of
             None \<Rightarrow> None
           | Some (Inl e) \<Rightarrow> Some (Inl e)
           | Some (Inr s) \<Rightarrow> map_option (\<lambda>r. rbind r (\<lambda>s. Inr (load_task s))) (pick_loop (s\<lparr>running_task := 0\<rparr>)))"

section \<open>Entry points\<close>

definition sched_init :: "sched \<Rightarrow> sched result option" where
  "sched_init s =
     map_option (\<lambda>r. rbind r (\<lambda>(t, s).
        let s = s\<lparr>running_task := t\<rparr> in
        rbind (set_task t (\<lambda>x. x\<lparr>state := TASK_RUNNING\<rparr>) s) (\<lambda>s.
        rbind (set_task t (\<lambda>x. x\<lparr>next_task := 0\<rparr>) s) (\<lambda>s.
        Inr (s\<lparr>scheduling_enabled := True\<rparr>)))))
       (new_task s)"

definition do_scheduling :: "cpu_regs \<Rightarrow> sched \<Rightarrow> sched result option" where
  "do_scheduling regs s =
     (let s = s\<lparr>ticks := ticks s + 1\<rparr> in
      if scheduling_enabled s then
        case set_task (running_task s) (\<lambda>x. x\<lparr>cpu_time := cpu_time x + 1\<rparr>) s of
          Inl e \<Rightarrow> Some (Inl e)
        | Inr s \<Rightarrow>
            (case update_sleep_queue s of
               None \<Rightarrow> None
             | Some (Inl e) \<Rightarrow> Some (Inl e)
             | Some (Inr s) \<Rightarrow> switch_task regs s)
      else Some (Inr s))"

definition create_kernel_task :: "u32 \<Rightarrow> sched \<Rightarrow> (u32 \<times> sched) result option" where
  "create_kernel_task func s =
     map_option (\<lambda>r. rbind r (\<lambda>(ktask, s).
        if ktask = 0 then Inr (0, s)
        else
          let s = upd_task (\<lambda>x. x\<lparr>ppid := 0\<rparr>) ktask s;
              s = upd_task (\<lambda>x. x\<lparr>eip := func\<rparr>) ktask s;
              s = upd_task (\<lambda>x. x\<lparr>state := TASK_READY\<rparr>) ktask s
          in rbind (enqueue_ready_task ktask s) (\<lambda>s. Inr (pid (task s ktask), s))))
       (new_task s)"

definition kill :: "u32 \<Rightarrow> sched \<Rightarrow> sched result option" where
  "kill n s =
     map_option (\<lambda>r. rbind r (\<lambda>t. if t = 0 then Inr s else set_task t (\<lambda>x. x\<lparr>state := TASK_DESTROY\<rparr>) s))
       (find_task n s)"

definition sched_yield :: "cpu_regs \<Rightarrow> sched \<Rightarrow> sched result option" where
  "sched_yield regs s = switch_task regs s"

definition sched_kill :: "cpu_regs \<Rightarrow> sched \<Rightarrow> sched result option" where
  "sched_kill regs s =
     (case set_task (running_task s) (\<lambda>x. x\<lparr>state := TASK_DESTROY\<rparr>) s of
        Inl e \<Rightarrow> Some (Inl e) | Inr s \<Rightarrow> switch_task regs s)"

text \<open>\<open>sleep\<close> and \<open>usleep\<close> differ in the number of ticks.\<close>

definition sleep_for :: "u32 \<Rightarrow> cpu_regs \<Rightarrow> sched \<Rightarrow> sched result option" where
  "sleep_for n regs s =
     (case set_task (running_task s) (\<lambda>x. x\<lparr>sleep_ticks := n\<rparr>) s of
        Inl e \<Rightarrow> Some (Inl e)
      | Inr s \<Rightarrow>
          (case set_task (running_task s) (\<lambda>x. x\<lparr>state := TASK_SLEEPING\<rparr>) s of
             Inl e \<Rightarrow> Some (Inl e) | Inr s \<Rightarrow> switch_task regs s))"

definition sleep :: "u32 \<Rightarrow> cpu_regs \<Rightarrow> sched \<Rightarrow> sched result option" where
  "sleep seconds = sleep_for (KERNEL_SCHED_HZ * seconds + 1)"

definition usleep :: "u32 \<Rightarrow> cpu_regs \<Rightarrow> sched \<Rightarrow> sched result option" where
  "usleep millis = sleep_for ((KERNEL_SCHED_HZ * millis) div 1000 + 1)"

text \<open>The fields \<open>print_task\<close> prints, and the tasks \<open>sched_print_info\<close> prints in order.\<close>

definition print_task :: "addr \<Rightarrow> sched \<Rightarrow> u32 list" where
  "print_task t s = [pid (task s t), ppid (task s t), state (task s t), cpu_time (task s t), sleep_ticks (task s t)]"

partial_function (option) print_queue :: "addr \<Rightarrow> addr \<Rightarrow> sched \<Rightarrow> u32 list list \<Rightarrow> u32 list list option" where
  "print_queue t stop s out =
     (if t \<noteq> 0 \<and> t \<noteq> stop then print_queue (next_task (task s t)) stop s (out @ [print_task t s]) else Some out)"

definition sched_print_info :: "sched \<Rightarrow> (bool \<times> u32 list list) result option" where
  "sched_print_info s =
     (if running_task s = 0 then Some (Inl (Fault ''null task''))
      else case print_queue (ready_queue_head s) (running_task s) s [print_task (running_task s) s] of
          None \<Rightarrow> None
        | Some out \<Rightarrow> map_option (\<lambda>out. Inr (scheduling_enabled s, out)) (print_queue (sleep_queue_head s) 0 s out))"

end
