(* ===== verification/Sched_Spec.thy ===== *)
theory Sched_Spec
  imports Sched
begin

text \<open>
  Correctness of the scheduler: the ready queue is a FIFO list, a switch serves the tasks round
  robin and frees the tasks marked for destruction, sleeping tasks keep their wake-up times.
\<close>

interpretation tq: linked next_task "\<lambda>v. next_task_update (\<lambda>_. v)"
  by unfold_locales simp_all

section \<open>Queues as lists\<close>

text \<open>\<open>queues s rs ss\<close>: the ready queue holds the tasks \<open>rs\<close>, the sleep queue the tasks \<open>ss\<close>.\<close>

definition queues :: "sched \<Rightarrow> addr list \<Rightarrow> addr list \<Rightarrow> bool" where
  "queues s rs ss \<longleftrightarrow>
     llist next_task (task s) (ready_queue_head s) rs \<and> ready_queue_tail s = last_or_null rs \<and>
     llist next_task (task s) (sleep_queue_head s) ss \<and> sleep_queue_tail s = last_or_null ss \<and>
     set rs \<inter> set ss = {}"

lemma queuesD:
  assumes "queues s rs ss"
  shows "distinct rs" "distinct ss" "0 \<notin> set rs" "0 \<notin> set ss" "ready_queue_head s = head_or_null rs"
    "sleep_queue_head s = head_or_null ss" "ready_queue_tail s = last_or_null rs" "sleep_queue_tail s = last_or_null ss"
    "set rs \<inter> set ss = {}"
  using assms unfolding queues_def by (auto dest: llist_distinct lseg_nonnull llist_head)

lemma queues_unique: "queues s rs ss \<Longrightarrow> queues s rs' ss' \<Longrightarrow> rs' = rs \<and> ss' = ss"
  unfolding queues_def using llist_unique by blast

text \<open>The queues depend only on the links and the four pointers.\<close>

lemma queues_cong:
  assumes "\<And>a. a \<in> set rs \<union> set ss \<Longrightarrow> next_task (task s' a) = next_task (task s a)"
    "ready_queue_head s' = ready_queue_head s" "ready_queue_tail s' = ready_queue_tail s"
    "sleep_queue_head s' = sleep_queue_head s" "sleep_queue_tail s' = sleep_queue_tail s"
  shows "queues s' rs ss = queues s rs ss"
proof -
  have "lseg next_task (task s') h rs k = lseg next_task (task s) h rs k"
    "lseg next_task (task s') h ss k = lseg next_task (task s) h ss k" for h k
    using assms(1) by (auto intro!: lseg_cong)
  with assms(2-5) show ?thesis by (simp add: queues_def)
qed

definition link_tail :: "addr list \<Rightarrow> addr \<Rightarrow> (addr \<Rightarrow> task_t) \<Rightarrow> (addr \<Rightarrow> task_t)" where
  "link_tail as v m = (if as = [] then m else upd_at (next_task_update (\<lambda>_. v)) (last as) m)"

lemma link_tail_fields [simp]:
  "pid (link_tail as v m a) = pid (m a)" "state (link_tail as v m a) = state (m a)"
  "stack (link_tail as v m a) = stack (m a)" "sleep_ticks (link_tail as v m a) = sleep_ticks (m a)"
  "eip (link_tail as v m a) = eip (m a)" "esp (link_tail as v m a) = esp (m a)" "ebp (link_tail as v m a) = ebp (m a)"
  "page_dir (link_tail as v m a) = page_dir (m a)" "cpu_time (link_tail as v m a) = cpu_time (m a)"
  "ppid (link_tail as v m a) = ppid (m a)"
  by (simp_all add: link_tail_def upd_at_apply)

lemma link_tail_other [simp]: "a \<notin> set as \<Longrightarrow> link_tail as v m a = m a"
  using last_in_set [of as] by (auto simp: link_tail_def upd_at_apply)

lemma set_task_ok [simp]: "t \<noteq> 0 \<Longrightarrow> set_task t f s = Inr (upd_task f t s)"
  by (simp add: set_task_def)

lemma enqueue_ready_eq:
  assumes "queues s rs ss"
  shows "enqueue_ready_task t s =
    Inr (s\<lparr>task := link_tail rs t (task s), ready_queue_head := head_or_null (rs @ [t]), ready_queue_tail := t\<rparr>)"
proof (cases "rs = []")
  case True
  then show ?thesis using queuesD(5,7) [OF assms] by (simp add: enqueue_ready_task_def link_tail_def)
next
  case False
  then have "last rs \<noteq> 0" using queuesD(3) [OF assms] last_in_set by metis
  with False queuesD(5,7) [OF assms] show ?thesis
    by (simp add: enqueue_ready_task_def link_tail_def last_or_null_def head_or_null_def upd_task_def)
qed

lemma enqueue_ready_queues:
  assumes "queues s rs ss" "t \<noteq> 0" "t \<notin> set rs" "t \<notin> set ss" "next_task (task s t) = 0"
  shows "queues (s\<lparr>task := link_tail rs t (task s), ready_queue_head := head_or_null (rs @ [t]), ready_queue_tail := t\<rparr>) (rs @ [t]) ss"
proof -
  have "a \<notin> set rs" if "a \<in> set ss" for a using that queuesD(9) [OF assms(1)] by auto
  then have ss: "lseg next_task (link_tail rs t (task s)) h ss k = lseg next_task (task s) h ss k" for h k
    by (intro lseg_cong) simp
  have rs: "llist next_task (link_tail rs t (task s)) (head_or_null (rs @ [t])) (rs @ [t])"
  proof (cases "rs = []")
    case True
    then show ?thesis using assms(2,5) by (simp add: link_tail_def)
  next
    case False
    moreover have "llist next_task (task s) (head_or_null (rs @ [t])) rs"
      using assms(1) False queuesD(5) [OF assms(1)] by (simp add: queues_def head_or_null_def)
    ultimately show ?thesis using assms(2-5) by (simp add: link_tail_def tq.llist_append)
  qed
  show ?thesis using assms rs by (auto simp: queues_def ss)
qed

lemma get_next_ready_eq:
  assumes "queues s (t # rs) ss"
  shows "get_next_ready_task s = Inr (t, s\<lparr>task := upd_at (next_task_update (\<lambda>_. 0)) t (task s),
    ready_queue_head := head_or_null rs, ready_queue_tail := last_or_null rs\<rparr>)"
proof -
  have q: "ready_queue_head s = t" "t \<noteq> 0" "t \<notin> set rs" using queuesD [OF assms] by auto
  have n: "next_task (task s t) = head_or_null rs" using assms llist_head by (force simp: queues_def)
  show ?thesis
  proof (cases "rs = []")
    case True
    then show ?thesis using q queuesD(7) [OF assms] by (simp add: get_next_ready_task_def last_or_null_def upd_task_def)
  next
    case False
    then have "ready_queue_tail s = last rs" "last rs \<noteq> t" using q(3) queuesD(7) [OF assms] last_in_set [OF False]
      by (auto simp: last_or_null_def)
    with False q n show ?thesis by (auto simp: get_next_ready_task_def last_or_null_def upd_task_def)
  qed
qed

lemma get_next_ready_queues:
  assumes "queues s (t # rs) ss"
  shows "queues (s\<lparr>task := upd_at (next_task_update (\<lambda>_. 0)) t (task s),
    ready_queue_head := head_or_null rs, ready_queue_tail := last_or_null rs\<rparr>) rs ss"
proof -
  have t: "t \<notin> set rs" "t \<notin> set ss" using queuesD [OF assms] by auto
  then have *: "lseg next_task (upd_at (next_task_update (\<lambda>_. 0)) t (task s)) h rs k = lseg next_task (task s) h rs k"
    "lseg next_task (upd_at (next_task_update (\<lambda>_. 0)) t (task s)) h ss k = lseg next_task (task s) h ss k" for h k
    using tq.lseg_link_other by blast+
  have "llist next_task (task s) (next_task (task s t)) rs" using assms by (auto simp: queues_def)
  then have "llist next_task (task s) (head_or_null rs) rs" using llist_head by force
  with assms show ?thesis by (auto simp: queues_def *)
qed

lemma get_next_ready_empty:
  "queues s [] ss \<Longrightarrow> get_next_ready_task s = Inl (Panic ''sched: ready queue should never be empty!'')"
  using queuesD(5) [of s "[]" ss] by (simp add: get_next_ready_task_def)

section \<open>Ownership of the heap blocks\<close>

text \<open>Every task of \<open>T\<close> owns two live blocks of the heap, its control block and its stack.\<close>

definition owned :: "'a tasking_scheme \<Rightarrow> addr set \<Rightarrow> bool" where
  "owned s T \<longleftrightarrow> heap_wf (k_heap s) \<and>
     (\<forall>t\<in>T. (\<exists>m. heap_live (k_heap s) t m) \<and> (\<exists>m. heap_live (k_heap s) (stack (task s t)) m) \<and>
        (\<forall>u\<in>T. stack (task s t) \<noteq> u \<and> (stack (task s t) = stack (task s u) \<longrightarrow> t = u)))"

definition blocks_of :: "'a tasking_scheme \<Rightarrow> addr set \<Rightarrow> addr set" where
  "blocks_of s T = T \<union> (\<lambda>t. stack (task s t)) ` T"

lemma ownedD:
  assumes "owned s T" "t \<in> T"
  shows "heap_wf (k_heap s)" "\<exists>m. heap_live (k_heap s) t m" "\<exists>m. heap_live (k_heap s) (stack (task s t)) m"
    "u \<in> T \<Longrightarrow> stack (task s t) \<noteq> u" "u \<in> T \<Longrightarrow> stack (task s t) = stack (task s u) \<Longrightarrow> t = u"
  using assms by (simp_all add: owned_def)

lemma owned_mono: "owned s T \<Longrightarrow> T' \<subseteq> T \<Longrightarrow> owned s T'"
  unfolding owned_def by blast

lemma owned_cong:
  "k_heap s' = k_heap s \<Longrightarrow> (\<And>t. t \<in> T \<Longrightarrow> stack (task s' t) = stack (task s t)) \<Longrightarrow> owned s' T = owned s T"
  unfolding owned_def by auto

lemma free_task_owned:
  assumes "owned s T" "t \<in> T"
  shows "\<exists>h. free_task t s = Inr (s\<lparr>k_heap := h\<rparr>) \<and> owned (s\<lparr>k_heap := h\<rparr>) (T - {t})
    \<and> (\<forall>q k. heap_live h q k \<longleftrightarrow> heap_live (k_heap s) q k \<and> q \<notin> blocks_of s {t})"
proof -
  let ?p = "stack (task s t)"
  obtain m mp where l: "heap_wf (k_heap s)" "heap_live (k_heap s) t m" "heap_live (k_heap s) ?p mp" "?p \<noteq> t"
    using assms unfolding owned_def by blast
  obtain h where h: "kfree (k_heap s) ?p = Inr h" "heap_wf h" "\<forall>q k. heap_live h q k \<longleftrightarrow> heap_live (k_heap s) q k \<and> q \<noteq> ?p"
    using km.free_live [OF l(1,3)] by blast
  have "heap_live h t m" using h(3) l(2,4) by simp
  then obtain h' where h': "kfree h t = Inr h'" "heap_wf h'" "\<forall>q k. heap_live h' q k \<longleftrightarrow> heap_live h q k \<and> q \<noteq> t"
    using km.free_live [OF h(2)] by blast
  have live: "heap_live h' q k \<longleftrightarrow> heap_live (k_heap s) q k \<and> q \<notin> blocks_of s {t}" for q k
    by (simp add: h(3) h'(3) blocks_of_def conj_ac)
  have keep: "u \<notin> blocks_of s {t} \<and> stack (task s u) \<notin> blocks_of s {t}" if u: "u \<in> T - {t}" for u
    using ownedD(4,5) [OF assms(1), of t u] ownedD(4,5) [OF assms(1), of u t] u assms(2)
    by (auto simp: blocks_of_def)
  have "owned (s\<lparr>k_heap := h'\<rparr>) (T - {t})"
    unfolding owned_def
  proof (intro conjI ballI, goal_cases)
    case 1
    show ?case using h'(2) by simp
  next
    case (2 u)
    then show ?case using ownedD(2) [OF assms(1), of u] keep [of u] by (auto simp: live)
  next
    case (3 u)
    then show ?case using ownedD(3) [OF assms(1), of u] keep [of u] by (auto simp: live)
  next
    case (4 u v)
    then show ?case using ownedD(4,5) [OF assms(1), of u v] by auto
  next
    case (5 u v)
    then show ?case using ownedD(5) [OF assms(1), of u v] by auto
  qed
  moreover have "free_task t s = Inr (s\<lparr>k_heap := h'\<rparr>)" using h(1) h'(1) by (simp add: free_task_def)
  ultimately show ?thesis using live by blast
qed

section \<open>Choosing the next task\<close>

definition destroyed :: "'a tasking_scheme \<Rightarrow> addr \<Rightarrow> bool" where
  "destroyed s t \<longleftrightarrow> state (task s t) = TASK_DESTROY"

text \<open>
  What \<open>pick_loop\<close> may change besides the ready queue: the heap and the links of tasks that leave
  the queue.
\<close>

definition same_tasks :: "sched \<Rightarrow> sched \<Rightarrow> bool" where
  "same_tasks s s' \<longleftrightarrow> (\<forall>a. (task s' a)\<lparr>next_task := 0\<rparr> = (task s a)\<lparr>next_task := 0\<rparr>) \<and>
     n_pid s' = n_pid s \<and> the_current_pd s' = the_current_pd s \<and> phys_of_pd s' = phys_of_pd s \<and>
     sleep_queue_head s' = sleep_queue_head s \<and> sleep_queue_tail s' = sleep_queue_tail s \<and>
     ticks s' = ticks s \<and> scheduling_enabled s' = scheduling_enabled s"

lemma same_tasks_fields:
  assumes "same_tasks s s'"
  shows "state (task s' a) = state (task s a)" "stack (task s' a) = stack (task s a)"
    "eip (task s' a) = eip (task s a)" "esp (task s' a) = esp (task s a)" "ebp (task s' a) = ebp (task s a)"
    "page_dir (task s' a) = page_dir (task s a)" "pid (task s' a) = pid (task s a)"
    "sleep_ticks (task s' a) = sleep_ticks (task s a)"
proof -
  have e: "(task s' a)\<lparr>next_task := 0\<rparr> = (task s a)\<lparr>next_task := 0\<rparr>" using assms by (simp add: same_tasks_def)
  show "state (task s' a) = state (task s a)" using arg_cong [OF e, of state] by simp
  show "stack (task s' a) = stack (task s a)" using arg_cong [OF e, of stack] by simp
  show "eip (task s' a) = eip (task s a)" using arg_cong [OF e, of eip] by simp
  show "esp (task s' a) = esp (task s a)" using arg_cong [OF e, of esp] by simp
  show "ebp (task s' a) = ebp (task s a)" using arg_cong [OF e, of ebp] by simp
  show "page_dir (task s' a) = page_dir (task s a)" using arg_cong [OF e, of page_dir] by simp
  show "pid (task s' a) = pid (task s a)" using arg_cong [OF e, of pid] by simp
  show "sleep_ticks (task s' a) = sleep_ticks (task s a)" using arg_cong [OF e, of sleep_ticks] by simp
qed

lemma same_tasks_trans: "same_tasks s s' \<Longrightarrow> same_tasks s' s'' \<Longrightarrow> same_tasks s s''"
  by (simp add: same_tasks_def)

lemma same_tasks_upd [simp]:
  "same_tasks s (u\<lparr>k_heap := h\<rparr>) = same_tasks s u" "same_tasks s (u\<lparr>running_task := t\<rparr>) = same_tasks s u"
  by (simp_all add: same_tasks_def)

lemma same_tasks_derived:
  assumes "same_tasks s s'"
  shows "destroyed s' = destroyed s" "blocks_of s' = blocks_of s"
  by (auto simp: destroyed_def blocks_of_def same_tasks_fields [OF assms])

lemma same_tasks_owned: "same_tasks s s' \<Longrightarrow> k_heap s' = k_heap s \<Longrightarrow> owned s' T = owned s T"
  by (rule owned_cong) (simp_all add: same_tasks_fields)

lemma queues_upd [simp]:
  "queues (s\<lparr>k_heap := h\<rparr>) rs ss = queues s rs ss" "queues (s\<lparr>running_task := t\<rparr>) rs ss = queues s rs ss"
  by (simp_all add: queues_def)

lemma owned_upd [simp]: "owned (s\<lparr>running_task := t\<rparr>) T = owned s T"
  by (simp add: owned_def)

lemma pop_ready:
  assumes "queues s (t # rs) ss"
  obtains u where "get_next_ready_task s = Inr (t, u)" "queues u rs ss" "next_task (task u t) = 0" "same_tasks s u"
    "k_heap u = k_heap s"
proof -
  let ?u = "s\<lparr>task := upd_at (next_task_update (\<lambda>_. 0)) t (task s),
    ready_queue_head := head_or_null rs, ready_queue_tail := last_or_null rs\<rparr>"
  have "same_tasks s ?u" by (simp add: same_tasks_def upd_at_apply)
  then show thesis
    using that [OF get_next_ready_eq [OF assms] get_next_ready_queues [OF assms]] by simp
qed

text \<open>The specification of the loop: the first task not marked for destruction runs next.\<close>

definition picked :: "sched \<Rightarrow> addr list \<Rightarrow> addr list \<Rightarrow> addr set \<Rightarrow> sched result option \<Rightarrow> bool" where
  "picked s rs ss T r \<longleftrightarrow>
     (case dropWhile (destroyed s) rs of
        [] \<Rightarrow> r = Some (Inl (Panic ''sched: ready queue should never be empty!''))
      | t # rs' \<Rightarrow> \<exists>s'. r = Some (Inr s') \<and> running_task s' = t \<and> queues s' rs' ss \<and>
          next_task (task s' t) = 0 \<and> same_tasks s s' \<and> owned s' (T - set (takeWhile (destroyed s) rs)) \<and>
          (\<forall>q k. heap_live (k_heap s') q k \<longleftrightarrow>
             heap_live (k_heap s) q k \<and> q \<notin> blocks_of s (set (takeWhile (destroyed s) rs))))"

lemma picked_skip:
  assumes "picked s1 rs ss (T - {t}) r" "destroyed s t" "same_tasks s s1"
    "\<And>q k. heap_live (k_heap s1) q k \<longleftrightarrow> heap_live (k_heap s) q k \<and> q \<notin> blocks_of s {t}"
  shows "picked s (t # rs) ss T r"
proof -
  note e = same_tasks_derived [OF assms(3)]
  have b: "blocks_of s (insert t A) = blocks_of s {t} \<union> blocks_of s A" for A by (auto simp: blocks_of_def)
  have T: "T - {t} - A = T - insert t A" for A by blast
  show ?thesis
  proof (cases "dropWhile (destroyed s) rs")
    case Nil
    then show ?thesis using assms(1,2) e(1) unfolding picked_def by (simp del: dropWhile_eq_Nil_conv)
  next
    case (Cons x xs)
    then obtain s' where s': "r = Some (Inr s')" "running_task s' = x" "queues s' xs ss" "next_task (task s' x) = 0"
      "same_tasks s1 s'" "owned s' (T - insert t (set (takeWhile (destroyed s) rs)))"
      "\<And>q k. heap_live (k_heap s') q k \<longleftrightarrow> heap_live (k_heap s1) q k \<and> q \<notin> blocks_of s (set (takeWhile (destroyed s) rs))"
      using assms(1) by (auto simp: picked_def e T)
    have "same_tasks s s'" by (rule same_tasks_trans [OF assms(3) s'(5)])
    moreover have "heap_live (k_heap s') q k \<longleftrightarrow>
        heap_live (k_heap s) q k \<and> q \<notin> blocks_of s (insert t (set (takeWhile (destroyed s) rs)))" for q k
      using s'(7) assms(4) b [of "set (takeWhile (destroyed s) rs)"] by auto
    ultimately show ?thesis
      using s'(1-4,6) assms(2) Cons unfolding picked_def by simp
  qed
qed

lemma pick_loop_spec:
  "queues s rs ss \<Longrightarrow> owned s T \<Longrightarrow> set rs \<subseteq> T \<Longrightarrow> picked s rs ss T (pick_loop s)"
proof (induction rs arbitrary: s T)
  case Nil
  then show ?case by (subst pick_loop.simps) (simp add: get_next_ready_empty picked_def)
next
  case (Cons t rs)
  obtain u where u: "get_next_ready_task s = Inr (t, u)" "queues u rs ss" "next_task (task u t) = 0" "same_tasks s u"
    "k_heap u = k_heap s" by (rule pop_ready [OF Cons.prems(1)])
  note e = same_tasks_fields [OF u(4)] same_tasks_derived [OF u(4)]
  have own: "owned u T" using Cons.prems(2) same_tasks_owned [OF u(4,5)] by simp
  show ?case
  proof (cases "destroyed s t")
    case False
    then have "pick_loop s = Some (Inr (u\<lparr>running_task := t\<rparr>))"
      using u(1) e(1) by (subst pick_loop.simps) (simp add: destroyed_def)
    then show ?thesis using False u own by (simp add: picked_def blocks_of_def)
  next
    case True
    obtain h where h: "free_task t u = Inr (u\<lparr>k_heap := h\<rparr>)" "owned (u\<lparr>k_heap := h\<rparr>) (T - {t})"
      "\<forall>q k. heap_live h q k \<longleftrightarrow> heap_live (k_heap s) q k \<and> q \<notin> blocks_of s {t}"
      using free_task_owned [OF own, of t] Cons.prems(3) u(5) e(10) by auto
    have "pick_loop s = pick_loop (u\<lparr>k_heap := h\<rparr>)"
      using True u(1) h(1) e(1) by (subst pick_loop.simps) (simp add: destroyed_def)
    moreover have "set rs \<subseteq> T - {t}" using queuesD(1) [OF Cons.prems(1)] Cons.prems(3) by auto
    ultimately have "picked (u\<lparr>k_heap := h\<rparr>) rs ss (T - {t}) (pick_loop s)"
      using Cons.IH [OF _ h(2)] u(2) by simp
    then show ?thesis by (rule picked_skip [OF _ True]) (use u(4) h(3) in auto)
  qed
qed

section \<open>The invariant of the scheduler\<close>

definition sched_inv :: "sched \<Rightarrow> addr list \<Rightarrow> addr list \<Rightarrow> bool" where
  "sched_inv s rs ss \<longleftrightarrow> queues s rs ss \<and> running_task s \<noteq> 0 \<and> running_task s \<notin> set rs \<and> running_task s \<notin> set ss
     \<and> next_task (task s (running_task s)) = 0 \<and> owned s (insert (running_task s) (set rs \<union> set ss))"

text \<open>The states of the tasks: ready or marked in the ready queue, asleep or marked in the sleep queue.\<close>

definition states_ok :: "sched \<Rightarrow> addr list \<Rightarrow> addr list \<Rightarrow> bool" where
  "states_ok s rs ss \<longleftrightarrow>
     (\<forall>t\<in>set rs. state (task s t) = TASK_READY \<or> destroyed s t) \<and>
     (\<forall>t\<in>set ss. state (task s t) = TASK_SLEEPING \<or> destroyed s t) \<and>
     (state (task s (running_task s)) = TASK_RUNNING \<or> destroyed s (running_task s))"

definition context_of :: "sched \<Rightarrow> addr \<Rightarrow> cpu_regs" where
  "context_of s t = \<lparr>r_eip = eip (task s t), r_esp = esp (task s t), r_ebp = ebp (task s t)\<rparr>"

definition save_regs :: "cpu_regs \<Rightarrow> task_t \<Rightarrow> task_t" where
  "save_regs regs x = x\<lparr>eip := r_eip regs, esp := r_esp regs, ebp := r_ebp regs\<rparr>"

lemma save_regs_fields [simp]:
  "state (save_regs regs x) = state x" "stack (save_regs regs x) = stack x" "next_task (save_regs regs x) = next_task x"
  "page_dir (save_regs regs x) = page_dir x" "sleep_ticks (save_regs regs x) = sleep_ticks x"
  by (simp_all add: save_regs_def)

lemma load_task_sel [simp]:
  "running_task (load_task s) = running_task s" "k_heap (load_task s) = k_heap s"
  "cpu (load_task s) = context_of s (running_task s)"
  "task (load_task s) = upd_at (\<lambda>x. x\<lparr>state := TASK_RUNNING\<rparr>) (running_task s) (task s)"
  "the_cr3 (load_task s) = phys_of_pd s (page_dir (task s (running_task s)))"
  "ready_queue_head (load_task s) = ready_queue_head s" "ready_queue_tail (load_task s) = ready_queue_tail s"
  "scheduling_enabled (load_task s) = scheduling_enabled s"
  "sleep_queue_head (load_task s) = sleep_queue_head s" "sleep_queue_tail (load_task s) = sleep_queue_tail s"
  by (simp_all add: load_task_def Let_def context_of_def) (simp_all add: upd_task_def)

lemma upd_task_sched [simp]:
  "running_task (upd_task f t s) = running_task s" "ready_queue_head (upd_task f t s) = ready_queue_head s"
  "ready_queue_tail (upd_task f t s) = ready_queue_tail s" "sleep_queue_head (upd_task f t s) = sleep_queue_head s"
  "sleep_queue_tail (upd_task f t s) = sleep_queue_tail s" "phys_of_pd (upd_task f t s) = phys_of_pd s"
  "interrupts (upd_task f t s) = interrupts s" "scheduling_enabled (upd_task f t s) = scheduling_enabled s"
  "ticks (upd_task f t s) = ticks s"
  by (simp_all add: upd_task_def)

lemma task_upd_task: "task (upd_task f t s) = upd_at f t (task s)"
  by (simp add: upd_task_def)

lemma switch_task_unfold:
  assumes "r_eip regs \<noteq> 0x12345" "running_task s \<noteq> 0"
  shows "switch_task regs s =
    (case requeue_running (upd_task (save_regs regs) (running_task s) (s\<lparr>interrupts := False\<rparr>)) of
       None \<Rightarrow> None
     | Some (Inl e) \<Rightarrow> Some (Inl e)
     | Some (Inr s) \<Rightarrow> map_option (\<lambda>r. rbind r (\<lambda>s. Inr (load_task s))) (pick_loop (s\<lparr>running_task := 0\<rparr>)))"
  using assms by (simp add: switch_task_def Let_def upd_task_def upd_at_def save_regs_def comp_def)

text \<open>The second half of a switch, from the queues on.\<close>

lemma switch_finish:
  assumes "queues s rs ss" "owned s T" "set rs \<union> set ss \<subseteq> T" "dropWhile (destroyed s) rs = t # rs'"
  shows "\<exists>s'. map_option (\<lambda>r. rbind r (\<lambda>s. Inr (load_task s))) (pick_loop (s\<lparr>running_task := 0\<rparr>)) = Some (Inr s')
    \<and> running_task s' = t \<and> sched_inv s' rs' ss \<and> cpu s' = context_of s t \<and> the_cr3 s' = phys_of_pd s (page_dir (task s t))
    \<and> (\<forall>a. state (task s' a) = (if a = t then TASK_RUNNING else state (task s a)))
    \<and> (\<forall>a. context_of s' a = context_of s a) \<and> (\<forall>a. sleep_ticks (task s' a) = sleep_ticks (task s a))
    \<and> (\<forall>a. stack (task s' a) = stack (task s a)) \<and> scheduling_enabled s' = scheduling_enabled s
    \<and> (\<forall>q k. heap_live (k_heap s') q k \<longleftrightarrow>
         heap_live (k_heap s) q k \<and> q \<notin> blocks_of s (set (takeWhile (destroyed s) rs)))"
proof -
  let ?s = "s\<lparr>running_task := 0\<rparr>"
  have e: "destroyed ?s = destroyed s" "blocks_of ?s = blocks_of s"
    by (auto simp: destroyed_def blocks_of_def)
  obtain u where u: "pick_loop ?s = Some (Inr u)" "running_task u = t" "queues u rs' ss" "next_task (task u t) = 0"
      "same_tasks ?s u" "owned u (T - set (takeWhile (destroyed s) rs))"
      "\<And>q k. heap_live (k_heap u) q k \<longleftrightarrow> heap_live (k_heap s) q k \<and> q \<notin> blocks_of s (set (takeWhile (destroyed s) rs))"
    using pick_loop_spec [of ?s rs ss T] assms by (auto simp: picked_def e)
  have rs: "rs = takeWhile (destroyed s) rs @ t # rs'" using assms(4) takeWhile_dropWhile_id [of "destroyed s" rs] by simp
  have d: "distinct rs" "set rs \<inter> set ss = {}" "0 \<notin> set rs" using queuesD [OF assms(1)] by blast+
  have t: "t \<noteq> 0" "t \<notin> set rs'" "t \<notin> set ss" "insert t (set rs' \<union> set ss) \<subseteq> T - set (takeWhile (destroyed s) rs)"
  proof -
    define ds where "ds = takeWhile (destroyed s) rs"
    have "rs = ds @ t # rs'" using rs by (simp add: ds_def)
    with d assms(3) show "t \<noteq> 0" "t \<notin> set rs'" "t \<notin> set ss" "insert t (set rs' \<union> set ss) \<subseteq> T - set (takeWhile (destroyed s) rs)"
      unfolding ds_def [symmetric] by auto
  qed
  note f = same_tasks_fields [OF u(5), simplified]
  have "owned (load_task u) (insert t (set rs' \<union> set ss))"
    using owned_mono [OF u(6) t(4)] owned_cong [of "load_task u" u] by (simp add: upd_at_apply)
  moreover have "queues (load_task u) rs' ss"
    using u(3) queues_cong [of rs' ss "load_task u" u] by (simp add: upd_at_apply)
  ultimately have "sched_inv (load_task u) rs' ss" using u(2,4) t by (simp add: sched_inv_def)
  moreover have "phys_of_pd u = phys_of_pd s" "scheduling_enabled u = scheduling_enabled s"
    using u(5) by (simp_all add: same_tasks_def)
  ultimately show ?thesis using u(1,2,7)
    by (intro exI [of _ "load_task u"]) (simp add: f context_of_def upd_at_apply)
qed

section \<open>Switching away from a task that stays ready or is marked\<close>

text \<open>The state after the current task went back to the ready queue.\<close>

definition requeued :: "cpu_regs \<Rightarrow> sched \<Rightarrow> addr list \<Rightarrow> addr list \<Rightarrow> sched \<Rightarrow> bool" where
  "requeued regs s rs ss s2 \<longleftrightarrow>
     (let r = running_task s in
      queues s2 (rs @ [r]) ss \<and> owned s2 (insert r (set rs \<union> set ss)) \<and> k_heap s2 = k_heap s \<and> phys_of_pd s2 = phys_of_pd s
      \<and> scheduling_enabled s2 = scheduling_enabled s
      \<and> (\<forall>a. state (task s2 a) = (if a = r \<and> state (task s r) = TASK_RUNNING then TASK_READY else state (task s a)))
      \<and> (\<forall>a. context_of s2 a = (if a = r then regs else context_of s a))
      \<and> (\<forall>a. page_dir (task s2 a) = page_dir (task s a) \<and> stack (task s2 a) = stack (task s a)
            \<and> sleep_ticks (task s2 a) = sleep_ticks (task s a)))"

lemma requeue_ready:
  assumes "sched_inv s rs ss" "state (task s (running_task s)) = TASK_RUNNING \<or> destroyed s (running_task s)"
  shows "\<exists>s2. requeue_running (upd_task (save_regs regs) (running_task s) (s\<lparr>interrupts := False\<rparr>)) = Some (Inr s2)
    \<and> requeued regs s rs ss s2"
proof -
  let ?r = "running_task s"
  let ?st = "if state (task s ?r) = TASK_RUNNING then TASK_READY else state (task s ?r)"
  let ?u = "upd_task (\<lambda>x. (save_regs regs x)\<lparr>state := ?st\<rparr>) ?r (s\<lparr>interrupts := False\<rparr>)"
  have inv: "queues s rs ss" "?r \<noteq> 0" "?r \<notin> set rs" "?r \<notin> set ss" "next_task (task s ?r) = 0"
    "owned s (insert ?r (set rs \<union> set ss))" using assms(1) by (simp_all add: sched_inv_def)
  have "queues ?u rs ss" using inv(1) queues_cong [of rs ss ?u s] by (simp add: task_upd_task upd_at_apply)
  note q = enqueue_ready_eq [OF this, of ?r] enqueue_ready_queues [OF this inv(2-4)]
  let ?s2 = "?u\<lparr>task := link_tail rs ?r (task ?u), ready_queue_head := head_or_null (rs @ [?r]), ready_queue_tail := ?r\<rparr>"
  have "requeue_running (upd_task (save_regs regs) ?r (s\<lparr>interrupts := False\<rparr>)) = Some (enqueue_ready_task ?r ?u)"
    using inv(2) assms(2)
    by (auto simp: requeue_running_def Let_def destroyed_def task_states upd_task_def upd_at_def comp_def save_regs_def)
  then have "requeue_running (upd_task (save_regs regs) ?r (s\<lparr>interrupts := False\<rparr>)) = Some (Inr ?s2)"
    using q(1) by simp
  moreover have "queues ?s2 (rs @ [?r]) ss" using q(2) inv(5) by (simp add: task_upd_task upd_at_apply)
  moreover have "owned ?s2 (insert ?r (set rs \<union> set ss))"
    using inv(6) owned_cong [of ?s2 s] by (simp add: task_upd_task upd_at_apply)
  moreover have "context_of ?s2 a = (if a = ?r then regs else context_of s a)" for a
    by (simp add: context_of_def task_upd_task upd_at_apply save_regs_def)
  ultimately show ?thesis
    unfolding requeued_def Let_def by (intro exI [of _ ?s2]) (simp add: task_upd_task upd_at_apply)
qed

lemma requeued_destroyed: "requeued regs s rs ss s2 \<Longrightarrow> destroyed s2 = destroyed s \<and> blocks_of s2 = blocks_of s"
  by (intro conjI ext) (simp_all add: requeued_def Let_def destroyed_def blocks_of_def task_states)

lemma switch_ready:
  assumes "sched_inv s rs ss" "state (task s (running_task s)) = TASK_RUNNING \<or> destroyed s (running_task s)"
    "r_eip regs \<noteq> 0x12345" "dropWhile (destroyed s) (rs @ [running_task s]) = t # rs'"
  shows "\<exists>s'. switch_task regs s = Some (Inr s') \<and> running_task s' = t \<and> sched_inv s' rs' ss
    \<and> cpu s' = (if t = running_task s then regs else context_of s t)
    \<and> the_cr3 s' = phys_of_pd s (page_dir (task s t))
    \<and> (\<forall>a. state (task s' a) = (if a = t then TASK_RUNNING
         else if a = running_task s \<and> state (task s a) = TASK_RUNNING then TASK_READY else state (task s a)))
    \<and> (\<forall>a. context_of s' a = (if a = running_task s then regs else context_of s a))
    \<and> (\<forall>a. sleep_ticks (task s' a) = sleep_ticks (task s a))
    \<and> (\<forall>a. stack (task s' a) = stack (task s a)) \<and> scheduling_enabled s' = scheduling_enabled s
    \<and> (\<forall>q k. heap_live (k_heap s') q k \<longleftrightarrow>
         heap_live (k_heap s) q k \<and> q \<notin> blocks_of s (set (takeWhile (destroyed s) (rs @ [running_task s]))))"
proof -
  obtain s2 where s2: "requeue_running (upd_task (save_regs regs) (running_task s) (s\<lparr>interrupts := False\<rparr>)) = Some (Inr s2)"
    and q: "requeued regs s rs ss s2" using requeue_ready [OF assms(1,2)] by blast
  have r0: "running_task s \<noteq> 0" using assms(1) by (simp add: sched_inv_def)
  note d = requeued_destroyed [OF q]
  have q2: "queues s2 (rs @ [running_task s]) ss" "owned s2 (insert (running_task s) (set rs \<union> set ss))"
    using q by (simp_all add: requeued_def Let_def)
  have "dropWhile (destroyed s2) (rs @ [running_task s]) = t # rs'" using assms(4) d by simp
  from switch_finish [OF q2 _ this] obtain s' where s': "map_option (\<lambda>r. rbind r (\<lambda>s. Inr (load_task s))) (pick_loop (s2\<lparr>running_task := 0\<rparr>)) = Some (Inr s')"
    "running_task s' = t" "sched_inv s' rs' ss" "cpu s' = context_of s2 t" "the_cr3 s' = phys_of_pd s2 (page_dir (task s2 t))"
    "\<forall>a. state (task s' a) = (if a = t then TASK_RUNNING else state (task s2 a))"
    "\<forall>a. context_of s' a = context_of s2 a" "\<forall>a. sleep_ticks (task s' a) = sleep_ticks (task s2 a)"
    "\<forall>a. stack (task s' a) = stack (task s2 a)" "scheduling_enabled s' = scheduling_enabled s2"
    "\<forall>q k. heap_live (k_heap s') q k \<longleftrightarrow>
         heap_live (k_heap s2) q k \<and> q \<notin> blocks_of s2 (set (takeWhile (destroyed s2) (rs @ [running_task s])))"
    by auto
  have "switch_task regs s = Some (Inr s')" using switch_task_unfold [OF assms(3) r0] s2 s'(1) by simp
  then show ?thesis using s'(2-) q d by (intro exI [of _ s']) (simp add: requeued_def Let_def)
qed

lemma states_ok_switch:
  assumes "states_ok s rs ss" "dropWhile (destroyed s) (rs @ [running_task s]) = t # rs'" "sched_inv s rs ss"
    "\<forall>a. state (task s' a) = (if a = t then TASK_RUNNING
         else if a = running_task s \<and> state (task s a) = TASK_RUNNING then TASK_READY else state (task s a))"
    "running_task s' = t"
  shows "states_ok s' rs' ss"
proof -
  have "set (t # rs') \<subseteq> set (rs @ [running_task s])" using set_dropWhileD assms(2) by (metis subsetI)
  moreover have "distinct (t # rs')"
    using assms(2,3) queuesD(1) [of s rs ss] distinct_dropWhile [of "rs @ [running_task s]" "destroyed s"] by (auto simp: sched_inv_def)
  moreover have "t \<notin> set ss" "running_task s \<notin> set ss"
    using calculation(1) assms(3) queuesD(9) [of s rs ss] by (auto simp: sched_inv_def)
  ultimately have f: "t \<notin> set rs'" "t \<notin> set ss" "running_task s \<notin> set ss" "\<And>x. x \<in> set rs' \<Longrightarrow> x \<in> set rs \<or> x = running_task s"
    by auto
  show ?thesis
    unfolding states_ok_def
  proof (intro conjI ballI, goal_cases)
    case (1 x)
    then have "x \<noteq> t" using f(1) by auto
    with f(4) [OF 1] assms(1,4) show ?case by (auto simp: states_ok_def destroyed_def)
  next
    case (2 x)
    then have "x \<noteq> t" "x \<noteq> running_task s" using f(2,3) by auto
    with 2 assms(1,4) show ?case by (auto simp: states_ok_def destroyed_def)
  next
    case 3
    show ?case using assms(4,5) by simp
  qed
qed

section \<open>The sleep queue\<close>

text \<open>
  The queue stores for each task the ticks after its predecessor wakes. \<open>wakes d ss acc\<close> lists
  the tasks with the number of ticks until they wake, counted from now.
\<close>

fun wakes :: "(addr \<Rightarrow> nat) \<Rightarrow> addr list \<Rightarrow> nat \<Rightarrow> (addr \<times> nat) list" where
  "wakes d [] acc = []"
| "wakes d (a # as) acc = (a, acc + d a) # wakes d as (acc + d a)"

definition delta :: "sched \<Rightarrow> addr \<Rightarrow> nat" where
  "delta s t = unat (sleep_ticks (task s t))"

abbreviation ticks_total :: "sched \<Rightarrow> addr list \<Rightarrow> nat" where
  "ticks_total s ss \<equiv> sum_list (map (delta s) ss)"

lemma wakes_append: "wakes d (as @ bs) acc = wakes d as acc @ wakes d bs (acc + sum_list (map d as))"
  by (induction as arbitrary: acc) (simp_all add: add.assoc)

lemma wakes_cong: "(\<And>a. a \<in> set as \<Longrightarrow> d a = d' a) \<Longrightarrow> wakes d as acc = wakes d' as acc"
  by (induction as arbitrary: acc) auto

lemma total_cong: "(\<And>a. a \<in> set as \<Longrightarrow> delta s' a = delta s a) \<Longrightarrow> ticks_total s' as = ticks_total s as"
  by (induction as) auto

lemma wakes_sorted: "sorted (map snd (wakes d as acc)) \<and> (\<forall>w \<in> snd ` set (wakes d as acc). acc \<le> w)"
proof (induction as arbitrary: acc)
  case (Cons a as)
  from Cons.IH [of "acc + d a"] show ?case by auto
qed simp

lemma unat_acc:
  "unat (acc :: u32) + delta s z < 4294967296 \<Longrightarrow> unat (acc + sleep_ticks (task s z)) = unat acc + delta s z"
  by (simp add: delta_def unat_add32)

lemma sleep_search_skip:
  "lseg next_task (task s) z as k \<Longrightarrow> unat acc + ticks_total s as < 4294967296 \<Longrightarrow>
   unat acc + ticks_total s as \<le> unat T \<or> unat T \<le> unat acc \<Longrightarrow>
   \<exists>acc'. unat acc' = unat acc + ticks_total s as \<and>
     sleep_search T y acc x z s = sleep_search T y acc' (if as = [] then x else last as) k s"
proof (induction as arbitrary: z acc x)
  case (Cons a as)
  then have a: "z = a" "a \<noteq> 0" "lseg next_task (task s) (next_task (task s a)) as k" by auto
  let ?acc = "acc + sleep_ticks (task s a)"
  have ua: "unat ?acc = unat acc + delta s a" using Cons.prems(2) by (intro unat_acc) simp
  obtain acc' where acc': "unat acc' = unat ?acc + ticks_total s as"
      "sleep_search T y ?acc a (next_task (task s a)) s = sleep_search T y acc' (if as = [] then a else last as) k s"
    using Cons.IH [OF a(3), of ?acc a] Cons.prems(2,3) ua by auto
  have "\<not> (acc < T \<and> ?acc > T)" using Cons.prems(3) ua by (auto simp: less32_iff)
  then have "sleep_search T y acc x z s = sleep_search T y ?acc a (next_task (task s a)) s"
    using a(1,2) by (subst sleep_search.simps) auto
  with acc' ua show ?case by (intro exI [of _ acc']) auto
qed auto

lemma sleep_search_end: "sleep_search T y acc x 0 s = Some (Inr (Some acc, s))"
  by (subst sleep_search.simps) simp

lemma sleep_search_hit:
  assumes "z \<noteq> 0" "y \<noteq> 0" "y \<noteq> z" "acc < T" "acc + sleep_ticks (task s z) > T"
  shows "sleep_search T y acc x z s =
    (if x = 0 then Some (Inl (Fault ''null task''))
     else Some (Inr (None, s\<lparr>task :=
       upd_at (\<lambda>t. t\<lparr>sleep_ticks := sleep_ticks t - (T - acc)\<rparr>) z
        (upd_at (\<lambda>t. t\<lparr>sleep_ticks := T - acc\<rparr>) y
         (upd_at (next_task_update (\<lambda>_. z)) y
          (upd_at (next_task_update (\<lambda>_. y)) x (task s))))\<rparr>)))"
  using assms by (subst sleep_search.simps) (simp add: set_task_def upd_task_def)

text \<open>The links of a task put between two sleepers, and of one put behind the last.\<close>

lemma sleep_insert_queues:
  assumes q: "queues s rs (as @ z # bs)" and "as \<noteq> []" "y \<noteq> 0" "y \<notin> set rs" "y \<notin> set (as @ z # bs)"
    and nx: "\<And>a. next_task (m a) =
      next_task (upd_at (next_task_update (\<lambda>_. z)) y (upd_at (next_task_update (\<lambda>_. y)) (last as) (task s)) a)"
  shows "queues (s\<lparr>task := m\<rparr>) rs (as @ y # z # bs)"
proof -
  let ?m1 = "upd_at (next_task_update (\<lambda>_. z)) y (upd_at (next_task_update (\<lambda>_. y)) (last as) (task s))"
  have "llist next_task ?m1 (sleep_queue_head s) (as @ y # z # bs)"
    using tq.llist_insert [of "task s" "sleep_queue_head s" as "z # bs" y z] q assms(2,3,5) by (simp add: queues_def)
  then have sq: "llist next_task m (sleep_queue_head s) (as @ y # z # bs)" using nx lseg_cong [of _ next_task m ?m1] by simp
  have "last as \<notin> set rs" using queuesD(9) [OF q] last_in_set [OF assms(2)] by auto
  then have rq: "lseg next_task m h rs k = lseg next_task (task s) h rs k" for h k
    using assms(4) nx by (intro lseg_cong) (auto simp: upd_at_apply)
  show ?thesis using q assms(4) sq unfolding queues_def by (simp add: rq) (simp add: last_or_null_def)
qed

lemma sleep_append_queues:
  assumes q: "queues s rs ss" and "ss \<noteq> []" "y \<noteq> 0" "y \<notin> set rs" "y \<notin> set ss"
    and nx: "\<And>a. next_task (m a) =
      next_task (upd_at (next_task_update (\<lambda>_. y)) (last ss) (upd_at (next_task_update (\<lambda>_. 0)) y (task s)) a)"
  shows "queues (s\<lparr>task := m, sleep_queue_tail := y\<rparr>) rs (ss @ [y])"
proof -
  let ?m1 = "upd_at (next_task_update (\<lambda>_. y)) (last ss) (upd_at (next_task_update (\<lambda>_. 0)) y (task s))"
  have "llist next_task (upd_at (next_task_update (\<lambda>_. 0)) y (task s)) (sleep_queue_head s) ss"
    using q assms(5) by (simp add: queues_def tq.lseg_link_other)
  then have "llist next_task ?m1 (sleep_queue_head s) (ss @ [y])" using assms by (intro tq.llist_append) simp_all
  then have sq: "llist next_task m (sleep_queue_head s) (ss @ [y])" using nx lseg_cong [of _ next_task m ?m1] by simp
  have "last ss \<notin> set rs" using queuesD(9) [OF q] last_in_set [OF assms(2)] by auto
  then have rq: "lseg next_task m h rs k = lseg next_task (task s) h rs k" for h k
    using assms(4) nx by (intro lseg_cong) (auto simp: upd_at_apply)
  show ?thesis using q assms(4) sq unfolding queues_def by (simp add: rq)
qed

text \<open>Insertion behind the last task that wakes earlier, when the new wake-up time is not taken.\<close>

lemma enqueue_sleep_between:
  assumes q: "queues s rs (as @ z # bs)" and "as \<noteq> []" "y \<noteq> 0" "y \<notin> set rs" "y \<notin> set (as @ z # bs)"
    and T: "ticks_total s as < delta s y" "delta s y < ticks_total s as + delta s z" "ticks_total s (as @ z # bs) < 4294967296"
  shows "\<exists>s'. enqueue_sleep_task y s = Some (Inr s') \<and> queues s' rs (as @ y # z # bs)
    \<and> wakes (delta s') (as @ y # z # bs) 0 = wakes (delta s) as 0 @ (y, delta s y) # wakes (delta s) (z # bs) (ticks_total s as)"
proof -
  let ?T = "sleep_ticks (task s y)"
  obtain k where seg: "lseg next_task (task s) (sleep_queue_head s) as z" "z \<noteq> 0" "sleep_queue_head s \<noteq> 0"
    using q assms(2) by (cases as) (auto simp: queues_def lseg_append)
  obtain acc where acc: "unat acc = ticks_total s as"
      "sleep_search ?T y 0 0 (sleep_queue_head s) s = sleep_search ?T y acc (last as) z s"
    using sleep_search_skip [OF seg(1), of 0 ?T y 0] T assms(2) by (auto simp: delta_def)
  have l: "last as \<noteq> 0" using queuesD(4) [OF q] last_in_set [OF assms(2)] by auto
  have uz: "unat (acc + sleep_ticks (task s z)) = ticks_total s as + delta s z" using unat_acc [of acc s z] acc(1) T(3) by simp
  have ut: "unat (?T - acc) = delta s y - ticks_total s as" using T(1) acc(1) by (simp add: unat_sub32 delta_def)
  let ?m1 = "upd_at (next_task_update (\<lambda>_. z)) y (upd_at (next_task_update (\<lambda>_. y)) (last as) (task s))"
  let ?m = "upd_at (\<lambda>t. t\<lparr>sleep_ticks := sleep_ticks t - (?T - acc)\<rparr>) z (upd_at (\<lambda>t. t\<lparr>sleep_ticks := ?T - acc\<rparr>) y ?m1)"
  have yz: "y \<noteq> z" using assms(5) by auto
  have e: "enqueue_sleep_task y s = Some (Inr (s\<lparr>task := ?m\<rparr>))"
    using sleep_search_hit [OF seg(2) assms(3) yz, of acc ?T s "last as"] acc l seg(3) T(1,2) uz
    by (simp add: enqueue_sleep_task_def Let_def less32_iff delta_def)
  have qs: "queues (s\<lparr>task := ?m\<rparr>) rs (as @ y # z # bs)"
    by (rule sleep_insert_queues [OF assms(1-5)]) (simp add: upd_at_apply)
  have d: "delta (s\<lparr>task := ?m\<rparr>) a =
      (if a = z then delta s z - (delta s y - ticks_total s as) else if a = y then delta s y - ticks_total s as else delta s a)" for a
  proof -
    have "?T - acc \<le> sleep_ticks (task s z)" using ut T by (simp add: le32_iff delta_def)
    then show ?thesis using yz ut by (simp add: delta_def upd_at_apply unat_sub32 le32_iff)
  qed
  have dz: "z \<notin> set as" "z \<notin> set bs" using queuesD(2) [OF q] by auto
  have "wakes (delta (s\<lparr>task := ?m\<rparr>)) as 0 = wakes (delta s) as 0" "ticks_total (s\<lparr>task := ?m\<rparr>) as = ticks_total s as"
    "wakes (delta (s\<lparr>task := ?m\<rparr>)) bs w = wakes (delta s) bs w" for w
    using assms(5) dz d by (auto intro!: wakes_cong total_cong)
  then have "wakes (delta (s\<lparr>task := ?m\<rparr>)) (as @ y # z # bs) 0 = wakes (delta s) as 0 @ (y, delta s y) # wakes (delta s) (z # bs) (ticks_total s as)"
    using T yz by (simp add: wakes_append d add.commute)
  with e qs show ?thesis by blast
qed

text \<open>A wake-up time not before that of the last sleeper: the task goes to the end.\<close>

lemma enqueue_sleep_last:
  assumes q: "queues s rs ss" and "y \<noteq> 0" "y \<notin> set rs" "y \<notin> set ss"
    and T: "ticks_total s ss \<le> delta s y"
  shows "\<exists>s'. enqueue_sleep_task y s = Some (Inr s') \<and> queues s' rs (ss @ [y])
    \<and> wakes (delta s') (ss @ [y]) 0 = wakes (delta s) ss 0 @ [(y, delta s y)]"
proof (cases "ss = []")
  case True
  let ?s = "s\<lparr>sleep_queue_head := y, sleep_queue_tail := y, task := upd_at (next_task_update (\<lambda>_. 0)) y (task s)\<rparr>"
  have "enqueue_sleep_task y s = Some (Inr ?s)"
    using queuesD(6) [OF q] True assms(2) by (simp add: enqueue_sleep_task_def upd_task_def)
  moreover have "queues ?s rs [y]"
    using q True assms(2,3) by (auto simp: queues_def tq.lseg_link_other)
  ultimately show ?thesis using True by (auto simp: delta_def)
next
  case False
  let ?T = "sleep_ticks (task s y)"
  have seg: "llist next_task (task s) (sleep_queue_head s) ss" "sleep_queue_head s \<noteq> 0" "sleep_queue_tail s = last ss"
    using q False queuesD(4,6,8) [OF q] by (auto simp: queues_def head_or_null_def last_or_null_def)
  have l: "last ss \<noteq> 0" "last ss \<notin> set rs" "last ss \<noteq> y"
    using queuesD(4,9) [OF q] last_in_set [OF False] assms(4) by auto
  have "ticks_total s ss < 4294967296" using T unat_less_2p32 [of ?T] unfolding delta_def [of s y] by linarith
  then obtain acc where acc: "unat acc = ticks_total s ss"
      "sleep_search ?T y 0 0 (sleep_queue_head s) s = Some (Inr (Some acc, s))"
    using sleep_search_skip [OF seg(1), of 0 ?T y 0] T False
    by (auto simp: delta_def sleep_search_end)
  have ut: "unat (?T - acc) = delta s y - ticks_total s ss" using T acc(1) by (simp add: unat_sub32 delta_def)
  let ?m1 = "upd_at (next_task_update (\<lambda>_. y)) (last ss) (upd_at (next_task_update (\<lambda>_. 0)) y (task s))"
  let ?m = "upd_at (\<lambda>t. t\<lparr>sleep_ticks := ?T - acc\<rparr>) y ?m1"
  have "upd_at (\<lambda>t. t\<lparr>sleep_ticks := ?T - acc\<rparr>) y (upd_at (next_task_update (\<lambda>_. 0)) y (upd_at (next_task_update (\<lambda>_. y)) (last ss) (task s))) = ?m"
    using l(3) by (intro ext) (simp add: upd_at_apply)
  then have e: "enqueue_sleep_task y s = Some (Inr (s\<lparr>task := ?m, sleep_queue_tail := y\<rparr>))"
    using acc seg l(1) assms(2) by (simp add: enqueue_sleep_task_def Let_def upd_task_def)
  have qs: "queues (s\<lparr>task := ?m, sleep_queue_tail := y\<rparr>) rs (ss @ [y])"
    by (rule sleep_append_queues [OF q False assms(2-4)]) (simp add: upd_at_apply)
  have d: "delta (s\<lparr>task := ?m, sleep_queue_tail := y\<rparr>) a = (if a = y then delta s y - ticks_total s ss else delta s a)" for a
    using ut by (simp add: delta_def upd_at_apply)
  have "wakes (delta (s\<lparr>task := ?m, sleep_queue_tail := y\<rparr>)) ss 0 = wakes (delta s) ss 0"
    "ticks_total (s\<lparr>task := ?m, sleep_queue_tail := y\<rparr>) ss = ticks_total s ss"
    using assms(4) d by (auto intro!: wakes_cong total_cong)
  then have "wakes (delta (s\<lparr>task := ?m, sleep_queue_tail := y\<rparr>)) (ss @ [y]) 0 = wakes (delta s) ss 0 @ [(y, delta s y)]"
    using T by (simp add: wakes_append d)
  with e qs show ?thesis by blast
qed

lemma enqueue_sleep_first_faults:
  assumes "queues s rs (z # ss)" "0 < delta s y" "delta s y < delta s z"
  shows "enqueue_sleep_task y s = Some (Inl (Fault ''null task''))"
proof -
  have "sleep_queue_head s = z" "z \<noteq> 0" using queuesD(4,6) [OF assms(1)] by auto
  moreover have "sleep_search (sleep_ticks (task s y)) y 0 0 z s = Some (Inl (Fault ''null task''))"
    using assms(2,3) \<open>z \<noteq> 0\<close> by (subst sleep_search.simps) (simp add: less32_iff delta_def set_task_def)
  ultimately show ?thesis by (simp add: enqueue_sleep_task_def Let_def)
qed

lemma sleep_split:
  "acc < T \<Longrightarrow> T \<notin> snd ` set (wakes d ss acc) \<Longrightarrow> T < acc + sum_list (map d ss) \<Longrightarrow>
   \<exists>as z bs. ss = as @ z # bs \<and> acc + sum_list (map d as) < T \<and> T < acc + sum_list (map d as) + d z"
proof (induction ss arbitrary: acc)
  case (Cons a ss)
  show ?case
  proof (cases "T < acc + d a")
    case True
    with Cons.prems(1) show ?thesis by (intro exI [of _ "[]"]) auto
  next
    case False
    then have "acc + d a < T" using Cons.prems(2) by auto
    with Cons.IH [OF this] Cons.prems obtain as z bs where
      "ss = as @ z # bs" "acc + d a + sum_list (map d as) < T" "T < acc + d a + sum_list (map d as) + d z" by auto
    then show ?thesis by (intro exI [of _ "a # as"] exI [of _ z] exI [of _ bs]) auto
  qed
qed simp

section \<open>Waking up\<close>

text \<open>One task leaves the sleep queue for the ready queue.\<close>

definition woken :: "sched \<Rightarrow> sched \<Rightarrow> addr set \<Rightarrow> bool" where
  "woken s s' W \<longleftrightarrow>
     (\<forall>a. (task s' a)\<lparr>next_task := 0, state := 0\<rparr> = (task s a)\<lparr>next_task := 0, state := 0\<rparr>)
     \<and> (\<forall>a. state (task s' a) = (if a \<in> W then TASK_READY else state (task s a)))
     \<and> k_heap s' = k_heap s \<and> running_task s' = running_task s \<and> phys_of_pd s' = phys_of_pd s
     \<and> scheduling_enabled s' = scheduling_enabled s
     \<and> (\<forall>a. a \<notin> W \<longrightarrow> a \<noteq> ready_queue_tail s \<longrightarrow> task s' a = task s a)"

lemma dequeue_sleep_eq:
  assumes "queues s rs (t # ss)" "sleep_ticks (task s t) = 0"
  shows "dequeue_sleep_task s = (t, s\<lparr>task := upd_at (next_task_update (\<lambda>_. 0)) t (task s),
    sleep_queue_head := head_or_null ss, sleep_queue_tail := last_or_null ss\<rparr>)"
proof -
  have h: "sleep_queue_head s = t" "t \<noteq> 0" using queuesD(4,6) [OF assms(1)] by auto
  have "next_task (task s t) = head_or_null ss" using assms(1) llist_head by (force simp: queues_def)
  moreover have "ss \<noteq> [] \<Longrightarrow> head_or_null ss \<noteq> 0" using queuesD(4) [OF assms(1)] by (cases ss) auto
  moreover have "sleep_queue_tail s = (if ss = [] then t else last_or_null ss)"
    using queuesD(8) [OF assms(1)] by (simp add: last_or_null_def)
  ultimately show ?thesis using h assms(2)
    by (cases "ss = []") (auto simp: dequeue_sleep_task_def Let_def upd_task_def)
qed

lemma dequeue_sleep_queues:
  assumes "queues s rs (t # ss)"
  shows "queues (s\<lparr>task := upd_at (next_task_update (\<lambda>_. 0)) t (task s),
    sleep_queue_head := head_or_null ss, sleep_queue_tail := last_or_null ss\<rparr>) rs ss"
proof -
  have t: "t \<notin> set rs" "t \<notin> set ss" using queuesD [OF assms] by auto
  have "llist next_task (task s) (next_task (task s t)) ss" using assms by (auto simp: queues_def)
  then have "llist next_task (task s) (head_or_null ss) ss" using llist_head by force
  with assms t show ?thesis by (auto simp: queues_def tq.lseg_link_other)
qed

lemma wake_one:
  assumes q: "queues s rs (t # ss)" and "sleep_ticks (task s t) = 0"
  obtains s' where "wake_loop s = wake_loop s'" "queues s' (rs @ [t]) ss" "woken s s' {t}"
proof -
  let ?u = "s\<lparr>task := upd_at (next_task_update (\<lambda>_. 0)) t (task s),
    sleep_queue_head := head_or_null ss, sleep_queue_tail := last_or_null ss\<rparr>"
  let ?v = "upd_task (\<lambda>x. x\<lparr>state := TASK_READY\<rparr>) t ?u"
  have t: "t \<noteq> 0" "t \<notin> set rs" "t \<notin> set ss" using queuesD [OF q] by auto
  have "queues ?v rs ss"
    using dequeue_sleep_queues [OF q] queues_cong [of rs ss ?v ?u] by (simp add: task_upd_task upd_at_apply)
  note e = enqueue_ready_eq [OF this, of t] enqueue_ready_queues [OF this t]
  let ?w = "?v\<lparr>task := link_tail rs t (task ?v), ready_queue_head := head_or_null (rs @ [t]), ready_queue_tail := t\<rparr>"
  have "wake_loop s = wake_loop ?w"
    using dequeue_sleep_eq [OF assms] t(1) e(1) by (subst wake_loop.simps) (simp add: Let_def)
  moreover have "queues ?w (rs @ [t]) ss" using e(2) by (simp add: task_upd_task upd_at_apply)
  moreover have "woken s ?w {t}"
    using queuesD(7) [OF q] last_in_set [of rs] t
    by (auto simp: woken_def task_upd_task upd_at_apply link_tail_def last_or_null_def)
  ultimately show thesis by (rule that)
qed

lemma woken_fields:
  assumes "woken s s' W"
  shows "state (task s' a) = (if a \<in> W then TASK_READY else state (task s a))" "stack (task s' a) = stack (task s a)"
    "sleep_ticks (task s' a) = sleep_ticks (task s a)" "page_dir (task s' a) = page_dir (task s a)"
    "context_of s' a = context_of s a"
proof -
  have e: "(task s' a)\<lparr>next_task := 0, state := 0\<rparr> = (task s a)\<lparr>next_task := 0, state := 0\<rparr>"
    using assms by (simp add: woken_def)
  show "state (task s' a) = (if a \<in> W then TASK_READY else state (task s a))" using assms by (simp add: woken_def)
  show "stack (task s' a) = stack (task s a)" using arg_cong [OF e, of stack] by simp
  show "sleep_ticks (task s' a) = sleep_ticks (task s a)" using arg_cong [OF e, of sleep_ticks] by simp
  show "page_dir (task s' a) = page_dir (task s a)" using arg_cong [OF e, of page_dir] by simp
  show "context_of s' a = context_of s a"
    using arg_cong [OF e, of eip] arg_cong [OF e, of esp] arg_cong [OF e, of ebp] by (simp add: context_of_def)
qed

lemma woken_trans:
  assumes "woken s s1 A" "woken s1 s2 B" "ready_queue_tail s1 \<in> A"
  shows "woken s s2 (A \<union> B)"
  unfolding woken_def
proof (intro conjI allI impI, goal_cases)
  case (2 a)
  then show ?case using woken_fields(1) [OF assms(1)] woken_fields(1) [OF assms(2)] by simp
next
  case (7 a)
  then have "task s1 a = task s a" "task s2 a = task s1 a" using assms unfolding woken_def by auto
  then show ?case by simp
qed (use assms in \<open>simp_all add: woken_def\<close>)

lemma wake_loop_spec:
  "queues s rs ss \<Longrightarrow>
   \<exists>s'. wake_loop s = Some (Inr s') \<and> woken s s' (set (takeWhile (\<lambda>t. delta s t = 0) ss))
     \<and> queues s' (rs @ takeWhile (\<lambda>t. delta s t = 0) ss) (dropWhile (\<lambda>t. delta s t = 0) ss)"
proof (induction ss arbitrary: s rs)
  case Nil
  then have "sleep_queue_head s = 0" using queuesD(6) by fastforce
  then have "wake_loop s = Some (Inr s)" by (subst wake_loop.simps) (simp add: dequeue_sleep_task_def Let_def)
  with Nil show ?case by (simp add: woken_def)
next
  case (Cons t ss)
  show ?case
  proof (cases "delta s t = 0")
    case False
    then have "dequeue_sleep_task s = (0, s)"
      using queuesD(6) [OF Cons.prems] by (auto simp: dequeue_sleep_task_def Let_def delta_def)
    then have "wake_loop s = Some (Inr s)" by (subst wake_loop.simps) (simp add: Let_def)
    with False Cons.prems show ?thesis by (simp add: woken_def)
  next
    case True
    then have "sleep_ticks (task s t) = 0" by (simp add: delta_def unat_eq_0)
    then obtain s1 where s1: "wake_loop s = wake_loop s1" "queues s1 (rs @ [t]) ss" "woken s s1 {t}"
      by (rule wake_one [OF Cons.prems])
    have d: "delta s1 = delta s" using woken_fields(3) [OF s1(3)] by (auto simp: delta_def)
    obtain s' where s': "wake_loop s1 = Some (Inr s')" "woken s1 s' (set (takeWhile (\<lambda>t. delta s t = 0) ss))"
        "queues s' ((rs @ [t]) @ takeWhile (\<lambda>t. delta s t = 0) ss) (dropWhile (\<lambda>t. delta s t = 0) ss)"
      using Cons.IH [OF s1(2)] d by auto
    have "woken s s' (insert t (set (takeWhile (\<lambda>t. delta s t = 0) ss)))"
      using woken_trans [OF s1(3) s'(2)] queuesD(7) [OF s1(2)] by simp
    with True s1(1) s' show ?thesis by auto
  qed
qed

lemma wakes_pred:
  "(\<And>t. t \<in> set ss \<Longrightarrow> d' t = d t) \<Longrightarrow> 0 < acc \<Longrightarrow> wakes d' ss (acc - 1) = map (\<lambda>(t, w). (t, w - 1)) (wakes d ss acc)"
proof (induction ss arbitrary: acc)
  case (Cons t ss)
  have "acc - 1 + d t = acc + d t - 1" using Cons.prems(2) by simp
  moreover have "wakes d' ss (acc + d t - 1) = map (\<lambda>(t, w). (t, w - 1)) (wakes d ss (acc + d t))"
    using Cons by (intro Cons.IH) auto
  ultimately show ?case using Cons.prems(1) [of t] by simp
qed simp

lemma wakes_zeros: "(\<And>t. t \<in> set as \<Longrightarrow> d t = 0) \<Longrightarrow> wakes d as acc = map (\<lambda>t. (t, acc)) as"
  by (induction as arbitrary: acc) auto

lemma sum_zeros: "(\<And>t. t \<in> set as \<Longrightarrow> d t = (0 :: nat)) \<Longrightarrow> sum_list (map d as) = 0"
  by (induction as) auto

text \<open>
  One tick of the sleep queue, as an operation on the list of wake-up times: all times go down
  by one, and the tasks whose time is up leave the queue.
\<close>

definition ticked :: "sched \<Rightarrow> addr list \<Rightarrow> addr list \<Rightarrow> sched \<Rightarrow> addr list \<Rightarrow> addr list \<Rightarrow> bool" where
  "ticked s rs ss s' ws ss' \<longleftrightarrow> ss = ws @ ss' \<and> queues s' (rs @ ws) ss' \<and>
     (\<forall>t\<in>set ws. map_of (wakes (delta s) ss 0) t = Some 1) \<and>
     (\<forall>t\<in>set ss'. \<exists>w>1. map_of (wakes (delta s) ss 0) t = Some w) \<and>
     wakes (delta s') ss' 0 = map (\<lambda>(t, w). (t, w - 1)) (drop (length ws) (wakes (delta s) ss 0))"

lemma wakes_length [simp]: "length (wakes d ss acc) = length ss"
  by (induction ss arbitrary: acc) auto

lemma wakes_dom: "fst ` set (wakes d ss acc) = set ss"
  by (induction ss arbitrary: acc) auto

lemma wakes_map_of_append:
  "t \<notin> set as \<Longrightarrow> map_of (wakes d (as @ bs) acc) t = map_of (wakes d bs (acc + sum_list (map d as))) t"
proof -
  assume "t \<notin> set as"
  then have "map_of (wakes d as acc) t = None" by (simp add: map_of_eq_None_iff wakes_dom)
  then show ?thesis by (simp add: wakes_append map_add_def)
qed

lemma wakes_gt: "t \<in> set ss \<Longrightarrow> ss \<noteq> [] \<Longrightarrow> 0 < d (hd ss) \<Longrightarrow> \<exists>w>acc. map_of (wakes d ss acc) t = Some w"
proof -
  assume a: "t \<in> set ss" "ss \<noteq> []" "0 < d (hd ss)"
  obtain x xs where x: "ss = x # xs" using a(2) by (cases ss) auto
  show ?thesis
  proof (cases "t = x")
    case False
    then have "t \<in> fst ` set (wakes d xs (acc + d x))" using a(1) x by (simp add: wakes_dom)
    then obtain w where w: "map_of (wakes d xs (acc + d x)) t = Some w" by (metis map_of_eq_None_iff not_Some_eq)
    then have "w \<in> snd ` set (wakes d xs (acc + d x))" by (force dest: map_of_SomeD)
    then have "acc + d x \<le> w" using wakes_sorted by blast
    then show ?thesis using w a(3) x False by auto
  qed (use x a in auto)
qed

lemma ticked_intro:
  fixes u s :: sched
  defines "P \<equiv> \<lambda>t. delta u t = 0"
  assumes "distinct ss" "wakes (delta u) ss 0 = map (\<lambda>(t, w). (t, w - 1)) (wakes (delta s) ss 0)"
    "ss \<noteq> [] \<Longrightarrow> 0 < delta s (hd ss)" "queues s' (rs @ takeWhile P ss) (dropWhile P ss)" "delta s' = delta u"
  shows "ticked s rs ss s' (takeWhile P ss) (dropWhile P ss)"
proof -
  let ?ws = "takeWhile P ss" and ?ss = "dropWhile P ss"
  have ss: "ss = ?ws @ ?ss" by simp
  have dis: "set ?ws \<inter> set ?ss = {}" using assms(2) by (metis distinct_append ss)
  have zero: "delta u t = 0" if "t \<in> set ?ws" for t using set_takeWhileD [OF that] by (simp add: P_def)
  have split: "wakes (delta u) ss 0 = map (\<lambda>t. (t, 0)) ?ws @ wakes (delta u) ?ss 0"
    using wakes_append [of "delta u" ?ws ?ss 0] zero by (simp add: wakes_zeros sum_zeros)
  have pred: "map_of (wakes (delta u) ss 0) t = map_option (\<lambda>w. w - 1) (map_of (wakes (delta s) ss 0) t)" for t
    unfolding assms(3) by (simp add: map_of_map)
  have ws: "map_of (wakes (delta s) ss 0) t = Some 1" if t: "t \<in> set ?ws" for t
  proof -
    have "t \<in> set ss" using set_takeWhileD [OF t] by simp
    then obtain w where w: "0 < w" "map_of (wakes (delta s) ss 0) t = Some w"
      using wakes_gt [of t ss "delta s" 0] assms(4) by fastforce
    have "map_of (wakes (delta u) ss 0) t = Some 0"
      unfolding split using t dis by (auto simp: map_add_def map_of_eq_None_iff wakes_dom map_of_map_restrict split: option.splits)
    with pred [of t] w show ?thesis by simp
  qed
  have later: "\<exists>w>1. map_of (wakes (delta s) ss 0) t = Some w" if t: "t \<in> set ?ss" for t
  proof -
    have ne: "?ss \<noteq> []" using t by (metis empty_iff empty_set)
    then have "0 < delta u (hd ?ss)" using hd_dropWhile [OF ne] by (simp add: P_def)
    then obtain w where w: "0 < w" "map_of (wakes (delta u) ?ss 0) t = Some w"
      using wakes_gt [OF t ne] by blast
    have "t \<notin> set ?ws" using t dis by blast
    then have "map_of (wakes (delta u) ss 0) t = Some w"
      unfolding split using w(2) by (simp add: map_add_def map_of_map_restrict restrict_map_def)
    then show ?thesis using pred [of t] w(1) by (auto intro!: exI [of _ "Suc w"])
  qed
  have "wakes (delta u) ?ss 0 = drop (length ?ws) (wakes (delta u) ss 0)" unfolding split by simp
  then show ?thesis
    using ss assms(5,6) ws later by (simp add: ticked_def assms(3) drop_map)
qed

lemma update_sleep_spec:
  assumes q: "queues s rs ss" and pos: "ss \<noteq> [] \<Longrightarrow> 0 < delta s (hd ss)"
  shows "\<exists>s' ws ss'. update_sleep_queue s = Some (Inr s') \<and> ticked s rs ss s' ws ss' \<and> (ss' \<noteq> [] \<longrightarrow> 0 < delta s' (hd ss'))
    \<and> k_heap s' = k_heap s \<and> running_task s' = running_task s \<and> phys_of_pd s' = phys_of_pd s
    \<and> scheduling_enabled s' = scheduling_enabled s
    \<and> (\<forall>a. state (task s' a) = (if a \<in> set ws then TASK_READY else state (task s a)) \<and> stack (task s' a) = stack (task s a)
         \<and> context_of s' a = context_of s a \<and> page_dir (task s' a) = page_dir (task s a))
    \<and> (\<forall>a. a \<notin> set ss \<longrightarrow> a \<noteq> ready_queue_tail s \<longrightarrow> task s' a = task s a)"
proof (cases ss)
  case Nil
  then have "update_sleep_queue s = wake_loop s" using queuesD(6) [OF q] by (simp add: update_sleep_queue_def)
  then obtain s' where "update_sleep_queue s = Some (Inr s')" "woken s s' {}" "queues s' rs []"
    using wake_loop_spec [OF q] Nil by auto
  then show ?thesis
    using Nil woken_fields [of s s' "{}"] by (intro exI [of _ s'] exI [of _ "[]"]) (auto simp: ticked_def woken_def)
next
  case (Cons z zs)
  let ?u = "upd_task (\<lambda>x. x\<lparr>sleep_ticks := sleep_ticks x - 1\<rparr>) z s"
  have z: "sleep_queue_head s = z" "z \<noteq> 0" "z \<notin> set zs" using queuesD [OF q] Cons by auto
  have u: "update_sleep_queue s = wake_loop ?u" using z by (simp add: update_sleep_queue_def Let_def)
  have qu: "queues ?u rs ss" using q queues_cong [of rs ss ?u s] by (simp add: task_upd_task upd_at_apply)
  have pz: "0 < delta s z" using pos Cons by simp
  have d: "delta ?u t = (if t = z then delta s z - 1 else delta s t)" for t
    using pz unat_sub32 [of 1 "sleep_ticks (task s z)"] by (simp add: delta_def task_upd_task upd_at_apply)
  let ?P = "\<lambda>t. delta ?u t = 0"
  obtain s' where s': "wake_loop ?u = Some (Inr s')" "woken ?u s' (set (takeWhile ?P ss))"
      "queues s' (rs @ takeWhile ?P ss) (dropWhile ?P ss)"
    using wake_loop_spec [OF qu] by auto
  note f = woken_fields [OF s'(2)]
  have d': "delta s' = delta ?u" using f(3) by (auto simp: delta_def)
  have uf: "state (task ?u a) = state (task s a)" "stack (task ?u a) = stack (task s a)" "context_of ?u a = context_of s a"
    "page_dir (task ?u a) = page_dir (task s a)" for a
    by (simp_all add: task_upd_task upd_at_apply context_of_def)
  have tick: "wakes (delta ?u) ss 0 = map (\<lambda>(t, w). (t, w - 1)) (wakes (delta s) ss 0)"
  proof -
    have "delta ?u t = delta s t" if "t \<in> set zs" for t using that z(3) d by auto
    then have "wakes (delta ?u) zs (delta s z - 1) = map (\<lambda>(t, w). (t, w - 1)) (wakes (delta s) zs (delta s z))"
      using pz by (rule wakes_pred)
    then show ?thesis using Cons by (simp add: d)
  qed
  have "ticked s rs ss s' (takeWhile ?P ss) (dropWhile ?P ss)"
    using ticked_intro [of ss ?u s, OF _ tick] pos qu queuesD(2) [OF q] s'(3) d' by auto
  moreover have "dropWhile ?P ss \<noteq> [] \<Longrightarrow> 0 < delta s' (hd (dropWhile ?P ss))"
    using hd_dropWhile [of ?P ss] d' by simp
  moreover have "a \<notin> set ss \<Longrightarrow> a \<noteq> ready_queue_tail s \<Longrightarrow> task s' a = task s a" for a
    using s'(2) set_takeWhileD [of a ?P ss] Cons by (auto simp: woken_def task_upd_task upd_at_apply)
  moreover have "k_heap s' = k_heap s" "running_task s' = running_task s" "phys_of_pd s' = phys_of_pd s"
    "scheduling_enabled s' = scheduling_enabled s"
    using s'(2) by (simp_all add: woken_def)
  ultimately show ?thesis
    using u s'(1) f(1,2,4,5) unfolding uf by (intro exI [of _ s'] exI [of _ "takeWhile ?P ss"] exI [of _ "dropWhile ?P ss"]) auto
qed

section \<open>Creating tasks\<close>

lemma sched_more:
  assumes "tasking.more s' = tasking.more (s :: sched)"
  shows "ready_queue_head s' = ready_queue_head s" "ready_queue_tail s' = ready_queue_tail s"
    "sleep_queue_head s' = sleep_queue_head s" "sleep_queue_tail s' = sleep_queue_tail s"
    "running_task s' = running_task s" "scheduling_enabled s' = scheduling_enabled s"
  using assms by (cases s, cases s', simp)+

text \<open>A new task is outside of every set of tasks that own live blocks.\<close>

lemma new_task_owned:
  assumes "owned s T" "new_task s = Some (Inr (t, s'))" "t \<noteq> 0"
  shows "t \<notin> T" "owned s' (insert t T)" "task s' = (task s)(t := task s' t)" "tasking.more s' = tasking.more s"
    "next_task (task s' t) = 0" "pid (task s' t) = n_pid s" "state (task s' t) = TASK_STOPPED"
proof -
  have wf: "heap_wf (k_heap s)" using assms(1) by (simp add: owned_def)
  obtain p mt mp where n: "p \<noteq> 0" "p \<noteq> t" "heap_wf (k_heap s')" "\<forall>k. \<not> heap_live (k_heap s) t k" "\<forall>k. \<not> heap_live (k_heap s) p k"
      "\<And>q k. heap_live (k_heap s') q k \<longleftrightarrow> heap_live (k_heap s) q k \<or> q = t \<and> k = mt \<or> q = p \<and> k = mp"
      "task s' = (task s)(t := fresh_task (n_pid s) (the_current_pd s) p (task s t))" "tasking.more s' = tasking.more s"
    by (cases rule: new_task_cases [OF wf assms(2)]) (use assms(3) in auto)
  show tT: "t \<notin> T" using ownedD(2) [OF assms(1), of t] n(4) by auto
  show "task s' = (task s)(t := task s' t)" using n(7) by simp
  show "tasking.more s' = tasking.more s" by (rule n(8))
  show "next_task (task s' t) = 0" "pid (task s' t) = n_pid s" "state (task s' t) = TASK_STOPPED"
    using n(7) by (simp_all add: fresh_task_def)
  have st: "stack (task s' u) = (if u = t then p else stack (task s u))" for u using n(7) by (simp add: fresh_task_def)
  have old: "u \<noteq> t \<and> u \<noteq> p \<and> stack (task s u) \<noteq> t \<and> stack (task s u) \<noteq> p" if "u \<in> T" for u
    using ownedD(2,3) [OF assms(1) that] n(4,5) by auto
  have live: "(\<exists>m. heap_live (k_heap s') t m) \<and> (\<exists>m. heap_live (k_heap s') p m)" using n(6) by blast
  have keep: "\<exists>m. heap_live (k_heap s) q m \<Longrightarrow> \<exists>m. heap_live (k_heap s') q m" for q using n(6) by blast
  show "owned s' (insert t T)"
    unfolding owned_def
  proof (intro conjI ballI impI, goal_cases)
    case 1
    show ?case by (rule n(3))
  next
    case (2 u)
    then show ?case using live keep ownedD(2) [OF assms(1), of u] by auto
  next
    case (3 u)
    then show ?case using live keep ownedD(3) [OF assms(1), of u] st old [of u] by auto
  next
    case (4 u v)
    show ?case
    proof (cases "u = t")
      case True
      then have "stack (task s' u) = p" using st by simp
      then show ?thesis using 4(2) n(2) old [of v] by auto
    next
      case False
      then have "stack (task s' u) = stack (task s u)" "u \<in> T" using 4(1) st by simp_all
      then show ?thesis using 4(2) old [of u] ownedD(4) [OF assms(1), of u v] by auto
    qed
  next
    case (5 u v)
    show ?case
    proof (rule ccontr)
      assume "u \<noteq> v"
      then show False
        using 5 old [of u] old [of v] st [of u] st [of v] ownedD(5) [OF assms(1), of u v]
        by (cases "u = t"; cases "v = t") simp_all
    qed
  qed
qed

lemma create_kernel_task_ok:
  assumes inv: "sched_inv s rs ss" and st: "states_ok s rs ss" and n: "new_task s = Some (Inr (t, s1))" "t \<noteq> 0"
  shows "\<exists>s'. create_kernel_task func s = Some (Inr (n_pid s, s')) \<and> sched_inv s' (rs @ [t]) ss \<and> states_ok s' (rs @ [t]) ss
    \<and> t \<notin> insert (running_task s) (set rs \<union> set ss) \<and> eip (task s' t) = func \<and> state (task s' t) = TASK_READY
    \<and> k_heap s' = k_heap s1 \<and> scheduling_enabled s' = scheduling_enabled s \<and> stack (task s' t) = stack (task s1 t)
    \<and> running_task s' = running_task s \<and> (\<forall>a. a \<noteq> t \<longrightarrow> (task s' a)\<lparr>next_task := 0\<rparr> = (task s a)\<lparr>next_task := 0\<rparr>)"
proof -
  let ?T = "insert (running_task s) (set rs \<union> set ss)"
  have own: "owned s ?T" and q: "queues s rs ss" using inv by (simp_all add: sched_inv_def)
  note o = new_task_owned [OF own n] and m = sched_more [OF new_task_owned(4) [OF own n]]
  let ?v = "upd_task (\<lambda>x. x\<lparr>ppid := 0, eip := func, state := TASK_READY\<rparr>) t s1"
  have tt: "t \<notin> set rs" "t \<notin> set ss" "t \<noteq> running_task s" using o(1) by auto
  have o3: "task s1 a = task s a" if "a \<noteq> t" for a using o(3) that by (metis fun_upd_other)
  have nx: "next_task (task ?v a) = next_task (task s a)" if "a \<in> set rs \<union> set ss" for a
  proof -
    have "a \<noteq> t" using that tt by auto
    then show ?thesis using o3 by (simp add: task_upd_task)
  qed
  have qv: "queues ?v rs ss" using q queues_cong [of rs ss ?v s, OF nx] m by simp
  note e = enqueue_ready_eq [OF qv, of t] enqueue_ready_queues [OF qv n(2) tt(1,2)]
  let ?s = "?v\<lparr>task := link_tail rs t (task ?v), ready_queue_head := head_or_null (rs @ [t]), ready_queue_tail := t\<rparr>"
  have "create_kernel_task func s = Some (Inr (pid (task ?s t), ?s))"
    using n e(1) by (simp add: create_kernel_task_def Let_def upd_task_def upd_at_def comp_def)
  moreover have "pid (task ?s t) = n_pid s" using o(6) by (simp add: task_upd_task)
  moreover have r: "running_task ?s = running_task s" using m by simp
  moreover have "queues ?s (rs @ [t]) ss" using e(2) o(5) by (simp add: task_upd_task)
  moreover have "owned ?s (insert t ?T)" using o(2) owned_cong [of ?s s1] by (simp add: task_upd_task upd_at_apply)
  moreover have "insert t ?T = insert (running_task s) (set (rs @ [t]) \<union> set ss)" by auto
  moreover have rn: "task ?s (running_task s) = task s (running_task s)"
    using inv tt o3 by (simp add: sched_inv_def task_upd_task upd_at_apply)
  ultimately have "sched_inv ?s (rs @ [t]) ss" using inv tt by (simp add: sched_inv_def)
  moreover have "states_ok ?s (rs @ [t]) ss"
    using st tt o3 m rn unfolding states_ok_def destroyed_def by (auto simp: task_upd_task upd_at_apply)
  moreover have "\<forall>a. a \<noteq> t \<longrightarrow> (task ?s a)\<lparr>next_task := 0\<rparr> = (task s a)\<lparr>next_task := 0\<rparr>"
    using o3 by (simp add: link_tail_def task_upd_task upd_at_apply)
  ultimately show ?thesis
    using \<open>create_kernel_task func s = Some (Inr (pid (task ?s t), ?s))\<close> \<open>pid (task ?s t) = n_pid s\<close> r o(1) m(6)
    by (intro exI [of _ ?s]) (simp add: task_upd_task)
qed

lemma sched_init_ok:
  assumes "heap_wf (k_heap s)" "queues s [] []" "new_task s = Some (Inr (t, s1))" "t \<noteq> 0"
  shows "\<exists>s'. sched_init s = Some (Inr s') \<and> sched_inv s' [] [] \<and> states_ok s' [] [] \<and> running_task s' = t
    \<and> k_heap s' = k_heap s1 \<and> stack (task s' t) = stack (task s1 t)
    \<and> scheduling_enabled s' \<and> state (task s' t) = TASK_RUNNING"
proof -
  have own: "owned s {}" using assms(1) by (simp add: owned_def)
  note o = new_task_owned [OF own assms(3,4)] and m = sched_more [OF new_task_owned(4) [OF own assms(3,4)]]
  let ?s = "upd_task (\<lambda>x. x\<lparr>state := TASK_RUNNING, next_task := 0\<rparr>) t (s1\<lparr>running_task := t, scheduling_enabled := True\<rparr>)"
  have "sched_init s = Some (Inr ?s)"
    using assms(3,4) by (simp add: sched_init_def Let_def upd_task_def upd_at_def comp_def)
  moreover have "queues ?s [] []" using assms(2) m by (simp add: queues_def)
  moreover have "owned ?s {t}" using o(2) owned_cong [of ?s s1] by (simp add: task_upd_task upd_at_apply)
  ultimately show ?thesis using assms(4) by (simp add: sched_inv_def states_ok_def)
qed

section \<open>A concrete kernel\<close>

text \<open>A kernel after \<open>sched_init\<close> and the creation of one kernel task.\<close>

definition sched0 :: sched where
  "sched0 = \<lparr>k_heap = heap1, task = (\<lambda>_. task0), words = (\<lambda>_. 0), n_pid = 0, the_current_pd = 0xC0105000,
     sched_kill_addr = 0xC0102000, ready_queue_head = 0, ready_queue_tail = 0, sleep_queue_head = 0, sleep_queue_tail = 0,
     running_task = 0, scheduling_enabled = False, ticks = 0, interrupts = False,
     cpu = \<lparr>r_eip = 0, r_esp = 0, r_ebp = 0\<rparr>, the_cr3 = 0, phys_of_pd = (\<lambda>p. p - 0xC0000000)\<rparr>"

definition regs0 :: cpu_regs where
  "regs0 = \<lparr>r_eip = 0xC0101000, r_esp = 0xC0124000, r_ebp = 0xC0124010\<rparr>"

lemma boot_state:
  obtains s where "sched_inv s [0xC0120058] []" "states_ok s [0xC0120058] []" "running_task s = 0xC0120014"
    "state (task s 0xC0120014) = TASK_RUNNING" "state (task s 0xC0120058) = TASK_READY"
proof -
  have wf: "heap_wf (k_heap sched0)" "queues sched0 [] []" by (simp_all add: sched0_def heap1_wf queues_def)
  obtain s1 where s1: "new_task sched0 = Some (Inr (0xC0120014, s1))" "heap_inv 0xC0120000 0xC0130000 (k_heap s1)
    [(0xC0120000, 68, True), (0xC0120044, 0xFA8, False), (0xC0120FEC, 0x4014, True), (0xC0125000, 0xB000, False)]"
    using new_task_heap1 [of sched0] by (auto simp: sched0_def)
  obtain s2 where s2: "sched_init sched0 = Some (Inr s2)" "sched_inv s2 [] []" "states_ok s2 [] []" "running_task s2 = 0xC0120014"
    "state (task s2 0xC0120014) = TASK_RUNNING" using sched_init_ok [OF wf s1(1)] by auto
  have k2: "k_heap s2 = k_heap s1" using s2(1) s1(1) by (auto simp: sched_init_def Let_def)
  have "first_fit (round_size SIZEOF_TASK) [(0xC0120000, 68, True), (0xC0120044, 0xFA8, False), (0xC0120FEC, 0x4014, True), (0xC0125000, 0xB000, False)]
    = Some (0xC0120044, [(0xC0120000, 68, True), (0xC0120044, 68, True), (0xC0120088, 0xF64, False), (0xC0120FEC, 0x4014, True), (0xC0125000, 0xB000, False)])"
    by (simp add: SIZEOF_TASK_def round_size_def HDR_def)
  moreover have "\<exists>bs. aligned_fit (round_size STACK_SIZE)
     [(0xC0120000, 68, True), (0xC0120044, 68, True), (0xC0120088, 0xF64, False), (0xC0120FEC, 0x4014, True), (0xC0125000, 0xB000, False)] = Fit 0xC0125FEC bs"
    by (simp add: round_size_def page_align_def HDR_def Let_def STACK_SIZE_def)
  ultimately obtain s3 where s3: "new_task s2 = Some (Inr (0xC0120058, s3))"
    using new_task_blocks [of "0xC0120000" "0xC0130000" s2] s1(2) k2 by (fastforce simp: HDR_def)
  obtain s4 where s4: "sched_inv s4 [0xC0120058] []" "states_ok s4 [0xC0120058] []" "running_task s4 = 0xC0120014"
      "state (task s4 0xC0120058) = TASK_READY" "\<forall>a. a \<noteq> 0xC0120058 \<longrightarrow> (task s4 a)\<lparr>next_task := 0\<rparr> = (task s2 a)\<lparr>next_task := 0\<rparr>"
    using create_kernel_task_ok [OF s2(2,3) s3, of 0] s2(4) by auto
  have "(task s4 0xC0120014)\<lparr>next_task := 0\<rparr> = (task s2 0xC0120014)\<lparr>next_task := 0\<rparr>" using s4(5) by simp
  from arg_cong [OF this, of state] have "state (task s4 0xC0120014) = TASK_RUNNING" using s2(5) by simp
  with that s4 show thesis by blast
qed

section \<open>Properties\<close>

text \<open>The ready queue is a FIFO queue: a task enqueued goes to its end, and the task taken out
  is the one that has waited longest, unlinked from the queue.\<close>

theorem ready_queue_fifo:
  assumes "queues s rs ss" "t \<noteq> 0" "t \<notin> set rs" "t \<notin> set ss" "next_task (task s t) = 0"
  shows "\<exists>s' s''. enqueue_ready_task t s = Inr s' \<and> queues s' (rs @ [t]) ss \<and>
    get_next_ready_task s' = Inr (hd (rs @ [t]), s'') \<and> queues s'' (tl (rs @ [t])) ss \<and>
    next_task (task s'' (hd (rs @ [t]))) = 0"
proof -
  obtain s' where s': "enqueue_ready_task t s = Inr s'" "queues s' (rs @ [t]) ss"
    using enqueue_ready_eq [OF assms(1)] enqueue_ready_queues [OF assms] by blast
  moreover have "rs @ [t] = hd (rs @ [t]) # tl (rs @ [t])" by simp
  ultimately obtain s'' where "get_next_ready_task s' = Inr (hd (rs @ [t]), s'')" "queues s'' (tl (rs @ [t])) ss"
    "next_task (task s'' (hd (rs @ [t]))) = 0" using pop_ready by metis
  with s' show ?thesis by blast
qed

theorem ready_queue_fifo_witness:
  "\<exists>s s' s''. enqueue_ready_task 0xC0129000 s = Inr s' \<and> get_next_ready_task s' = Inr (0xC0120058, s'')
     \<and> queues s'' [0xC0129000] []"
proof -
  obtain s where s: "sched_inv s [0xC0120058] []" by (rule boot_state)
  let ?s = "upd_task (\<lambda>x. x\<lparr>next_task := 0\<rparr>) 0xC0129000 s"
  have q: "queues ?s [0xC0120058] []"
    using s queues_cong [of "[0xC0120058]" "[]" ?s s] by (simp add: sched_inv_def task_upd_task upd_at_apply)
  show ?thesis using ready_queue_fifo [OF q, of "0xC0129000"] by auto
qed

text \<open>C6. A switch away from a running task serves the tasks round robin: the task goes to the
  end of the ready queue with its registers saved, the tasks at the front that are marked for
  destruction are freed with their stacks and nothing else is, the first other task runs with
  the registers saved in it, and the invariants of the scheduler hold again.\<close>

theorem switch_task_round_robin:
  assumes "sched_inv s rs ss" "states_ok s rs ss" "state (task s (running_task s)) = TASK_RUNNING" "r_eip regs \<noteq> 0x12345"
  shows "\<exists>s' t rs'. dropWhile (destroyed s) (rs @ [running_task s]) = t # rs' \<and> switch_task regs s = Some (Inr s')
    \<and> running_task s' = t \<and> sched_inv s' rs' ss \<and> states_ok s' rs' ss
    \<and> cpu s' = (if t = running_task s then regs else context_of s t) \<and> context_of s' (running_task s) = regs
    \<and> the_cr3 s' = phys_of_pd s (page_dir (task s t))
    \<and> (\<forall>q k. heap_live (k_heap s') q k \<longleftrightarrow>
         heap_live (k_heap s) q k \<and> q \<notin> blocks_of s (set (takeWhile (destroyed s) rs)))"
proof -
  have r: "\<not> destroyed s (running_task s)" using assms(3) by (simp add: destroyed_def task_states)
  then have "dropWhile (destroyed s) (rs @ [running_task s]) \<noteq> []" by auto
  then obtain t rs' where d: "dropWhile (destroyed s) (rs @ [running_task s]) = t # rs'" by (meson neq_Nil_conv)
  have tw: "takeWhile (destroyed s) (rs @ [running_task s]) = takeWhile (destroyed s) rs"
    using r by (induction rs) auto
  obtain s' where "switch_task regs s = Some (Inr s')" "running_task s' = t" "sched_inv s' rs' ss"
    "cpu s' = (if t = running_task s then regs else context_of s t)" "the_cr3 s' = phys_of_pd s (page_dir (task s t))"
    "\<forall>a. state (task s' a) = (if a = t then TASK_RUNNING
         else if a = running_task s \<and> state (task s a) = TASK_RUNNING then TASK_READY else state (task s a))"
    "\<forall>a. context_of s' a = (if a = running_task s then regs else context_of s a)"
    "\<forall>q k. heap_live (k_heap s') q k \<longleftrightarrow> heap_live (k_heap s) q k \<and> q \<notin> blocks_of s (set (takeWhile (destroyed s) rs))"
    using switch_ready [OF assms(1) _ assms(4) d] assms(3) tw by auto
  with states_ok_switch [OF assms(2) d assms(1)] d show ?thesis by auto
qed

theorem switch_task_round_robin_witness:
  "\<exists>s s'. running_task s = 0xC0120014 \<and> switch_task regs0 s = Some (Inr s') \<and> running_task s' = 0xC0120058
     \<and> sched_inv s' [0xC0120014] []"
proof -
  obtain s where s: "sched_inv s [0xC0120058] []" "states_ok s [0xC0120058] []" "running_task s = 0xC0120014"
    "state (task s 0xC0120014) = TASK_RUNNING" "state (task s 0xC0120058) = TASK_READY" by (rule boot_state)
  then have "dropWhile (destroyed s) ([0xC0120058] @ [running_task s]) = [0xC0120058, 0xC0120014]"
    by (simp add: destroyed_def task_states)
  with switch_task_round_robin [OF s(1,2), of regs0] s(3,4) show ?thesis by (auto simp: regs0_def)
qed

text \<open>Successive calls of \<open>sched_yield\<close>, each by the task that runs then.\<close>

primrec yields :: "nat \<Rightarrow> (nat \<Rightarrow> cpu_regs) \<Rightarrow> sched \<Rightarrow> sched result option" where
  "yields 0 regs s = Some (Inr s)"
| "yields (Suc n) regs s =
     (case sched_yield (regs 0) s of
        Some (Inr s') \<Rightarrow> yields n (\<lambda>i. regs (Suc i)) s'
      | r \<Rightarrow> r)"

definition all_alive :: "sched \<Rightarrow> addr list \<Rightarrow> bool" where
  "all_alive s rs \<longleftrightarrow> state (task s (running_task s)) = TASK_RUNNING \<and> (\<forall>t\<in>set rs. \<not> destroyed s t)"

lemma yield_alive:
  assumes "sched_inv s (t # rs) ss" "states_ok s (t # rs) ss" "all_alive s (t # rs)" "r_eip regs \<noteq> 0x12345"
  obtains s' where "sched_yield regs s = Some (Inr s')" "running_task s' = t" "sched_inv s' (rs @ [running_task s]) ss"
    "states_ok s' (rs @ [running_task s]) ss" "all_alive s' (rs @ [running_task s])"
proof -
  have d: "dropWhile (destroyed s) ((t # rs) @ [running_task s]) = t # rs @ [running_task s]"
    using assms(3) by (simp add: all_alive_def)
  obtain s' where s': "switch_task regs s = Some (Inr s')" "running_task s' = t" "sched_inv s' (rs @ [running_task s]) ss"
    "\<forall>a. state (task s' a) = (if a = t then TASK_RUNNING
         else if a = running_task s \<and> state (task s a) = TASK_RUNNING then TASK_READY else state (task s a))"
    using switch_ready [OF assms(1) _ assms(4) d] assms(3) by (auto simp: all_alive_def)
  have "all_alive s' (rs @ [running_task s])"
    using s'(2,4) assms(3) by (auto simp: all_alive_def destroyed_def task_states)
  moreover have "states_ok s' (rs @ [running_task s]) ss"
    using states_ok_switch [OF assms(2) d assms(1) s'(4,2)] .
  ultimately show thesis using that s'(1-3) by (simp add: sched_yield_def)
qed

text \<open>C15. Fairness: with no task marked for destruction, the task at position \<open>k\<close> of the ready
  queue runs after \<open>k + 1\<close> calls of \<open>sched_yield\<close>, whatever registers the tasks leave behind.\<close>

theorem yield_fair:
  assumes "sched_inv s rs ss" "states_ok s rs ss" "all_alive s rs" "\<And>i. r_eip (regs i) \<noteq> 0x12345" "k < length rs"
  shows "\<exists>s'. yields (Suc k) regs s = Some (Inr s') \<and> running_task s' = rs ! k"
  using assms
proof (induction k arbitrary: s rs regs)
  case (0 s rs regs)
  then obtain t rs' where rs: "rs = t # rs'" by (cases rs) auto
  obtain s' where "sched_yield (regs 0) s = Some (Inr s')" "running_task s' = t"
    using yield_alive [of s t rs' ss "regs 0"] 0 rs by metis
  then show ?case using rs by simp
next
  case (Suc k s rs regs)
  then obtain t rs' where rs: "rs = t # rs'" by (cases rs) auto
  obtain s' where s': "sched_yield (regs 0) s = Some (Inr s')" "sched_inv s' (rs' @ [running_task s]) ss"
    "states_ok s' (rs' @ [running_task s]) ss" "all_alive s' (rs' @ [running_task s])"
    using yield_alive [of s t rs' ss "regs 0"] Suc.prems(1-4) rs by metis
  have "k < length (rs' @ [running_task s])" using Suc.prems(5) rs by simp
  then obtain s'' where "yields (Suc k) (\<lambda>i. regs (Suc i)) s' = Some (Inr s'')" "running_task s'' = (rs' @ [running_task s]) ! k"
    using Suc.IH [OF s'(2-4), of "\<lambda>i. regs (Suc i)"] Suc.prems(4) by blast
  then show ?case using s'(1) rs Suc.prems(5) by (simp add: nth_append)
qed

theorem yield_fair_witness:
  "\<exists>s s'. running_task s = 0xC0120014 \<and> yields (Suc 0) (\<lambda>_. regs0) s = Some (Inr s') \<and> running_task s' = 0xC0120058"
proof -
  obtain s where s: "sched_inv s [0xC0120058] []" "states_ok s [0xC0120058] []" "running_task s = 0xC0120014"
    "state (task s 0xC0120014) = TASK_RUNNING" "state (task s 0xC0120058) = TASK_READY" by (rule boot_state)
  then have al: "all_alive s [0xC0120058]" by (simp add: all_alive_def destroyed_def task_states)
  show ?thesis using yield_fair [OF s(1,2) al, of "\<lambda>_. regs0" 0] s(3) by (auto simp: regs0_def)
qed


text \<open>Two sleepers that wake in 5 and 15 ticks, and a third task that wants to sleep.\<close>

definition sleepers :: "u32 \<Rightarrow> sched" where
  "sleepers n = sched0\<lparr>task := (\<lambda>_. task0)(0x100 := task0\<lparr>next_task := 0x200, sleep_ticks := 5, state := 3\<rparr>,
     0x200 := task0\<lparr>sleep_ticks := 10, pid := 7, state := 3\<rparr>, 0x300 := task0\<lparr>sleep_ticks := n\<rparr>),
     sleep_queue_head := 0x100, sleep_queue_tail := 0x200, running_task := 0x300\<rparr>"

lemma sleepers_queues: "queues (sleepers n) [] [0x100, 0x200]"
  by (simp add: queues_def sleepers_def sched0_def last_or_null_def task0_def)

lemma sleepers_delta:
  "delta (sleepers n) 0x100 = 5" "delta (sleepers n) 0x200 = 10" "delta (sleepers n) 0x300 = unat n"
  by (simp_all add: delta_def sleepers_def)


text \<open>A task that wants to wake before the first sleeper brings the kernel down: the search of
  \<open>enqueue_sleep_task\<close> finds its place in front of the queue and writes through the null pointer
  \<open>x\<close>.\<close>

theorem sleep_before_first_faults:
  assumes "queues s rs (z # ss)" "0 < delta s y" "delta s y < delta s z"
  shows "enqueue_sleep_task y s = Some (Inl (Fault ''null task''))"
  using assms by (rule enqueue_sleep_first_faults)

theorem sleep_before_first_faults_witness: "enqueue_sleep_task 0x300 (sleepers 3) = Some (Inl (Fault ''null task''))"
  using sleep_before_first_faults [OF sleepers_queues, of 3 "0x300"] by (simp add: sleepers_delta)

text \<open>A wake-up time shared with a sleeper that is not the last loses its task for a long
  time: the search passes it, and the task is appended with a delta that has wrapped around, so
  that it wakes after more than four billion ticks instead of its own.\<close>

theorem sleep_equal_time_wraps:
  "\<exists>s'. enqueue_sleep_task 0x300 (sleepers 5) = Some (Inr s') \<and> queues s' [] [0x100, 0x200, 0x300]
     \<and> map_of (wakes (delta s') [0x100, 0x200, 0x300] 0) 0x300 = Some (5 + 2 ^ 32)"
proof -
  let ?s = "sleepers 5"
  have e: "task ?s 0x100 = task0\<lparr>next_task := 0x200, sleep_ticks := 5, state := 3\<rparr>"
    "task ?s 0x200 = task0\<lparr>sleep_ticks := 10, pid := 7, state := 3\<rparr>" "task ?s 0x300 = task0\<lparr>sleep_ticks := 5\<rparr>"
    "sleep_queue_head ?s = 0x100" "sleep_queue_tail ?s = 0x200" by (simp_all add: sleepers_def)
  have "sleep_search 5 0x300 0 0 0x100 ?s = Some (Inr (Some 15, ?s))"
    by (subst sleep_search.simps, simp add: e, subst sleep_search.simps, simp add: e task0_def, subst sleep_search.simps, simp)
  then have "enqueue_sleep_task 0x300 ?s = Some (Inr (?s\<lparr>task := (task ?s)(0x200 := task0\<lparr>sleep_ticks := 10, pid := 7, state := 3, next_task := 0x300\<rparr>,
      0x300 := task0\<lparr>next_task := 0, sleep_ticks := 5 - 15\<rparr>), sleep_queue_tail := 0x300\<rparr>))"
    by (simp add: enqueue_sleep_task_def e Let_def upd_task_def upd_at_def)
  then show ?thesis
    by (simp add: queues_def delta_def sleepers_def sched0_def task0_def last_or_null_def)
qed

text \<open>C16. One timer tick on the sleep queue: every wake-up time goes down by one, and exactly the
  tasks whose time was one tick away move, in order, to the end of the ready queue and become
  ready.\<close>

theorem tick_wakes:
  assumes "queues s rs ss" "ss \<noteq> [] \<Longrightarrow> 0 < delta s (hd ss)"
  shows "\<exists>s' ws ss'. update_sleep_queue s = Some (Inr s') \<and> ss = ws @ ss' \<and> queues s' (rs @ ws) ss'
    \<and> (\<forall>t\<in>set ws. map_of (wakes (delta s) ss 0) t = Some 1 \<and> state (task s' t) = TASK_READY)
    \<and> (\<forall>t\<in>set ss'. \<exists>w>1. map_of (wakes (delta s) ss 0) t = Some w)
    \<and> wakes (delta s') ss' 0 = map (\<lambda>(t, w). (t, w - 1)) (drop (length ws) (wakes (delta s) ss 0))"
proof -
  obtain s' ws ss' where t: "update_sleep_queue s = Some (Inr s')" "ticked s rs ss s' ws ss'"
    "\<forall>a. state (task s' a) = (if a \<in> set ws then TASK_READY else state (task s a))"
    using update_sleep_spec [OF assms] by blast
  then show ?thesis unfolding ticked_def by (intro exI [of _ s'] exI [of _ ws] exI [of _ ss']) auto
qed

theorem tick_wakes_witness:
  "\<exists>s' ws ss'. update_sleep_queue (sleepers 0) = Some (Inr s') \<and> [0x100, 0x200] = ws @ ss' \<and> queues s' ws ss'"
proof -
  have "[0x100, 0x200] \<noteq> ([] :: addr list) \<Longrightarrow> 0 < delta (sleepers 0) (hd [0x100, 0x200])" by (simp add: sleepers_delta)
  from tick_wakes [OF sleepers_queues this] show ?thesis by auto
qed

definition sched_ok :: "sched \<Rightarrow> addr list \<Rightarrow> addr list \<Rightarrow> bool" where
  "sched_ok s rs ss \<longleftrightarrow> sched_inv s rs ss \<and> states_ok s rs ss \<and> (ss \<noteq> [] \<longrightarrow> 0 < delta s (hd ss))"

lemma update_sleep_ok:
  assumes "sched_ok s rs ss"
  obtains s' ws ss' where "update_sleep_queue s = Some (Inr s')" "ss = ws @ ss'" "sched_ok s' (rs @ ws) ss'"
    "running_task s' = running_task s" "state (task s' (running_task s)) = state (task s (running_task s))"
    "k_heap s' = k_heap s" "scheduling_enabled s' = scheduling_enabled s" "\<And>a. stack (task s' a) = stack (task s a)"
    "\<And>a. state (task s' a) = (if a \<in> set ws then TASK_READY else state (task s a))"
    "\<And>t. t \<in> set ws \<longleftrightarrow> map_of (wakes (delta s) ss 0) t = Some 1"
proof -
  let ?r = "running_task s"
  have inv: "queues s rs ss" "?r \<noteq> 0" "?r \<notin> set rs" "?r \<notin> set ss" "next_task (task s ?r) = 0"
    "owned s (insert ?r (set rs \<union> set ss))" "states_ok s rs ss" "ss \<noteq> [] \<Longrightarrow> 0 < delta s (hd ss)"
    using assms by (simp_all add: sched_ok_def sched_inv_def)
  obtain s' ws ss' where s': "update_sleep_queue s = Some (Inr s')" "ticked s rs ss s' ws ss'" "ss' \<noteq> [] \<longrightarrow> 0 < delta s' (hd ss')"
    "k_heap s' = k_heap s" "running_task s' = running_task s" "scheduling_enabled s' = scheduling_enabled s"
    "\<And>a. state (task s' a) = (if a \<in> set ws then TASK_READY else state (task s a))" "\<And>a. stack (task s' a) = stack (task s a)"
    "\<forall>a. a \<notin> set ss \<longrightarrow> a \<noteq> ready_queue_tail s \<longrightarrow> task s' a = task s a"
    using update_sleep_spec [OF inv(1,8)] by auto
  have ss: "ss = ws @ ss'" "queues s' (rs @ ws) ss'" using s'(2) by (simp_all add: ticked_def)
  have "ready_queue_tail s \<noteq> ?r" using queuesD(7) [OF inv(1)] inv(2,3) by (metis last_in_set last_or_null_def)
  then have r: "task s' ?r = task s ?r" using s'(9) inv(4) by auto
  have "owned s' (insert ?r (set rs \<union> set ss))" using inv(6) owned_cong [OF s'(4)] s'(8) by blast
  moreover have "set rs \<union> set ss = set (rs @ ws) \<union> set ss'" using ss(1) by auto
  ultimately have i: "sched_inv s' (rs @ ws) ss'" using inv ss s'(5) r by (simp add: sched_inv_def)
  have dis: "set ws \<inter> set ss' = {}" using queuesD(2) [OF inv(1)] ss(1) by auto
  have "states_ok s' (rs @ ws) ss'"
    unfolding states_ok_def destroyed_def s'(5) r
  proof (intro conjI ballI, goal_cases)
    case (1 t)
    then show ?case using inv(7) s'(7) [of t] by (auto simp: states_ok_def destroyed_def)
  next
    case (2 t)
    then have "t \<notin> set ws" "t \<in> set ss" using dis ss(1) by auto
    then show ?case using inv(7) s'(7) [of t] by (auto simp: states_ok_def destroyed_def)
  next
    case 3
    show ?case using inv(7) by (simp add: states_ok_def destroyed_def)
  qed
  with i s'(3) have ok: "sched_ok s' (rs @ ws) ss'" by (simp add: sched_ok_def)
  have w: "t \<in> set ws \<longleftrightarrow> map_of (wakes (delta s) ss 0) t = Some 1" for t
  proof (cases "t \<in> set ss")
    case True
    then have "t \<in> set ws \<or> t \<in> set ss'" using ss(1) by auto
    then show ?thesis using s'(2) dis by (fastforce simp: ticked_def)
  next
    case False
    then have "t \<notin> fst ` set (wakes (delta s) ss 0)" by (simp add: wakes_dom)
    then have "map_of (wakes (delta s) ss 0) t = None" by (simp add: map_of_eq_None_iff)
    then show ?thesis using False ss(1) by simp
  qed
  show thesis using that [OF s'(1) ss(1) ok s'(5) _ s'(4,6) s'(8) s'(7) w] r by simp
qed

lemma sched_ok_cong:
  assumes "\<And>a. next_task (task s' a) = next_task (task s a) \<and> stack (task s' a) = stack (task s a)
      \<and> state (task s' a) = state (task s a) \<and> sleep_ticks (task s' a) = sleep_ticks (task s a)"
    "k_heap s' = k_heap s" "running_task s' = running_task s"
    "ready_queue_head s' = ready_queue_head s" "ready_queue_tail s' = ready_queue_tail s"
    "sleep_queue_head s' = sleep_queue_head s" "sleep_queue_tail s' = sleep_queue_tail s"
  shows "sched_ok s' rs ss = sched_ok s rs ss"
proof -
  have "queues s' rs ss = queues s rs ss" using assms by (intro queues_cong) simp_all
  moreover have "owned s' T = owned s T" for T using assms by (intro owned_cong) simp_all
  moreover have "delta s' = delta s" "destroyed s' = destroyed s" using assms(1) by (auto simp: delta_def destroyed_def)
  ultimately show ?thesis using assms(1,3) by (simp add: sched_ok_def sched_inv_def states_ok_def)
qed

text \<open>What the timer interrupt does before it switches.\<close>

lemma do_scheduling_wakes:
  assumes "sched_ok s rs ss" "scheduling_enabled s"
  obtains s1 ws ss' where "do_scheduling regs s = switch_task regs s1" "ss = ws @ ss'" "sched_ok s1 (rs @ ws) ss'"
    "running_task s1 = running_task s" "k_heap s1 = k_heap s" "scheduling_enabled s1" "\<And>a. stack (task s1 a) = stack (task s a)"
    "\<And>a. state (task s1 a) = (if a \<in> set ws then TASK_READY else state (task s a))"
    "\<And>t. t \<in> set ws \<longleftrightarrow> map_of (wakes (delta s) ss 0) t = Some 1"
proof -
  let ?u = "upd_task (\<lambda>x. x\<lparr>cpu_time := cpu_time x + 1\<rparr>) (running_task s) (s\<lparr>ticks := ticks s + 1\<rparr>)"
  have r: "running_task s \<noteq> 0" using assms(1) by (simp add: sched_ok_def sched_inv_def)
  have u: "sched_ok ?u rs ss" using assms(1) sched_ok_cong [of ?u s] by (simp add: task_upd_task upd_at_apply)
  have eq: "running_task ?u = running_task s" "k_heap ?u = k_heap s" "scheduling_enabled ?u" "stack (task ?u a) = stack (task s a)"
    "state (task ?u a) = state (task s a)" "delta ?u = delta s" for a
    using assms(2) by (auto simp: task_upd_task upd_at_apply delta_def)
  obtain s1 ws ss' where s1: "update_sleep_queue ?u = Some (Inr s1)" "ss = ws @ ss'" "sched_ok s1 (rs @ ws) ss'"
    "running_task s1 = running_task ?u" "k_heap s1 = k_heap ?u" "scheduling_enabled s1 = scheduling_enabled ?u"
    "\<And>a. stack (task s1 a) = stack (task ?u a)" "\<And>a. state (task s1 a) = (if a \<in> set ws then TASK_READY else state (task ?u a))"
    "\<And>t. t \<in> set ws \<longleftrightarrow> map_of (wakes (delta ?u) ss 0) t = Some 1"
    by (rule update_sleep_ok [OF u]) blast
  note s1 = s1 [unfolded eq(1,2,4-6)]
  have "do_scheduling regs s = switch_task regs s1"
    using r s1(1) assms(2) by (simp add: do_scheduling_def Let_def)
  moreover have "scheduling_enabled s1" using s1(6) eq(3) by simp
  ultimately show thesis using s1(2-5,7-9) that by blast
qed

text \<open>The timer interrupt keeps the scheduler sound: with a running task that is not marked for
  destruction, \<open>do_scheduling\<close> returns, and afterwards the queues, the ownership of the heap
  blocks, the states of the tasks and the sleep queue are well formed again.\<close>

theorem do_scheduling_keeps:
  assumes "sched_ok s rs ss" "state (task s (running_task s)) = TASK_RUNNING" "scheduling_enabled s" "r_eip regs \<noteq> 0x12345"
  shows "\<exists>s' rs' ss'. do_scheduling regs s = Some (Inr s') \<and> sched_ok s' rs' ss'
    \<and> state (task s' (running_task s')) = TASK_RUNNING"
proof -
  let ?r = "running_task s"
  obtain s1 ws ss' where s1: "do_scheduling regs s = switch_task regs s1" "sched_ok s1 (rs @ ws) ss'" "ss = ws @ ss'"
    "running_task s1 = ?r" "\<And>a. state (task s1 a) = (if a \<in> set ws then TASK_READY else state (task s a))"
    using do_scheduling_wakes [OF assms(1,3), of regs] by metis
  have "?r \<notin> set ws" using assms(1) s1(3) by (simp add: sched_ok_def sched_inv_def)
  then have run: "state (task s1 ?r) = TASK_RUNNING" using s1(5) assms(2) by simp
  have nd: "\<not> destroyed s1 (running_task s1)" using s1(4) run by (simp add: destroyed_def task_states)
  then have "dropWhile (destroyed s1) ((rs @ ws) @ [running_task s1]) \<noteq> []" by auto
  then obtain t rs' where d: "dropWhile (destroyed s1) ((rs @ ws) @ [running_task s1]) = t # rs'" by (meson neq_Nil_conv)
  obtain s' where s': "switch_task regs s1 = Some (Inr s')" "running_task s' = t" "sched_inv s' rs' ss'"
    "\<forall>a. state (task s' a) = (if a = t then TASK_RUNNING
         else if a = running_task s1 \<and> state (task s1 a) = TASK_RUNNING then TASK_READY else state (task s1 a))"
    "\<forall>a. sleep_ticks (task s' a) = sleep_ticks (task s1 a)"
    using switch_ready [of s1 "rs @ ws" ss' regs, OF _ _ assms(4) d] s1 run by (auto simp: sched_ok_def)
  have "states_ok s' rs' ss'" using states_ok_switch [OF _ d _ s'(4,2)] s1(2) by (simp add: sched_ok_def)
  moreover have "delta s' = delta s1" using s'(5) by (auto simp: delta_def)
  ultimately have "sched_ok s' rs' ss'" using s'(3) s1(2) by (simp add: sched_ok_def)
  moreover have "do_scheduling regs s = Some (Inr s')"
    using s1(1) s'(1) by simp
  ultimately show ?thesis using s'(2,4) by auto
qed

theorem do_scheduling_keeps_witness:
  "\<exists>s s' rs' ss'. running_task s = 0xC0120014 \<and> do_scheduling regs0 s = Some (Inr s') \<and> sched_ok s' rs' ss'"
proof -
  obtain s where s: "sched_inv s [0xC0120058] []" "states_ok s [0xC0120058] []" "running_task s = 0xC0120014"
    "state (task s 0xC0120014) = TASK_RUNNING" "state (task s 0xC0120058) = TASK_READY" by (rule boot_state)
  let ?s = "s\<lparr>scheduling_enabled := True\<rparr>"
  have "sched_ok s [0xC0120058] []" using s by (simp add: sched_ok_def)
  then have "sched_ok ?s [0xC0120058] []" using sched_ok_cong [of ?s s] by simp
  then have "\<exists>s' rs' ss'. do_scheduling regs0 ?s = Some (Inr s') \<and> sched_ok s' rs' ss'"
    using do_scheduling_keeps [of ?s "[0xC0120058]" "[]" regs0] s(3,4) by (auto simp: regs0_def)
  moreover have "running_task ?s = 0xC0120014" using s(3) by simp
  ultimately show ?thesis by blast
qed

lemma kill_eq:
  assumes "queues s rs ss" "running_task s \<noteq> 0"
  shows "kill n s = Some (Inr (case find (\<lambda>t. pid (task s t) = n) (running_task s # rs @ ss) of
      None \<Rightarrow> s | Some t \<Rightarrow> upd_task (\<lambda>x. x\<lparr>state := TASK_DESTROY\<rparr>) t s))"
proof -
  have r: "0 \<notin> set rs" "0 \<notin> set ss" using assms queuesD(3,4) by auto
  have w: "walk_find next_task (\<lambda>x. pid x = n) (task s) (ready_queue_head s) =
      Some (case find (\<lambda>a. pid (task s a) = n) rs of None \<Rightarrow> 0 | Some a \<Rightarrow> a)"
    "walk_find next_task (\<lambda>x. pid x = n) (task s) (sleep_queue_head s) =
      Some (case find (\<lambda>a. pid (task s a) = n) ss of None \<Rightarrow> 0 | Some a \<Rightarrow> a)"
    using assms(1) by (auto simp: queues_def intro!: walk_find_first)
  have nz: "find P xs = Some t \<Longrightarrow> 0 \<notin> set xs \<Longrightarrow> t \<noteq> 0" for P xs and t :: addr
    by (metis find_Some_iff nth_mem)
  have ap: "find P (xs @ ys) = (case find P xs of None \<Rightarrow> find P ys | Some t \<Rightarrow> Some t)" for P and xs ys :: "addr list"
    by (induction xs) auto
  show ?thesis
    using assms(2) r w nz [of _ rs] nz [of _ ss]
    by (auto simp: kill_def find_task_def ap split: option.splits)
qed

text \<open>\<open>kill\<close> marks the first task with the process id, looking at the running task, the ready
  queue and the sleep queue in that order, and changes nothing else; without such a task it does
  nothing.\<close>

theorem kill_marks:
  assumes "queues s rs ss" "running_task s \<noteq> 0"
  shows "kill n s = Some (Inr (case find (\<lambda>t. pid (task s t) = n) (running_task s # rs @ ss) of
      None \<Rightarrow> s | Some t \<Rightarrow> upd_task (\<lambda>x. x\<lparr>state := TASK_DESTROY\<rparr>) t s))"
  using assms by (rule kill_eq)

theorem kill_marks_witness:
  "kill 7 (sleepers 1) = Some (Inr (upd_task (\<lambda>x. x\<lparr>state := TASK_DESTROY\<rparr>) 0x200 (sleepers 1)))"
  using kill_marks [OF sleepers_queues, of 1 7] by (simp add: sleepers_def task0_def)

text \<open>Killing a sleeping task does not destroy it: when it wakes up, \<open>update_sleep_queue\<close> sets
  its state back to ready and the mark is lost.\<close>

theorem kill_sleeping_undone:
  assumes "queues s rs ss" "running_task s \<noteq> 0" "ss \<noteq> [] \<Longrightarrow> 0 < delta s (hd ss)"
    "find (\<lambda>t. pid (task s t) = n) (running_task s # rs @ ss) = Some t" "map_of (wakes (delta s) ss 0) t = Some 1"
  shows "\<exists>s1 s2. kill n s = Some (Inr s1) \<and> destroyed s1 t \<and> update_sleep_queue s1 = Some (Inr s2) \<and> state (task s2 t) = TASK_READY"
proof -
  let ?s = "upd_task (\<lambda>x. x\<lparr>state := TASK_DESTROY\<rparr>) t s"
  have k: "kill n s = Some (Inr ?s)" using kill_eq [OF assms(1,2), of n] assms(4) by simp
  have d: "delta ?s = delta s" by (auto simp: delta_def task_upd_task upd_at_apply)
  have q: "queues ?s rs ss" using assms(1) queues_cong [of rs ss ?s s] by (simp add: task_upd_task upd_at_apply)
  obtain s2 ws ss' where u: "update_sleep_queue ?s = Some (Inr s2)" "ticked ?s rs ss s2 ws ss'"
    "\<forall>a. state (task s2 a) = (if a \<in> set ws then TASK_READY else state (task ?s a))"
    using update_sleep_spec [OF q] assms(3) unfolding d by blast
  have "t \<in> fst ` set (wakes (delta s) ss 0)" using assms(5) by (force dest: map_of_SomeD)
  then have "t \<in> set ws \<or> t \<in> set ss'" using u(2) wakes_dom [of "delta s" ss 0] by (auto simp: ticked_def)
  then have "t \<in> set ws" using u(2) assms(5) by (auto simp: ticked_def d)
  with k u show ?thesis by (intro exI [of _ ?s] exI [of _ s2]) (simp add: destroyed_def)
qed

definition dozer :: sched where
  "dozer = (sleepers 1)\<lparr>task := (task (sleepers 1))(0x100 := task0\<lparr>next_task := 0x200, sleep_ticks := 1, state := 3, pid := 9\<rparr>)\<rparr>"

theorem kill_sleeping_undone_witness:
  "\<exists>s1 s2. kill 9 dozer = Some (Inr s1) \<and> destroyed s1 0x100 \<and> update_sleep_queue s1 = Some (Inr s2)
     \<and> state (task s2 0x100) = TASK_READY"
proof -
  have q: "queues dozer [] [0x100, 0x200]"
    by (simp add: queues_def dozer_def sleepers_def sched0_def last_or_null_def task0_def)
  show ?thesis
    using kill_sleeping_undone [OF q, of 9 "0x100"] by (simp add: dozer_def sleepers_def delta_def task0_def)
qed

text \<open>\<open>usleep\<close> counts ticks modulo \<open>2^32\<close> before it divides: a sleep of 4294968 milliseconds,
  71 minutes and 35 seconds, asks for a single tick.\<close>

theorem usleep_wraps: "usleep 4294968 regs s = sleep_for 1 regs s"
  by (simp add: usleep_def KERNEL_SCHED_HZ_def)

end
