(* ===== verification/Sched_Machine.thy ===== *)
theory Sched_Machine
  imports Sched_Spec
begin

text \<open>
  The scheduler as a state machine: every operation of \<open>kernel/sched.c\<close> is a step, the clock
  interrupt included, and a reachable state is one that steps lead to from \<open>sched_init\<close>. The
  invariants of the queues, of the sleepers and of the memory the tasks own hold in every reachable
  state, and the operations fail in the listed situations only.
\<close>

section \<open>Going to sleep, whatever the queue holds\<close>

text \<open>
  The search of \<open>enqueue_sleep_task\<close> without any assumption on the sum of the ticks, which may have
  wrapped around: it either stops in front of a sleeper or reaches the end.
\<close>

lemma sleep_search_walk:
  "llist next_task (task s) z as \<Longrightarrow>
   (\<exists>acc'. sleep_search T y acc x z s = Some (Inr (Some acc', s))) \<or>
   (\<exists>as1 z' bs acc'. as = as1 @ z' # bs \<and> acc' < T \<and> T < acc' + sleep_ticks (task s z') \<and> (as1 = [] \<longrightarrow> acc' = acc) \<and>
      sleep_search T y acc x z s = sleep_search T y acc' (if as1 = [] then x else last as1) z' s)"
proof (induction as arbitrary: z acc x)
  case Nil
  then show ?case by (simp add: sleep_search_end)
next
  case (Cons a as)
  then have a: "z = a" "a \<noteq> 0" "llist next_task (task s) (next_task (task s a)) as" by auto
  show ?case
  proof (cases "acc < T \<and> T < acc + sleep_ticks (task s a)")
    case True
    then show ?thesis using a(1) by (intro disjI2 exI [of _ "[]"] exI [of _ a] exI [of _ as] exI [of _ acc]) simp
  next
    case False
    then have e: "sleep_search T y acc x z s = sleep_search T y (acc + sleep_ticks (task s a)) a (next_task (task s a)) s"
      using a(1,2) by (subst sleep_search.simps) auto
    from Cons.IH [OF a(3), of "acc + sleep_ticks (task s a)" a] show ?thesis
    proof (elim disjE exE conjE)
      fix as1 z' bs acc'
      assume h: "as = as1 @ z' # bs" "acc' < T" "T < acc' + sleep_ticks (task s z')"
        "sleep_search T y (acc + sleep_ticks (task s a)) a (next_task (task s a)) s =
           sleep_search T y acc' (if as1 = [] then a else last as1) z' s"
      then show ?thesis using e
        by (intro disjI2 exI [of _ "a # as1"] exI [of _ z'] exI [of _ bs] exI [of _ acc']) auto
    qed (use e in auto)
  qed
qed

text \<open>What a task going to sleep changes: the sleep queue, links and ticks.\<close>

definition slept :: "sched \<Rightarrow> addr list \<Rightarrow> addr list \<Rightarrow> addr \<Rightarrow> sched \<Rightarrow> addr list \<Rightarrow> bool" where
  "slept s rs ss y s' ss' \<longleftrightarrow> queues s' rs ss' \<and> set ss' = insert y (set ss) \<and> ss' \<noteq> [] \<and> 0 < delta s' (hd ss')
     \<and> (\<forall>a. (task s' a)\<lparr>next_task := 0, sleep_ticks := 0\<rparr> = (task s a)\<lparr>next_task := 0, sleep_ticks := 0\<rparr>)
     \<and> k_heap s' = k_heap s \<and> running_task s' = running_task s \<and> phys_of_pd s' = phys_of_pd s
     \<and> scheduling_enabled s' = scheduling_enabled s"

lemma slept_fields:
  assumes "slept s rs ss y s' ss'"
  shows "state (task s' a) = state (task s a)" "stack (task s' a) = stack (task s a)"
    "page_dir (task s' a) = page_dir (task s a)" "context_of s' a = context_of s a"
proof -
  have e: "(task s' a)\<lparr>next_task := 0, sleep_ticks := 0\<rparr> = (task s a)\<lparr>next_task := 0, sleep_ticks := 0\<rparr>"
    using assms by (simp add: slept_def)
  show "state (task s' a) = state (task s a)" using arg_cong [OF e, of state] by simp
  show "stack (task s' a) = stack (task s a)" using arg_cong [OF e, of stack] by simp
  show "page_dir (task s' a) = page_dir (task s a)" using arg_cong [OF e, of page_dir] by simp
  show "context_of s' a = context_of s a"
    using arg_cong [OF e, of eip] arg_cong [OF e, of esp] arg_cong [OF e, of ebp] by (simp add: context_of_def)
qed

lemma enqueue_sleep_cases:
  assumes q: "queues s rs ss" and y: "y \<noteq> 0" "y \<notin> set rs" "y \<notin> set ss" "0 < delta s y"
    and pos: "ss \<noteq> [] \<longrightarrow> 0 < delta s (hd ss)"
  obtains (early) "ss \<noteq> []" "delta s y < delta s (hd ss)" "enqueue_sleep_task y s = Some (Inl (Fault ''null task''))"
  | (ok) s' ss' where "ss = [] \<or> delta s (hd ss) \<le> delta s y" "enqueue_sleep_task y s = Some (Inr s')" "slept s rs ss y s' ss'"
proof (cases ss)
  case Nil
  let ?s = "s\<lparr>sleep_queue_head := y, sleep_queue_tail := y, task := upd_at (next_task_update (\<lambda>_. 0)) y (task s)\<rparr>"
  have "enqueue_sleep_task y s = Some (Inr ?s)"
    using queuesD(6) [OF q] Nil y(1) by (simp add: enqueue_sleep_task_def upd_task_def)
  moreover have "queues ?s rs [y]"
    using q Nil y(1,2) by (auto simp: queues_def tq.lseg_link_other)
  then have "slept s rs ss y ?s [y]" using Nil y(4) by (simp add: slept_def upd_at_apply delta_def)
  ultimately show thesis using ok Nil by blast
next
  case (Cons z zs)
  note pos = pos [unfolded Cons, simplified]
  show thesis
  proof (cases "delta s y < delta s z")
    case True
    then show thesis using early enqueue_sleep_first_faults [of s rs z zs y] q y(4) Cons by simp
  next
    case False
    let ?T = "sleep_ticks (task s y)"
    have h: "llist next_task (task s) (sleep_queue_head s) (z # zs)" "sleep_queue_head s = z" "z \<noteq> 0" "0 \<notin> set ss"
      "sleep_queue_tail s = last ss" "z \<notin> set zs"
      using q Cons queuesD(2,4,6,8) [OF q] by (auto simp: queues_def last_or_null_def)
    from sleep_search_walk [OF h(1), of ?T y 0 0] show thesis
    proof (elim disjE exE conjE)
      fix acc assume a: "sleep_search ?T y 0 0 (sleep_queue_head s) s = Some (Inr (Some acc, s))"
      let ?m = "upd_at (\<lambda>t. t\<lparr>sleep_ticks := ?T - acc\<rparr>) y (upd_at (next_task_update (\<lambda>_. 0)) y (upd_at (next_task_update (\<lambda>_. y)) (last ss) (task s)))"
      have l: "last ss \<noteq> 0" "last ss \<noteq> y" "y \<noteq> z" using h(4) y(3) Cons last_in_set [of ss] by force+
      have "enqueue_sleep_task y s = Some (Inr (s\<lparr>task := ?m, sleep_queue_tail := y\<rparr>))"
        using a h(2,3,5) l(1) y(1) by (simp add: enqueue_sleep_task_def Let_def upd_task_def)
      moreover have "queues (s\<lparr>task := ?m, sleep_queue_tail := y\<rparr>) rs (ss @ [y])"
        by (rule sleep_append_queues [OF q _ y(1-3)]) (use l Cons in \<open>simp_all add: upd_at_apply\<close>)
      then have "slept s rs ss y (s\<lparr>task := ?m, sleep_queue_tail := y\<rparr>) (ss @ [y])"
        using Cons pos l(3) by (auto simp: slept_def upd_at_apply delta_def)
      ultimately show thesis using ok False Cons by simp
    next
      fix as w bs acc
      assume a: "z # zs = as @ w # bs" "acc < ?T" "?T < acc + sleep_ticks (task s w)" "as = [] \<longrightarrow> acc = 0"
        "sleep_search ?T y 0 0 (sleep_queue_head s) s = sleep_search ?T y acc (if as = [] then 0 else last as) w s"
      have ne: "as \<noteq> []" using a False by (auto simp: less32_iff delta_def)
      have ss: "ss = as @ w # bs" using a(1) Cons by simp
      have "last as \<noteq> 0" using h(4) ss last_in_set [OF ne] by (metis UnI1 set_append)
      then have l: "last as \<noteq> 0" "w \<noteq> 0" "y \<noteq> w" "hd ss \<noteq> w" "hd ss \<noteq> y" "hd (as @ y # w # bs) = hd ss"
        using h(4) y(3) ss ne queuesD(2) [OF q] by (auto simp: hd_append)
      let ?m = "upd_at (\<lambda>t. t\<lparr>sleep_ticks := sleep_ticks t - (?T - acc)\<rparr>) w
        (upd_at (\<lambda>t. t\<lparr>sleep_ticks := ?T - acc\<rparr>) y
         (upd_at (next_task_update (\<lambda>_. w)) y
          (upd_at (next_task_update (\<lambda>_. y)) (last as) (task s))))"
      have "enqueue_sleep_task y s = Some (Inr (s\<lparr>task := ?m\<rparr>))"
        using sleep_search_hit [OF l(2) y(1) l(3) a(2,3), of "last as"] a(5) ne l(1) h(2,3)
        by (simp add: enqueue_sleep_task_def Let_def)
      note e = this
      have "queues (s\<lparr>task := ?m\<rparr>) rs (as @ y # w # bs)"
        by (rule sleep_insert_queues [OF q [unfolded ss] ne y(1,2)]) (use y(3) ss in \<open>simp_all add: upd_at_apply\<close>)
      moreover have "set (as @ y # w # bs) = insert y (set ss)" using ss by auto
      moreover have "0 < delta (s\<lparr>task := ?m\<rparr>) (hd (as @ y # w # bs))"
        using l(4-6) pos Cons by (auto simp: delta_def upd_at_apply)
      moreover have "(?m a)\<lparr>next_task := 0, sleep_ticks := 0\<rparr> = (task s a)\<lparr>next_task := 0, sleep_ticks := 0\<rparr>" for a
        by (simp add: upd_at_apply)
      ultimately have "slept s rs ss y (s\<lparr>task := ?m\<rparr>) (as @ y # w # bs)"
        unfolding slept_def by simp
      with e show thesis using ok False Cons by simp
    qed
  qed
qed

section \<open>Outcomes of a switch\<close>

definition queue_empty :: kerror where
  "queue_empty = Panic ''sched: ready queue should never be empty!''"

text \<open>
  \<open>accounted h0 s T\<close>: of the blocks of the heap, exactly those live that lived in the heap \<open>h0\<close> at the
  start and those of the tasks \<open>T\<close>.
\<close>

definition accounted :: "heap \<Rightarrow> sched \<Rightarrow> addr set \<Rightarrow> bool" where
  "accounted h0 s T \<longleftrightarrow>
     (\<forall>q. (\<exists>k. heap_live (k_heap s) q k) \<longleftrightarrow> (\<exists>k. heap_live h0 q k) \<or> q \<in> blocks_of s T) \<and>
     (\<forall>q \<in> blocks_of s T. \<not> (\<exists>k. heap_live h0 q k))"

abbreviation tasks_of :: "sched \<Rightarrow> addr list \<Rightarrow> addr list \<Rightarrow> addr set" where
  "tasks_of s rs ss \<equiv> insert (running_task s) (set rs \<union> set ss)"

definition machine_ok :: "heap \<Rightarrow> sched \<Rightarrow> addr list \<Rightarrow> addr list \<Rightarrow> bool" where
  "machine_ok h0 s rs ss \<longleftrightarrow> sched_ok s rs ss \<and> scheduling_enabled s \<and> accounted h0 s (tasks_of s rs ss)"

lemma accounted_freed:
  assumes "accounted h0 s T" "owned s T" "F \<subseteq> T" "\<And>a. stack (task s' a) = stack (task s a)"
    "\<And>q k. heap_live (k_heap s') q k \<longleftrightarrow> heap_live (k_heap s) q k \<and> q \<notin> blocks_of s F"
  shows "accounted h0 s' (T - F)"
proof -
  have "u \<notin> blocks_of s F \<and> stack (task s u) \<notin> blocks_of s F" if "u \<in> T - F" for u
    using ownedD(4,5) [OF assms(2)] that assms(3) unfolding blocks_of_def by blast
  then have "blocks_of s' (T - F) = blocks_of s T - blocks_of s F"
    using assms(4) unfolding blocks_of_def by auto
  moreover have "blocks_of s F \<subseteq> blocks_of s T" using assms(3) by (auto simp: blocks_of_def)
  moreover have "(\<exists>k. heap_live (k_heap s') q k) \<longleftrightarrow> (\<exists>k. heap_live (k_heap s) q k) \<and> q \<notin> blocks_of s F" for q
    using assms(5) by auto
  ultimately show ?thesis using assms(1) unfolding accounted_def by auto
qed

lemma accounted_cong:
  "accounted h0 s T \<Longrightarrow> k_heap s' = k_heap s \<Longrightarrow> (\<And>a. stack (task s' a) = stack (task s a)) \<Longrightarrow> accounted h0 s' T"
  by (simp add: accounted_def blocks_of_def)

text \<open>The tasks at the front of the queue that are not freed.\<close>

lemma tasks_left:
  assumes "dropWhile P rs = t # rs'" "distinct rs" "set rs \<inter> S = {}"
  shows "insert t (set rs' \<union> S) = set rs \<union> S - set (takeWhile P rs)"
proof -
  define ds where "ds = takeWhile P rs"
  have "rs = ds @ t # rs'" using assms(1) takeWhile_dropWhile_id [of P rs] by (simp add: ds_def)
  then show ?thesis using assms(2,3) unfolding ds_def [symmetric] by auto
qed

text \<open>The second half of a switch when all tasks of the ready queue are marked.\<close>

lemma switch_finish_empty:
  assumes "queues s rs ss" "owned s T" "set rs \<subseteq> T" "dropWhile (destroyed s) rs = []"
  shows "map_option (\<lambda>r. rbind r (\<lambda>s. Inr (load_task s))) (pick_loop (s\<lparr>running_task := 0\<rparr>)) = Some (Inl queue_empty)"
proof -
  have e: "destroyed (s\<lparr>running_task := 0\<rparr>) = destroyed s" by (auto simp: destroyed_def)
  have "picked (s\<lparr>running_task := 0\<rparr>) rs ss T (pick_loop (s\<lparr>running_task := 0\<rparr>))"
    using pick_loop_spec [of "s\<lparr>running_task := 0\<rparr>" rs ss T] assms(1-3) by simp
  then show ?thesis using assms(4) by (simp add: picked_def e queue_empty_def del: dropWhile_eq_Nil_conv)
qed

lemma switch_outcome:
  assumes "machine_ok h0 s rs ss" "r_eip regs \<noteq> 0x12345"
  shows "case dropWhile (destroyed s) (rs @ [running_task s]) of
      [] \<Rightarrow> switch_task regs s = Some (Inl queue_empty)
    | t # rs' \<Rightarrow> \<exists>s'. switch_task regs s = Some (Inr s') \<and> running_task s' = t \<and> machine_ok h0 s' rs' ss"
proof -
  let ?r = "running_task s"
  have inv: "sched_inv s rs ss" "states_ok s rs ss" "ss \<noteq> [] \<longrightarrow> 0 < delta s (hd ss)" "accounted h0 s (tasks_of s rs ss)"
    "scheduling_enabled s" "queues s rs ss" "owned s (tasks_of s rs ss)" "?r \<noteq> 0" "?r \<notin> set rs" "?r \<notin> set ss"
    using assms(1) by (simp_all add: machine_ok_def sched_ok_def sched_inv_def)
  have run: "state (task s ?r) = TASK_RUNNING \<or> destroyed s ?r" using inv(2) by (simp add: states_ok_def)
  show ?thesis
  proof (cases "dropWhile (destroyed s) (rs @ [?r])")
    case Nil
    obtain s2 where s2: "requeue_running (upd_task (save_regs regs) ?r (s\<lparr>interrupts := False\<rparr>)) = Some (Inr s2)"
      and q: "requeued regs s rs ss s2" using requeue_ready [OF inv(1) run] by blast
    have "queues s2 (rs @ [?r]) ss" "owned s2 (tasks_of s rs ss)" using q by (simp_all add: requeued_def Let_def)
    from switch_finish_empty [OF this] Nil requeued_destroyed [OF q]
    have "map_option (\<lambda>r. rbind r (\<lambda>s. Inr (load_task s))) (pick_loop (s2\<lparr>running_task := 0\<rparr>)) = Some (Inl queue_empty)" by auto
    then show ?thesis using Nil switch_task_unfold [OF assms(2) inv(8)] s2 by simp
  next
    case (Cons t rs')
    obtain s' where s': "switch_task regs s = Some (Inr s')" "running_task s' = t" "sched_inv s' rs' ss"
      "\<forall>a. state (task s' a) = (if a = t then TASK_RUNNING
         else if a = ?r \<and> state (task s a) = TASK_RUNNING then TASK_READY else state (task s a))"
      "\<forall>a. sleep_ticks (task s' a) = sleep_ticks (task s a)" "\<forall>a. stack (task s' a) = stack (task s a)"
      "scheduling_enabled s' = scheduling_enabled s"
      "\<forall>q k. heap_live (k_heap s') q k \<longleftrightarrow>
         heap_live (k_heap s) q k \<and> q \<notin> blocks_of s (set (takeWhile (destroyed s) (rs @ [?r])))"
      using switch_ready [OF inv(1) run assms(2) Cons] by blast
    have "delta s' = delta s" using s'(5) by (auto simp: delta_def)
    then have "sched_ok s' rs' ss"
      using s'(3) inv(3) states_ok_switch [OF inv(2) Cons inv(1) s'(4,2)] by (simp add: sched_ok_def)
    moreover have "distinct (rs @ [?r])" "set (rs @ [?r]) \<inter> set ss = {}" using queuesD(1,9) [OF inv(6)] inv(9,10) by auto
    from tasks_left [OF Cons this] have T: "tasks_of s' rs' ss = tasks_of s rs ss - set (takeWhile (destroyed s) (rs @ [?r]))"
      using s'(2) by simp
    have "accounted h0 s' (tasks_of s' rs' ss)"
      unfolding T
    proof (rule accounted_freed [OF inv(4,7)])
      show "set (takeWhile (destroyed s) (rs @ [?r])) \<subseteq> tasks_of s rs ss" using set_takeWhileD by fastforce
    qed (use s'(6,8) in simp_all)
    ultimately show ?thesis using s'(1,2,7) inv(5) Cons by (simp add: machine_ok_def)
  qed
qed

text \<open>Going to sleep for \<open>n\<close> ticks.\<close>

definition dozing :: "u32 \<Rightarrow> cpu_regs \<Rightarrow> sched \<Rightarrow> sched" where
  "dozing n regs s = upd_task (\<lambda>x. save_regs regs (x\<lparr>sleep_ticks := n, state := TASK_SLEEPING\<rparr>)) (running_task s) (s\<lparr>interrupts := False\<rparr>)"

lemma dozing_sel:
  "running_task (dozing n regs s) = running_task s" "k_heap (dozing n regs s) = k_heap s"
  "scheduling_enabled (dozing n regs s) = scheduling_enabled s" "stack (task (dozing n regs s) a) = stack (task s a)"
  "next_task (task (dozing n regs s) a) = next_task (task s a)" "queues (dozing n regs s) rs ss = queues s rs ss"
  "state (task (dozing n regs s) a) = (if a = running_task s then TASK_SLEEPING else state (task s a))"
  "delta (dozing n regs s) a = (if a = running_task s then unat n else delta s a)"
proof -
  show nx: "next_task (task (dozing n regs s) a) = next_task (task s a)" for a
    by (simp add: dozing_def task_upd_task upd_at_apply)
  show "queues (dozing n regs s) rs ss = queues s rs ss"
    by (rule queues_cong) (simp add: nx, simp_all add: dozing_def)
qed (simp_all add: dozing_def task_upd_task upd_at_apply delta_def)

lemma sleep_for_eq:
  assumes "running_task s \<noteq> 0" "r_eip regs \<noteq> 0x12345"
  shows "sleep_for n regs s =
    (case enqueue_sleep_task (running_task s) (dozing n regs s) of
       None \<Rightarrow> None
     | Some (Inl e) \<Rightarrow> Some (Inl e)
     | Some (Inr s) \<Rightarrow> map_option (\<lambda>r. rbind r (\<lambda>s. Inr (load_task s))) (pick_loop (s\<lparr>running_task := 0\<rparr>)))"
proof -
  let ?u = "upd_task (\<lambda>x. x\<lparr>sleep_ticks := n, state := TASK_SLEEPING\<rparr>) (running_task s) s"
  have "sleep_for n regs s = switch_task regs ?u"
    using assms(1) by (simp add: sleep_for_def set_task_def upd_task_def upd_at_def comp_def)
  moreover have "upd_task (save_regs regs) (running_task ?u) (?u\<lparr>interrupts := False\<rparr>) = dozing n regs s"
    by (simp add: dozing_def upd_task_def upd_at_def comp_def)
  moreover have "requeue_running (dozing n regs s) = enqueue_sleep_task (running_task s) (dozing n regs s)"
    using assms(1) by (simp add: requeue_running_def Let_def dozing_sel task_states)
  ultimately show ?thesis using switch_task_unfold [OF assms(2), of ?u] assms(1) by simp
qed

text \<open>The states after a task \<open>r\<close> went to sleep and \<open>t\<close> runs instead.\<close>

lemma sleep_states:
  assumes "sched_inv s rs ss" "states_ok s rs ss" "sched_inv s' rs' ss'" "dropWhile (destroyed s) rs = t # rs'"
    "running_task s' = t" "set ss' = insert (running_task s) (set ss)"
    "\<And>a. state (task s' a) = (if a = t then TASK_RUNNING else if a = running_task s then TASK_SLEEPING else state (task s a))"
  shows "states_ok s' rs' ss'"
proof -
  have sub: "set rs' \<subseteq> set rs" using set_dropWhileD [of _ "destroyed s" rs] assms(4) by auto
  have "t \<notin> set rs'" "t \<notin> set ss'" using assms(3,5) by (simp_all add: sched_inv_def)
  moreover have "running_task s \<notin> set rs'" using assms(1) sub by (auto simp: sched_inv_def)
  ultimately show ?thesis
    using assms(2,5-7) sub unfolding states_ok_def destroyed_def by auto
qed

lemma sleep_outcome:
  assumes ok: "machine_ok h0 s rs ss" and "r_eip regs \<noteq> 0x12345" "0 < unat n"
  shows "if ss \<noteq> [] \<and> unat n < delta s (hd ss) then sleep_for n regs s = Some (Inl (Fault ''null task''))
    else case dropWhile (destroyed s) rs of
        [] \<Rightarrow> sleep_for n regs s = Some (Inl queue_empty)
      | t # rs' \<Rightarrow> \<exists>s' ss'. sleep_for n regs s = Some (Inr s') \<and> running_task s' = t \<and> set ss' = insert (running_task s) (set ss)
          \<and> machine_ok h0 s' rs' ss'"
proof -
  let ?r = "running_task s" and ?d = "dozing n regs s"
  have inv: "sched_inv s rs ss" "states_ok s rs ss" "ss \<noteq> [] \<longrightarrow> 0 < delta s (hd ss)" "accounted h0 s (tasks_of s rs ss)"
    "scheduling_enabled s" "queues s rs ss" "owned s (tasks_of s rs ss)" "?r \<noteq> 0" "?r \<notin> set rs" "?r \<notin> set ss"
    using ok by (simp_all add: machine_ok_def sched_ok_def sched_inv_def)
  have hd: "ss \<noteq> [] \<Longrightarrow> delta ?d (hd ss) = delta s (hd ss)" "delta ?d ?r = unat n"
    using inv(10) hd_in_set [of ss] by (auto simp: dozing_sel simp del: hd_in_set)
  have q: "queues ?d rs ss" using inv(6) by (simp add: dozing_sel)
  have pos: "0 < delta ?d ?r" "ss \<noteq> [] \<longrightarrow> 0 < delta ?d (hd ss)" using assms(3) hd inv(3) by simp_all
  show ?thesis
  proof (cases rule: enqueue_sleep_cases [OF q inv(8-10) pos, case_names early ok])
    case early
    then show ?thesis using hd sleep_for_eq [OF inv(8) assms(2)] by simp
  next
    case (ok s2 ss')
    note sl = ok(3) and f = slept_fields [OF ok(3)]
    have s2: "queues s2 rs ss'" "set ss' = insert ?r (set ss)" "ss' \<noteq> []" "0 < delta s2 (hd ss')" "k_heap s2 = k_heap s"
      "scheduling_enabled s2 = scheduling_enabled s" using sl by (simp_all add: slept_def dozing_sel)
    have e: "sleep_for n regs s = map_option (\<lambda>r. rbind r (\<lambda>s. Inr (load_task s))) (pick_loop (s2\<lparr>running_task := 0\<rparr>))"
      using sleep_for_eq [OF inv(8) assms(2)] ok(2) by simp
    have d: "destroyed s2 t = destroyed s t" if "t \<in> set rs" for t
      using that inv(9) f(1) by (auto simp: destroyed_def dozing_sel)
    have dw: "dropWhile (destroyed s2) rs = dropWhile (destroyed s) rs" "takeWhile (destroyed s2) rs = takeWhile (destroyed s) rs"
      using d by (auto cong: dropWhile_cong takeWhile_cong)
    have own: "owned s2 (tasks_of s rs ss)" using inv(7) owned_cong [of s2 s] s2(5) f(2) by (simp add: dozing_sel)
    have T: "tasks_of s rs ss = set rs \<union> set ss'" using s2(2) by auto
    have c: "\<not> (ss \<noteq> [] \<and> unat n < delta s (hd ss))" using ok(1) hd by auto
    show ?thesis
    proof (cases "dropWhile (destroyed s) rs")
      case Nil
      have "dropWhile (destroyed s2) rs = []" unfolding dw(1) by (rule Nil)
      from switch_finish_empty [OF s2(1) own _ this] have "sleep_for n regs s = Some (Inl queue_empty)" unfolding e by auto
      then show ?thesis using c unfolding Nil by auto
    next
      case (Cons t rs')
      have "dropWhile (destroyed s2) rs = t # rs'" using dw(1) Cons by simp
      from switch_finish [OF s2(1) own _ this] T obtain s' where s': "sleep_for n regs s = Some (Inr s')" "running_task s' = t"
        "sched_inv s' rs' ss'" "\<And>a. state (task s' a) = (if a = t then TASK_RUNNING else state (task s2 a))"
        "\<And>a. sleep_ticks (task s' a) = sleep_ticks (task s2 a)" "\<And>a. stack (task s' a) = stack (task s2 a)"
        "scheduling_enabled s' = scheduling_enabled s2"
        "\<And>q k. heap_live (k_heap s') q k \<longleftrightarrow>
           heap_live (k_heap s2) q k \<and> q \<notin> blocks_of s2 (set (takeWhile (destroyed s2) rs))"
        unfolding e by auto
      have "delta s' = delta s2" using s'(5) by (auto simp: delta_def)
      moreover have "states_ok s' rs' ss'" by (rule sleep_states [OF inv(1,2) s'(3) Cons]) (use s' s2 f in \<open>simp_all add: dozing_sel\<close>)
      ultimately have "sched_ok s' rs' ss'" using s'(3) s2(3,4) by (simp add: sched_ok_def)
      moreover have "accounted h0 s' (tasks_of s' rs' ss')"
      proof -
        have "distinct rs" "set rs \<inter> set ss' = {}" using queuesD(1,9) [OF s2(1)] by auto
        from tasks_left [OF Cons this] have "tasks_of s' rs' ss' = tasks_of s rs ss - set (takeWhile (destroyed s) rs)"
          using s'(2) T by simp
        moreover have "accounted h0 s2 (tasks_of s rs ss)"
          using accounted_cong [OF inv(4), of s2] s2(5) f(2) by (simp add: dozing_sel)
        moreover have "set (takeWhile (destroyed s) rs) \<subseteq> tasks_of s rs ss" using set_takeWhileD by fastforce
        ultimately show ?thesis using accounted_freed [OF _ own, of h0 "set (takeWhile (destroyed s) rs)" s'] s'(6,8) dw(2) by simp
      qed
      ultimately show ?thesis using c Cons s' s2 inv(5) by (auto simp: machine_ok_def)
    qed
  qed
qed

section \<open>Outcomes of the other operations\<close>

lemma kill_outcome:
  assumes "machine_ok h0 s rs ss"
  shows "\<exists>s'. kill n s = Some (Inr s') \<and> machine_ok h0 s' rs ss"
proof -
  have inv: "queues s rs ss" "running_task s \<noteq> 0" using assms by (simp_all add: machine_ok_def sched_ok_def sched_inv_def)
  have "machine_ok h0 (upd_task (\<lambda>x. x\<lparr>state := TASK_DESTROY\<rparr>) t s) rs ss" for t
  proof -
    let ?u = "upd_task (\<lambda>x. x\<lparr>state := TASK_DESTROY\<rparr>) t s"
    have "queues ?u rs ss = queues s rs ss" by (rule queues_cong) (simp_all add: task_upd_task upd_at_apply)
    moreover have "owned ?u T = owned s T" for T by (rule owned_cong) (simp_all add: task_upd_task upd_at_apply)
    moreover have "delta ?u = delta s" by (auto simp: delta_def task_upd_task upd_at_apply)
    moreover have "accounted h0 ?u T" if "accounted h0 s T" for T
      by (rule accounted_cong [OF that]) (simp_all add: task_upd_task upd_at_apply)
    ultimately show ?thesis using assms
      by (auto simp: machine_ok_def sched_ok_def sched_inv_def states_ok_def destroyed_def task_upd_task upd_at_apply)
  qed
  then show ?thesis using kill_eq [OF inv, of n] assms by (auto split: option.splits)
qed

text \<open>Creating a task, whenever it returns: without memory nothing changes for the tasks there are.\<close>

lemma spawn_fails:
  assumes ok: "machine_ok h0 s rs ss" and s1: "heap_wf (k_heap s1)" "\<forall>q k. heap_live (k_heap s1) q k \<longleftrightarrow> heap_live (k_heap s) q k"
    "tasking.more s1 = tasking.more s" "\<forall>a k. heap_live (k_heap s) a k \<longrightarrow> task s1 a = task s a"
  shows "machine_ok h0 s1 rs ss"
proof -
  note m = sched_more [OF s1(3)]
  have inv: "sched_inv s rs ss" "queues s rs ss" "owned s (tasks_of s rs ss)" using ok by (simp_all add: machine_ok_def sched_ok_def sched_inv_def)
  have same: "task s1 a = task s a" if "a \<in> tasks_of s rs ss" for a using ownedD(2) [OF inv(3) that] s1(4) by blast
  have "queues s1 rs ss = queues s rs ss" by (rule queues_cong) (simp_all add: m same)
  moreover have live: "heap_live (k_heap s1) = heap_live (k_heap s)" using s1(2) by blast
  have "owned s1 (tasks_of s rs ss)" using inv(3) s1(1) same unfolding owned_def live by simp
  ultimately have "sched_inv s1 rs ss" using inv(1) by (simp add: sched_inv_def m same)
  moreover have "states_ok s1 rs ss = states_ok s rs ss" unfolding states_ok_def destroyed_def by (simp add: m same)
  moreover have "ss \<noteq> [] \<Longrightarrow> delta s1 (hd ss) = delta s (hd ss)" by (simp add: delta_def same)
  moreover have "blocks_of s1 (tasks_of s rs ss) = blocks_of s (tasks_of s rs ss)" unfolding blocks_of_def using same by force
  ultimately show ?thesis using ok s1(2) m by (simp add: machine_ok_def sched_ok_def accounted_def)
qed

lemma spawn_outcome:
  assumes ok: "machine_ok h0 s rs ss" and r: "create_kernel_task fn s = Some r"
  shows "\<exists>n s' rs'. r = Inr (n, s') \<and> machine_ok h0 s' rs' ss"
proof -
  have inv: "sched_inv s rs ss" "states_ok s rs ss" "ss \<noteq> [] \<longrightarrow> 0 < delta s (hd ss)" "accounted h0 s (tasks_of s rs ss)"
    "scheduling_enabled s" "owned s (tasks_of s rs ss)"
    using ok by (simp_all add: machine_ok_def sched_ok_def sched_inv_def)
  then have wf: "heap_wf (k_heap s)" by (simp add: owned_def)
  obtain r0 where r0: "new_task s = Some r0" using r by (auto simp: create_kernel_task_def)
  show ?thesis
  proof (cases rule: new_task_cases [OF wf r0, case_names fail ok])
    case (fail s1)
    then have "r = Inr (0, s1)" using r r0 by (simp add: create_kernel_task_def)
    with fail spawn_fails [OF ok, of s1] show ?thesis by blast
  next
    case (ok t s1 p mt mp)
    have n: "new_task s = Some (Inr (t, s1))" using r0 ok(1) by simp
    obtain s' where s': "create_kernel_task fn s = Some (Inr (n_pid s, s'))" "sched_inv s' (rs @ [t]) ss" "states_ok s' (rs @ [t]) ss"
      "t \<notin> tasks_of s rs ss" "k_heap s' = k_heap s1" "scheduling_enabled s' = scheduling_enabled s" "stack (task s' t) = stack (task s1 t)"
      "running_task s' = running_task s" "\<forall>a. a \<noteq> t \<longrightarrow> (task s' a)\<lparr>next_task := 0\<rparr> = (task s a)\<lparr>next_task := 0\<rparr>"
      using create_kernel_task_ok [OF inv(1,2) n ok(2), of fn] by auto
    have old: "stack (task s' a) = stack (task s a)" "delta s' a = delta s a" if "a \<noteq> t" for a
    proof -
      have e: "(task s' a)\<lparr>next_task := 0\<rparr> = (task s a)\<lparr>next_task := 0\<rparr>" using s'(9) that by blast
      show "stack (task s' a) = stack (task s a)" using arg_cong [OF e, of stack] by simp
      show "delta s' a = delta s a" using arg_cong [OF e, of sleep_ticks] by (simp add: delta_def)
    qed
    have "ss \<noteq> [] \<Longrightarrow> hd ss \<noteq> t" using s'(4) hd_in_set [of ss] by auto
    then have "sched_ok s' (rs @ [t]) ss" using s'(2,3) inv(3) old(2) by (simp add: sched_ok_def)
    moreover have "stack (task s' t) = p" using s'(7) ok(9) by (simp add: fresh_task_def)
    then have "blocks_of s' (insert t (tasks_of s rs ss)) = insert t (insert p (blocks_of s (tasks_of s rs ss)))"
      using s'(4) old(1) unfolding blocks_of_def by force
    moreover have "tasks_of s' (rs @ [t]) ss = insert t (tasks_of s rs ss)" using s'(8) by auto
    moreover have "(\<exists>k. heap_live (k_heap s') q k) \<longleftrightarrow> (\<exists>k. heap_live (k_heap s) q k) \<or> q = t \<or> q = p" for q
      using s'(5) ok(8) by auto
    moreover have "\<not> (\<exists>k. heap_live h0 t k)" "\<not> (\<exists>k. heap_live h0 p k)" using inv(4) ok(6,7) by (auto simp: accounted_def)
    ultimately have "machine_ok h0 s' (rs @ [t]) ss" using inv(4,5) s'(6) unfolding machine_ok_def accounted_def by auto
    then show ?thesis using r s'(1) by auto
  qed
qed

text \<open>The clock interrupt: the woken tasks are ready before the switch.\<close>

lemma tick_outcome:
  assumes ok: "machine_ok h0 s rs ss" and "r_eip regs \<noteq> 0x12345"
  shows "if (\<forall>t \<in> set (rs @ [running_task s]). destroyed s t) \<and> (\<forall>t. map_of (wakes (delta s) ss 0) t \<noteq> Some 1)
    then do_scheduling regs s = Some (Inl queue_empty)
    else \<exists>s' rs' ss'. do_scheduling regs s = Some (Inr s') \<and> machine_ok h0 s' rs' ss'"
proof -
  have inv: "sched_ok s rs ss" "scheduling_enabled s" "accounted h0 s (tasks_of s rs ss)" using ok by (simp_all add: machine_ok_def)
  obtain s1 ws ss' where s1: "do_scheduling regs s = switch_task regs s1" "ss = ws @ ss'" "sched_ok s1 (rs @ ws) ss'"
    "running_task s1 = running_task s" "k_heap s1 = k_heap s" "scheduling_enabled s1" "\<And>a. stack (task s1 a) = stack (task s a)"
    "\<And>a. state (task s1 a) = (if a \<in> set ws then TASK_READY else state (task s a))"
    "\<And>t. t \<in> set ws \<longleftrightarrow> map_of (wakes (delta s) ss 0) t = Some 1"
    by (rule do_scheduling_wakes [OF inv(1,2), of regs]) blast
  have "tasks_of s1 (rs @ ws) ss' = tasks_of s rs ss" using s1(2,4) by auto
  then have ok1: "machine_ok h0 s1 (rs @ ws) ss'"
    using s1(3,6) accounted_cong [OF inv(3) s1(5,7)] by (simp add: machine_ok_def)
  have dis: "t \<notin> set ws" if "t \<in> set (rs @ [running_task s])" for t
    using inv(1) that s1(2) queuesD(9) [of s rs ss] by (auto simp: sched_ok_def sched_inv_def)
  have "destroyed s1 t \<longleftrightarrow> t \<notin> set ws \<and> destroyed s t" for t using s1(8) by (simp add: destroyed_def task_states)
  then have "dropWhile (destroyed s1) ((rs @ ws) @ [running_task s1]) = [] \<longleftrightarrow>
      (\<forall>t \<in> set (rs @ [running_task s]). destroyed s t) \<and> (\<forall>t. t \<notin> set ws)"
    using dis s1(4) by (cases ws) auto
  note all = this [unfolded s1(9)]
  show ?thesis
  proof (cases "dropWhile (destroyed s1) ((rs @ ws) @ [running_task s1])")
    case Nil
    then have c: "(\<forall>t \<in> set (rs @ [running_task s]). destroyed s t) \<and> (\<forall>t. map_of (wakes (delta s) ss 0) t \<noteq> Some 1)"
      by (rule iffD1 [OF all])
    have "do_scheduling regs s = Some (Inl queue_empty)" using switch_outcome [OF ok1 assms(2)] s1(1) unfolding Nil by simp
    then show ?thesis unfolding if_P [OF c] .
  next
    case (Cons t rs')
    then have c: "\<not> ((\<forall>t \<in> set (rs @ [running_task s]). destroyed s t) \<and> (\<forall>t. map_of (wakes (delta s) ss 0) t \<noteq> Some 1))"
      using all by (metis list.distinct(1))
    have "\<exists>s'. do_scheduling regs s = Some (Inr s') \<and> machine_ok h0 s' rs' ss'"
      using switch_outcome [OF ok1 assms(2)] s1(1) unfolding Cons by auto
    then show ?thesis unfolding if_not_P [OF c] by blast
  qed
qed

section \<open>The state machine\<close>

text \<open>The operations of the scheduler; \<open>Tick\<close> is the clock interrupt.\<close>

datatype sched_op = Spawn u32 | Kill u32 | Yield | Exit | Sleep u32 | Usleep u32 | Tick

definition sched_exec :: "sched_op \<Rightarrow> cpu_regs \<Rightarrow> sched \<Rightarrow> sched result option" where
  "sched_exec op regs s =
     (case op of
        Spawn fn \<Rightarrow> map_option (\<lambda>r. rbind r (\<lambda>(_, s). Inr s)) (create_kernel_task fn s)
      | Kill n \<Rightarrow> kill n s
      | Yield \<Rightarrow> sched_yield regs s
      | Exit \<Rightarrow> sched_kill regs s
      | Sleep n \<Rightarrow> sleep n regs s
      | Usleep n \<Rightarrow> usleep n regs s
      | Tick \<Rightarrow> do_scheduling regs s)"

text \<open>
  \<open>sched_reachable h0 s\<close>: steps lead to \<open>s\<close> from a \<open>sched_init\<close> that found the heap \<open>h0\<close> and the
  variables of the scheduler at their initial values. The registers a step saves are arbitrary, but
  for the instruction pointer that tells \<open>switch_task\<close> it has just been resumed.
\<close>

inductive sched_reachable :: "heap \<Rightarrow> sched \<Rightarrow> bool" for h0 where
  boot: "heap_wf h0 \<Longrightarrow> k_heap s0 = h0 \<Longrightarrow> ready_queue_head s0 = 0 \<Longrightarrow> ready_queue_tail s0 = 0 \<Longrightarrow>
    sleep_queue_head s0 = 0 \<Longrightarrow> sleep_queue_tail s0 = 0 \<Longrightarrow> sched_init s0 = Some (Inr s) \<Longrightarrow> sched_reachable h0 s"
| step: "sched_reachable h0 s \<Longrightarrow> r_eip regs \<noteq> 0x12345 \<Longrightarrow> sched_exec op regs s = Some (Inr s') \<Longrightarrow> sched_reachable h0 s'"

text \<open>The ticks of the two sleep functions are never zero, in spite of their wrap-around.\<close>

lemma sleep_ticks_positive: "0 < unat (KERNEL_SCHED_HZ * n + 1)" "0 < unat ((KERNEL_SCHED_HZ * n) div 1000 + 1)"
proof -
  have "odd (1000 * n + 1)" by simp
  then have "1000 * n + 1 \<noteq> 0" by (metis dvd_0_right)
  then show "0 < unat (KERNEL_SCHED_HZ * n + 1)" by (simp add: KERNEL_SCHED_HZ_def unat_gt_0)
  have "unat (1000 * n) div 1000 \<le> 4294967295" using unat_less_2p32 [of "1000 * n"] by linarith
  then have "unat (1000 * n) div 1000 < 4294967295" using unat_less_2p32 [of "1000 * n"] by linarith
  then have "unat ((1000 * n) div 1000) < 4294967295" by (simp add: unat_div_distrib)
  then have "unat ((1000 * n) div 1000 + 1) = unat ((1000 * n) div 1000) + 1" by (simp add: unat_add32)
  then show "0 < unat ((KERNEL_SCHED_HZ * n) div 1000 + 1)" by (simp add: KERNEL_SCHED_HZ_def)
qed

text \<open>
  When an operation fails, and how: nobody is left to run, or a sleeper wants to wake before the
  first one in the queue.
\<close>

definition sleep_fails :: "nat \<Rightarrow> sched \<Rightarrow> addr list \<Rightarrow> addr list \<Rightarrow> kerror option" where
  "sleep_fails n s rs ss =
     (if ss \<noteq> [] \<and> n < delta s (hd ss) then Some (Fault ''null task'')
      else if \<forall>t \<in> set rs. destroyed s t then Some queue_empty else None)"

definition sched_fails :: "sched_op \<Rightarrow> sched \<Rightarrow> addr list \<Rightarrow> addr list \<Rightarrow> kerror option" where
  "sched_fails op s rs ss =
     (case op of
        Spawn fn \<Rightarrow> None
      | Kill n \<Rightarrow> None
      | Yield \<Rightarrow> if \<forall>t \<in> set (rs @ [running_task s]). destroyed s t then Some queue_empty else None
      | Exit \<Rightarrow> if \<forall>t \<in> set rs. destroyed s t then Some queue_empty else None
      | Sleep n \<Rightarrow> sleep_fails (unat (KERNEL_SCHED_HZ * n + 1)) s rs ss
      | Usleep n \<Rightarrow> sleep_fails (unat ((KERNEL_SCHED_HZ * n) div 1000 + 1)) s rs ss
      | Tick \<Rightarrow> if (\<forall>t \<in> set (rs @ [running_task s]). destroyed s t) \<and> (\<forall>t. map_of (wakes (delta s) ss 0) t \<noteq> Some 1)
          then Some queue_empty else None)"

text \<open>What an operation must satisfy on a good state: it returns, creation excepted, and how it ends.\<close>

definition ends_well :: "heap \<Rightarrow> sched_op \<Rightarrow> kerror option \<Rightarrow> sched result option \<Rightarrow> bool" where
  "ends_well h0 op fails r \<longleftrightarrow>
     (case fails of
        Some e \<Rightarrow> r = Some (Inl e)
      | None \<Rightarrow> (\<exists>s' rs' ss'. r = Some (Inr s') \<and> machine_ok h0 s' rs' ss') \<or> (\<exists>fn. op = Spawn fn) \<and> r = None)"

lemma sleep_ends_well:
  assumes "machine_ok h0 s rs ss" "r_eip regs \<noteq> 0x12345" "0 < unat n"
  shows "ends_well h0 op (sleep_fails (unat n) s rs ss) (sleep_for n regs s)"
  using sleep_outcome [OF assms] dropWhile_eq_Nil_conv [of "destroyed s" rs]
  by (auto simp: ends_well_def sleep_fails_def simp del: dropWhile_eq_Nil_conv split: list.splits if_splits)

lemma exit_outcome:
  assumes ok: "machine_ok h0 s rs ss" and "r_eip regs \<noteq> 0x12345"
  shows "if \<forall>t \<in> set rs. destroyed s t then sched_kill regs s = Some (Inl queue_empty)
    else \<exists>s' rs'. sched_kill regs s = Some (Inr s') \<and> machine_ok h0 s' rs' ss"
proof -
  let ?r = "running_task s"
  let ?u = "upd_task (\<lambda>x. x\<lparr>state := TASK_DESTROY\<rparr>) ?r s"
  have inv: "queues s rs ss" "?r \<noteq> 0" "?r \<notin> set rs" using ok by (simp_all add: machine_ok_def sched_ok_def sched_inv_def)
  have "kill (pid (task s ?r)) s = Some (Inr ?u)" using kill_eq [OF inv(1,2), of "pid (task s ?r)"] by simp
  with kill_outcome [OF ok, of "pid (task s ?r)"] have u: "machine_ok h0 ?u rs ss" by auto
  have e: "sched_kill regs s = switch_task regs ?u" using inv(2) by (simp add: sched_kill_def)
  have d: "destroyed ?u ?r" "\<And>t. t \<in> set rs \<Longrightarrow> destroyed ?u t = destroyed s t"
    using inv(3) by (auto simp: destroyed_def task_upd_task upd_at_apply)
  then have "dropWhile (destroyed ?u) (rs @ [running_task ?u]) = [] \<longleftrightarrow> (\<forall>t \<in> set rs. destroyed s t)" by auto
  then show ?thesis using switch_outcome [OF u assms(2)] unfolding e
    by (auto simp del: dropWhile_eq_Nil_conv split: list.splits)
qed

lemma exec_ends_well:
  assumes ok: "machine_ok h0 s rs ss" and "r_eip regs \<noteq> 0x12345"
  shows "ends_well h0 op (sched_fails op s rs ss) (sched_exec op regs s)"
proof (cases op)
  case (Spawn fn)
  then show ?thesis using spawn_outcome [OF ok, of fn]
    by (cases "create_kernel_task fn s") (fastforce simp: ends_well_def sched_fails_def sched_exec_def)+
next
  case (Kill n)
  then show ?thesis using kill_outcome [OF ok, of n] by (auto simp: ends_well_def sched_fails_def sched_exec_def)
next
  case Yield
  then show ?thesis
    using switch_outcome [OF assms] dropWhile_eq_Nil_conv [of "destroyed s" "rs @ [running_task s]"]
    by (auto simp: ends_well_def sched_fails_def sched_exec_def sched_yield_def simp del: dropWhile_eq_Nil_conv split: list.splits if_splits)
next
  case Exit
  then show ?thesis using exit_outcome [OF assms] by (auto simp: ends_well_def sched_fails_def sched_exec_def split: if_splits)
next
  case (Sleep n)
  then show ?thesis using sleep_ends_well [OF assms sleep_ticks_positive(1), of op n]
    by (simp add: sched_fails_def sched_exec_def sleep_def)
next
  case (Usleep n)
  then show ?thesis using sleep_ends_well [OF assms sleep_ticks_positive(2), of op n]
    by (simp add: sched_fails_def sched_exec_def usleep_def)
next
  case Tick
  then show ?thesis using tick_outcome [OF assms]
    by (auto simp: ends_well_def sched_fails_def sched_exec_def split: if_splits)
qed

lemma boot_machine_ok:
  assumes "heap_wf h0" "k_heap s0 = h0" "queues s0 [] []" "sched_init s0 = Some (Inr s)"
  shows "machine_ok h0 s [] []"
proof -
  obtain t s1 where t: "new_task s0 = Some (Inr (t, s1))" "t \<noteq> 0"
    using assms(4) by (auto simp: sched_init_def Let_def set_task_def rbind_eq_Inr split: if_splits)
  obtain p where n: "\<forall>k. \<not> heap_live h0 t k" "\<forall>k. \<not> heap_live h0 p k" "stack (task s1 t) = p"
    "\<And>q. (\<exists>k. heap_live (k_heap s1) q k) \<longleftrightarrow> (\<exists>k. heap_live h0 q k) \<or> q = t \<or> q = p"
  proof (cases rule: new_task_cases [of s0, OF _ t(1), case_names wf fail ok])
    case (ok t' s' p mt mp)
    with assms(2) show thesis by (intro that [of p]) (auto simp: fresh_task_def)
  qed (use assms(1,2) t(2) in auto)
  have "sched_inv s [] []" "states_ok s [] []" "running_task s = t" "scheduling_enabled s" "k_heap s = k_heap s1"
    "stack (task s t) = stack (task s1 t)"
    using sched_init_ok [of s0 t s1] assms t by auto
  with n show ?thesis by (auto simp: machine_ok_def sched_ok_def accounted_def blocks_of_def)
qed

lemma reachable_machine_ok: "sched_reachable h0 s \<Longrightarrow> \<exists>rs ss. machine_ok h0 s rs ss"
proof (induction rule: sched_reachable.induct)
  case (boot s0 s)
  then have "queues s0 [] []" by (simp add: queues_def)
  with boot boot_machine_ok show ?case by blast
next
  case (step s regs op s')
  then obtain rs ss where "machine_ok h0 s rs ss" by blast
  from exec_ends_well [OF this step.hyps(2), of op] step.hyps(3) show ?case
    by (auto simp: ends_well_def split: option.splits)
qed

text \<open>The kernel that runs its idle task only is reachable.\<close>

lemma idle_reachable:
  obtains s where "sched_reachable heap1 s" "queues s [] []" "running_task s = 0xC0120014" "scheduling_enabled s"
    "state (task s 0xC0120014) = TASK_RUNNING"
proof -
  have wf: "heap_wf (k_heap sched0)" "queues sched0 [] []" by (simp_all add: sched0_def heap1_wf queues_def)
  obtain s1 where s1: "new_task sched0 = Some (Inr (0xC0120014, s1))"
    using new_task_heap1 [of sched0] by (auto simp: sched0_def)
  obtain s where s: "sched_init sched0 = Some (Inr s)" "sched_inv s [] []" "running_task s = 0xC0120014" "scheduling_enabled s"
    "state (task s 0xC0120014) = TASK_RUNNING" using sched_init_ok [OF wf s1] by auto
  have "sched_reachable heap1 s"
    by (rule sched_reachable.boot [OF heap1_wf _ _ _ _ _ s(1)]) (simp_all add: sched0_def)
  with that s(2-) show thesis by (simp add: sched_inv_def)
qed

section \<open>Properties of the machine\<close>





section \<open>An interrupt in the middle of an operation\<close>

text \<open>
  \<open>create_kernel_task\<close> runs with interrupts enabled, and \<open>enqueue_ready_task\<close> makes two stores. The
  operation in its two steps:
\<close>

definition enqueue_store1 :: "addr \<Rightarrow> sched \<Rightarrow> sched result" where
  "enqueue_store1 t s =
     (if ready_queue_head s = 0 \<and> ready_queue_tail s = 0 then Inr (s\<lparr>ready_queue_head := t\<rparr>)
      else set_task (ready_queue_tail s) (\<lambda>x. x\<lparr>next_task := t\<rparr>) s)"

definition enqueue_store2 :: "addr \<Rightarrow> sched \<Rightarrow> sched" where
  "enqueue_store2 t s = s\<lparr>ready_queue_tail := t\<rparr>"

lemma enqueue_ready_stores: "enqueue_ready_task t s = rbind (enqueue_store1 t s) (\<lambda>s. Inr (enqueue_store2 t s))"
  by (simp add: enqueue_ready_task_def enqueue_store1_def enqueue_store2_def)

lemma enqueue_broken:
  "ready_queue_head s \<noteq> 0 \<Longrightarrow> ready_queue_tail s = 0 \<Longrightarrow> enqueue_ready_task t s = Inl (Fault ''null task'')"
  by (simp add: enqueue_ready_task_def set_task_def)

lemma wake_loop_broken:
  assumes "ready_queue_head s \<noteq> 0" "ready_queue_tail s = 0"
  shows "wake_loop s \<in> {Some (Inr s), Some (Inl (Fault ''null task''))}"
proof (cases "sleep_queue_head s \<noteq> 0 \<and> sleep_ticks (task s (sleep_queue_head s)) = 0")
  case True
  then have "\<exists>u. dequeue_sleep_task s = (sleep_queue_head s, u) \<and> ready_queue_head u \<noteq> 0 \<and> ready_queue_tail u = 0"
    using assms by (simp add: dequeue_sleep_task_def Let_def)
  then obtain u where u: "dequeue_sleep_task s = (sleep_queue_head s, u)" "ready_queue_head u \<noteq> 0" "ready_queue_tail u = 0" by blast
  then show ?thesis using True
    by (subst wake_loop.simps) (simp add: Let_def enqueue_broken)
next
  case False
  then show ?thesis by (subst wake_loop.simps) (auto simp: dequeue_sleep_task_def Let_def)
qed

text \<open>
  C31. A clock interrupt between the two stores that put the first task on the empty ready queue
  stops the kernel: the interrupt has to put the interrupted task on the same queue, finds a head without
  a tail, and writes through the null pointer. Without the interrupt the two stores are
  \<open>enqueue_ready_task\<close>.
\<close>

theorem enqueue_interrupted_faults:
  assumes "ready_queue_head s = 0" "ready_queue_tail s = 0" "t \<noteq> 0" "scheduling_enabled s" "running_task s \<noteq> 0"
    "state (task s (running_task s)) = TASK_RUNNING \<or> destroyed s (running_task s)" "r_eip regs \<noteq> 0x12345"
  shows "\<exists>s1. enqueue_store1 t s = Inr s1 \<and> enqueue_ready_task t s = Inr (enqueue_store2 t s1) \<and>
    do_scheduling regs s1 = Some (Inl (Fault ''null task''))"
proof -
  let ?s1 = "s\<lparr>ready_queue_head := t\<rparr>" and ?r = "running_task s"
  let ?u = "upd_task (\<lambda>x. x\<lparr>cpu_time := cpu_time x + 1\<rparr>) ?r (?s1\<lparr>ticks := ticks s + 1\<rparr>)"
  let ?v = "if sleep_queue_head ?u \<noteq> 0 then upd_task (\<lambda>x. x\<lparr>sleep_ticks := sleep_ticks x - 1\<rparr>) (sleep_queue_head ?u) ?u else ?u"
  have st: "enqueue_store1 t s = Inr ?s1" using assms(1,2) by (simp add: enqueue_store1_def)
  have v: "ready_queue_head ?v \<noteq> 0" "ready_queue_tail ?v = 0" "running_task ?v = ?r" "state (task ?v ?r) = state (task s ?r)"
    using assms(2,3) by (simp_all add: task_upd_task upd_at_apply)
  have d: "do_scheduling regs ?s1 = (case wake_loop ?v of None \<Rightarrow> None | Some (Inl e) \<Rightarrow> Some (Inl e) | Some (Inr s) \<Rightarrow> switch_task regs s)"
    using assms(4,5) by (simp add: do_scheduling_def update_sleep_queue_def Let_def)
  have "switch_task regs ?v = Some (Inl (Fault ''null task''))"
  proof -
    let ?w = "upd_task (save_regs regs) ?r (?v\<lparr>interrupts := False\<rparr>)"
    have w: "ready_queue_head ?w \<noteq> 0" "ready_queue_tail ?w = 0" "running_task ?w = ?r" "state (task ?w ?r) = state (task s ?r)"
      using v by (simp_all add: task_upd_task upd_at_apply)
    have "requeue_running ?w = Some (Inl (Fault ''null task''))"
      using w assms(5,6) unfolding requeue_running_def Let_def destroyed_def
      by (auto simp: task_states enqueue_broken)
    then show ?thesis using switch_task_unfold [OF assms(7), of ?v] v(3) assms(5) by simp
  qed
  then have "do_scheduling regs ?s1 = Some (Inl (Fault ''null task''))"
    using wake_loop_broken [OF v(1,2)] unfolding d by auto
  with st show ?thesis by (simp add: enqueue_ready_stores)
qed

text \<open>The start of the kernel: the idle task creates the task of the shell.\<close>

theorem enqueue_interrupted_faults_witness:
  "\<exists>s s1. sched_reachable heap1 s \<and> enqueue_store1 0xC0129000 s = Inr s1 \<and> do_scheduling regs0 s1 = Some (Inl (Fault ''null task''))"
proof -
  obtain s where s: "sched_reachable heap1 s" "queues s [] []" "running_task s = 0xC0120014" "scheduling_enabled s"
    "state (task s 0xC0120014) = TASK_RUNNING" by (rule idle_reachable)
  have "r_eip regs0 \<noteq> 0x12345" by (simp add: regs0_def)
  with enqueue_interrupted_faults [of s "0xC0129000" regs0] s show ?thesis by (auto simp: queues_def)
qed

end
