(* ===== verification/Cstring.thy ===== *)
theory Cstring
  imports Prelude
begin

text \<open>
  The memory and string functions of \<open>kernel/string/\<close>, on a byte-addressed memory. Pointers are
  32-bit and pointer arithmetic wraps; \<open>char\<close> is signed on the target, so the comparisons of
  \<open>strcmp\<close> and \<open>strncmp\<close> are signed while those of \<open>memcmp\<close> are not.
\<close>

type_synonym mem = "addr \<Rightarrow> u8"

section \<open>The C functions\<close>

subsection \<open>Memory blocks\<close>

definition copy_byte :: "addr \<Rightarrow> addr \<Rightarrow> nat \<Rightarrow> mem \<Rightarrow> mem" where
  "copy_byte s1 s2 i m = m(s1 + of_nat i := m (s2 + of_nat i))"

definition memcpy :: "addr \<Rightarrow> addr \<Rightarrow> u32 \<Rightarrow> mem \<Rightarrow> addr \<times> mem" where
  "memcpy s1 s2 n m = (s1, fold (copy_byte s1 s2) [0..<unat n] m)"

definition memmove :: "addr \<Rightarrow> addr \<Rightarrow> u32 \<Rightarrow> mem \<Rightarrow> addr \<times> mem" where
  "memmove s1 s2 n m =
     (s1, if s2 > s1 then fold (copy_byte s1 s2) [0..<unat n] m
          else fold (copy_byte s1 s2) (rev [0..<unat n]) m)"

definition memset :: "addr \<Rightarrow> u32 \<Rightarrow> u32 \<Rightarrow> mem \<Rightarrow> addr \<times> mem" where
  "memset s c n m = (s, fold (\<lambda>i m. m(s + of_nat i := ucast c)) [0..<unat n] m)"

function memcmp_loop :: "addr \<Rightarrow> addr \<Rightarrow> nat \<Rightarrow> nat \<Rightarrow> mem \<Rightarrow> int" where
  "memcmp_loop s1 s2 i n m =
     (if i < n then
        (if m (s1 + of_nat i) = m (s2 + of_nat i) then memcmp_loop s1 s2 (Suc i) n m
         else if m (s1 + of_nat i) > m (s2 + of_nat i) then 1 else - 1)
      else 0)"
  by pat_completeness auto
termination
  by (relation "measure (\<lambda>(s1, s2, i, n, m). n - i)") auto

declare memcmp_loop.simps [simp del]

definition memcmp :: "addr \<Rightarrow> addr \<Rightarrow> u32 \<Rightarrow> mem \<Rightarrow> int" where
  "memcmp s1 s2 n m = memcmp_loop s1 s2 0 (unat n) m"

text \<open>The double word at an address, little endian.\<close>

definition load32 :: "mem \<Rightarrow> addr \<Rightarrow> u32" where
  "load32 m a = ucast (m a) OR push_bit 8 (ucast (m (a + 1))) OR push_bit 16 (ucast (m (a + 2))) OR push_bit 24 (ucast (m (a + 3)))"

subsection \<open>Strings\<close>

partial_function (option) strlen_loop :: "addr \<Rightarrow> u32 \<Rightarrow> mem \<Rightarrow> u32 option" where
  "strlen_loop s ret m = (if m (s + ret) \<noteq> 0 then strlen_loop s (ret + 1) m else Some ret)"

definition strlen :: "addr \<Rightarrow> mem \<Rightarrow> u32 option" where
  "strlen s m = strlen_loop s 0 m"

text \<open>The comparison both comparing functions end with, on signed characters.\<close>

definition cmp_char :: "u8 \<Rightarrow> u8 \<Rightarrow> int" where
  "cmp_char c d = (if c = d then 0 else if sint c > sint d then 1 else - 1)"

partial_function (option) strcmp :: "addr \<Rightarrow> addr \<Rightarrow> mem \<Rightarrow> int option" where
  "strcmp s1p s2p m =
     (if m s1p \<noteq> 0 \<and> m s2p \<noteq> 0 \<and> m s1p = m s2p then strcmp (s1p + 1) (s2p + 1) m
      else Some (cmp_char (m s1p) (m s2p)))"

partial_function (option) strncmp_loop :: "addr \<Rightarrow> addr \<Rightarrow> u32 \<Rightarrow> u32 \<Rightarrow> mem \<Rightarrow> int option" where
  "strncmp_loop s1p s2p i n m =
     (if m s1p \<noteq> 0 \<and> m s2p \<noteq> 0 \<and> m s1p = m s2p \<and> i < n - 1
      then strncmp_loop (s1p + 1) (s2p + 1) (i + 1) n m
      else Some (cmp_char (m s1p) (m s2p)))"

definition strncmp :: "addr \<Rightarrow> addr \<Rightarrow> u32 \<Rightarrow> mem \<Rightarrow> int option" where
  "strncmp s1 s2 n m = strncmp_loop s1 s2 0 n m"

text \<open>The copying loop of \<open>strcpy\<close> and \<open>strcat\<close>, with the terminator written at its end.\<close>

partial_function (option) strcpy_loop :: "addr \<Rightarrow> addr \<Rightarrow> mem \<Rightarrow> mem option" where
  "strcpy_loop s1p s2p m =
     (if m s2p \<noteq> 0 then strcpy_loop (s1p + 1) (s2p + 1) (m(s1p := m s2p)) else Some (m(s1p := 0)))"

definition strcpy :: "addr \<Rightarrow> addr \<Rightarrow> mem \<Rightarrow> (addr \<times> mem) option" where
  "strcpy s1 s2 m = map_option (\<lambda>m'. (s1, m')) (strcpy_loop s1 s2 m)"

partial_function (option) strend_loop :: "addr \<Rightarrow> mem \<Rightarrow> addr option" where
  "strend_loop s1p m = (if m s1p \<noteq> 0 then strend_loop (s1p + 1) m else Some s1p)"

definition strcat :: "addr \<Rightarrow> addr \<Rightarrow> mem \<Rightarrow> (addr \<times> mem) option" where
  "strcat s1 s2 m =
     (case strend_loop s1 m of None \<Rightarrow> None | Some s1p \<Rightarrow> map_option (\<lambda>m'. (s1, m')) (strcpy_loop s1p s2 m))"

partial_function (option) strncat_loop :: "addr \<Rightarrow> addr \<Rightarrow> u32 \<Rightarrow> u32 \<Rightarrow> mem \<Rightarrow> mem option" where
  "strncat_loop s1p s2p i n m =
     (if m s2p \<noteq> 0 \<and> i < n then strncat_loop (s1p + 1) (s2p + 1) (i + 1) n (m(s1p := m s2p)) else Some (m(s1p := 0)))"

definition strncat :: "addr \<Rightarrow> addr \<Rightarrow> u32 \<Rightarrow> mem \<Rightarrow> (addr \<times> mem) option" where
  "strncat s1 s2 n m =
     (case strend_loop s1 m of None \<Rightarrow> None | Some s1p \<Rightarrow> map_option (\<lambda>m'. (s1, m')) (strncat_loop s1p s2 0 n m))"

text \<open>The two loops of \<open>strncpy\<close> share the counter \<open>i\<close>.\<close>

function strncpy_pad :: "addr \<Rightarrow> nat \<Rightarrow> nat \<Rightarrow> mem \<Rightarrow> mem" where
  "strncpy_pad s1p i n m = (if i < n then strncpy_pad (s1p + 1) (Suc i) n (m(s1p := 0)) else m)"
  by pat_completeness auto
termination
  by (relation "measure (\<lambda>(s1p, i, n, m). n - i)") auto

function strncpy_loop :: "addr \<Rightarrow> addr \<Rightarrow> nat \<Rightarrow> nat \<Rightarrow> mem \<Rightarrow> mem" where
  "strncpy_loop s1p s2p i n m =
     (if m s2p \<noteq> 0 \<and> i < n then strncpy_loop (s1p + 1) (s2p + 1) (Suc i) n (m(s1p := m s2p))
      else strncpy_pad s1p i n m)"
  by pat_completeness auto
termination
  by (relation "measure (\<lambda>(s1p, s2p, i, n, m). n - i)") auto

declare strncpy_pad.simps [simp del] strncpy_loop.simps [simp del]

definition strncpy :: "addr \<Rightarrow> addr \<Rightarrow> u32 \<Rightarrow> mem \<Rightarrow> addr \<times> mem" where
  "strncpy s1 s2 n m = (s1, strncpy_loop s1 s2 0 (unat n) m)"

section \<open>Blocks\<close>

text \<open>Addresses of a block that does not reach past the end of memory.\<close>

definition fits_block :: "addr \<Rightarrow> nat \<Rightarrow> bool" where
  "fits_block s n \<longleftrightarrow> unat s + n \<le> 4294967296"

lemma block_addr: "fits_block s n \<Longrightarrow> i < n \<Longrightarrow> unat (s + of_nat i) = unat s + i"
proof -
  assume a: "fits_block s n" "i < n"
  then have "unat (of_nat i :: u32) = i" by (intro unat_of_nat32) (simp add: fits_block_def)
  with a show ?thesis by (simp add: unat_add32 fits_block_def)
qed

definition in_block :: "addr \<Rightarrow> nat \<Rightarrow> addr \<Rightarrow> bool" where
  "in_block s n a \<longleftrightarrow> unat s \<le> unat a \<and> unat a < unat s + n"

lemma block_index: "in_block s n a \<Longrightarrow> a = s + of_nat (unat a - unat s)"
  by (simp add: in_block_def word_unat_eq_iff of_nat_diff)

text \<open>The memory after the bytes with indices in \<open>I\<close> have been copied.\<close>

definition copied :: "addr \<Rightarrow> addr \<Rightarrow> (nat \<Rightarrow> bool) \<Rightarrow> mem \<Rightarrow> mem" where
  "copied s1 s2 I m a = (if unat s1 \<le> unat a \<and> I (unat a - unat s1) then m (s2 + of_nat (unat a - unat s1)) else m a)"

lemma copy_byte_copied:
  assumes "fits_block s1 n" "fits_block s2 n" "j < n" "\<And>i. I i \<Longrightarrow> i < n"
    "\<And>i. I i \<Longrightarrow> unat s1 + i \<noteq> unat s2 + j"
  shows "copy_byte s1 s2 j (copied s1 s2 I m) = copied s1 s2 (\<lambda>i. I i \<or> i = j) m"
proof
  fix a
  have u: "unat (s1 + of_nat j) = unat s1 + j" "unat (s2 + of_nat j) = unat s2 + j"
    using assms block_addr by auto
  have src: "copied s1 s2 I m (s2 + of_nat j) = m (s2 + of_nat j)"
    using assms(5) [of "unat s2 + j - unat s1"] u(2) by (auto simp: copied_def)
  show "copy_byte s1 s2 j (copied s1 s2 I m) a = copied s1 s2 (\<lambda>i. I i \<or> i = j) m a"
  proof (cases "a = s1 + of_nat j")
    case True
    then show ?thesis using src u(1) by (simp add: copy_byte_def) (simp add: copied_def)
  next
    case False
    then have "\<not> (unat s1 \<le> unat a \<and> unat a - unat s1 = j)" using u(1) by (auto simp: word_unat_eq_iff)
    with False show ?thesis by (auto simp: copy_byte_def copied_def)
  qed
qed

lemma copied_none: "copied s1 s2 (\<lambda>_. False) m = m"
  by (auto simp: copied_def)

lemma copy_up:
  assumes "fits_block s1 n" "fits_block s2 n" "s1 < s2 \<or> unat s2 + n \<le> unat s1" "k \<le> n"
  shows "fold (copy_byte s1 s2) [0..<k] m = copied s1 s2 (\<lambda>i. i < k) m"
  using assms(4)
proof (induction k)
  case (Suc k)
  have "copy_byte s1 s2 k (copied s1 s2 (\<lambda>i. i < k) m) = copied s1 s2 (\<lambda>i. i < k \<or> i = k) m"
    using assms Suc.prems by (intro copy_byte_copied [of s1 n s2]) (auto simp: less32_iff)
  moreover have "(\<lambda>i. i < k \<or> i = k) = (\<lambda>i. i < Suc k)" by auto
  ultimately show ?case using Suc by simp
qed (simp add: copied_none)

lemma copy_down:
  assumes "fits_block s1 n" "fits_block s2 n" "s2 \<le> s1" "k \<le> n"
  shows "fold (copy_byte s1 s2) (rev [k..<n]) m = copied s1 s2 (\<lambda>i. k \<le> i \<and> i < n) m"
  using assms(4)
proof (induction k rule: inc_induct)
  case base
  have "(\<lambda>i. n \<le> i \<and> i < n) = (\<lambda>_. False)" by auto
  then show ?case by (simp add: copied_none)
next
  case (step k)
  have "copy_byte s1 s2 k (copied s1 s2 (\<lambda>i. Suc k \<le> i \<and> i < n) m) = copied s1 s2 (\<lambda>i. (Suc k \<le> i \<and> i < n) \<or> i = k) m"
    using assms step by (intro copy_byte_copied [of s1 n s2]) (auto simp: le32_iff)
  moreover have "(\<lambda>i. (Suc k \<le> i \<and> i < n) \<or> i = k) = (\<lambda>i. k \<le> i \<and> i < n)" using step by (auto simp: fun_eq_iff)
  ultimately show ?case using step by (simp add: upt_conv_Cons)
qed

section \<open>Strings in memory\<close>

text \<open>\<open>cstr m p bs\<close>: the string that starts at \<open>p\<close> has the characters \<open>bs\<close>.\<close>

fun cstr :: "mem \<Rightarrow> addr \<Rightarrow> u8 list \<Rightarrow> bool" where
  "cstr m p [] \<longleftrightarrow> m p = 0"
| "cstr m p (b # bs) \<longleftrightarrow> m p = b \<and> b \<noteq> 0 \<and> cstr m (p + 1) bs"

text \<open>The bytes of a literal.\<close>

definition ascii :: "string \<Rightarrow> u8 list" where
  "ascii s = map (\<lambda>c. of_nat (of_char c)) s"

lemma cstr_nth: "cstr m p bs \<Longrightarrow> i < length bs \<Longrightarrow> m (p + of_nat i) = bs ! i \<and> bs ! i \<noteq> 0"
proof (induction bs arbitrary: p i)
  case (Cons b bs)
  then show ?case using Cons.IH [of "p + 1" "i - 1"] by (cases i) (auto simp: algebra_simps)
qed simp

lemma cstr_end: "cstr m p bs \<Longrightarrow> m (p + of_nat (length bs)) = 0"
proof (induction bs arbitrary: p)
  case (Cons b bs)
  then show ?case using Cons.IH [of "p + 1"] by (simp add: algebra_simps)
qed simp

text \<open>The terminator ends a string before the addresses wrap around.\<close>

lemma cstr_length: "cstr m p bs \<Longrightarrow> length bs < 4294967296"
proof (rule ccontr)
  assume a: "cstr m p bs" "\<not> length bs < 4294967296"
  let ?i = "length bs - 4294967296"
  have "of_nat (length bs) = (of_nat (?i + 4294967296) :: u32)" using a(2) by simp
  also have "\<dots> = of_nat ?i" by (simp only: of_nat_add) simp
  finally have "m (p + of_nat ?i) = 0" using cstr_end [OF a(1)] by simp
  moreover have "m (p + of_nat ?i) \<noteq> 0" using cstr_nth [OF a(1), of ?i] a(2) by simp
  ultimately show False by simp
qed

lemma cstr_unique: "cstr m p bs \<Longrightarrow> cstr m p cs \<Longrightarrow> bs = cs"
proof (induction bs arbitrary: p cs)
  case Nil
  then show ?case by (cases cs) auto
next
  case (Cons b bs)
  then show ?case by (cases cs) auto
qed

definition span :: "addr \<Rightarrow> nat \<Rightarrow> addr set" where
  "span p n = (\<lambda>i. p + of_nat i) ` {..n}"

lemma span_Suc: "span p (Suc n) = insert p (span (p + 1) n)"
proof -
  have "{..Suc n} = insert 0 (Suc ` {..n})" by (auto simp: image_iff Bex_def) (metis Suc_le_mono not0_implies_Suc)
  then show ?thesis by (simp add: span_def image_image algebra_simps)
qed

lemma span_0: "span p 0 = {p}"
  by (simp add: span_def)

lemma span_fresh: "n + 1 < 4294967296 \<Longrightarrow> p \<notin> span (p + 1) n"
proof
  assume n: "n + 1 < 4294967296" and "p \<in> span (p + 1) n"
  then obtain i where "i \<le> n" "p = p + 1 + of_nat i" by (auto simp: span_def)
  then have "of_nat (i + 1) = (0 :: u32)" by (simp add: algebra_simps)
  moreover have "unat (of_nat (i + 1) :: u32) = i + 1" using n \<open>i \<le> n\<close> by (intro unat_of_nat32) simp
  ultimately show False by simp
qed

lemma cstr_cong: "(\<And>a. a \<in> span p (length bs) \<Longrightarrow> m' a = m a) \<Longrightarrow> cstr m' p bs = cstr m p bs"
proof (induction bs arbitrary: p)
  case Nil
  then show ?case by (simp add: span_0)
next
  case (Cons b bs)
  then show ?case by (simp add: span_Suc)
qed

lemma strlen_loop_len: "cstr m (s + ret) bs \<Longrightarrow> strlen_loop s ret m = Some (ret + of_nat (length bs))"
proof (induction bs arbitrary: ret)
  case Nil
  then show ?case by (subst strlen_loop.simps) simp
next
  case (Cons b bs)
  then have "strlen_loop s (ret + 1) m = Some (ret + 1 + of_nat (length bs))" by (intro Cons.IH) (simp add: algebra_simps)
  with Cons.prems show ?case by (subst strlen_loop.simps) (simp add: algebra_simps)
qed

lemma strend_loop_len: "cstr m s bs \<Longrightarrow> strend_loop s m = Some (s + of_nat (length bs))"
proof (induction bs arbitrary: s)
  case Nil
  then show ?case by (subst strend_loop.simps) simp
next
  case (Cons b bs)
  then show ?case using Cons.IH [of "s + 1"] by (subst strend_loop.simps) (simp add: algebra_simps)
qed

lemma strcpy_loop_copies:
  "cstr m s2 bs \<Longrightarrow> span s1 (length bs) \<inter> span s2 (length bs) = {} \<Longrightarrow>
   \<exists>m'. strcpy_loop s1 s2 m = Some m' \<and> cstr m' s1 bs \<and> (\<forall>a. a \<notin> span s1 (length bs) \<longrightarrow> m' a = m a)"
proof (induction bs arbitrary: s1 s2 m)
  case Nil
  then show ?case by (subst strcpy_loop.simps) (auto simp: span_0)
next
  case (Cons b bs)
  let ?m = "m(s1 := b)"
  have s1: "s1 \<notin> span s2 (length (b # bs))" using Cons.prems(2) by (auto simp: span_Suc)
  then have "cstr ?m (s2 + 1) bs = cstr m (s2 + 1) bs" by (intro cstr_cong) (auto simp: span_Suc)
  then have "cstr ?m (s2 + 1) bs" using Cons.prems(1) by simp
  moreover have "span (s1 + 1) (length bs) \<inter> span (s2 + 1) (length bs) = {}"
    using Cons.prems(2) by (auto simp: span_Suc)
  ultimately obtain m' where m': "strcpy_loop (s1 + 1) (s2 + 1) ?m = Some m'" "cstr m' (s1 + 1) bs"
      "\<forall>a. a \<notin> span (s1 + 1) (length bs) \<longrightarrow> m' a = ?m a" using Cons.IH by blast
  have "s1 \<notin> span (s1 + 1) (length bs)" using cstr_length [OF Cons.prems(1)] by (intro span_fresh) simp
  then have "m' s1 = b" using m'(3) by simp
  moreover have "strcpy_loop s1 s2 m = Some m'" using Cons.prems(1) m'(1) by (subst strcpy_loop.simps) auto
  ultimately show ?case using m'(2,3) Cons.prems(1) by (auto simp: span_Suc)
qed

text \<open>The order of strings as the two comparing functions see it.\<close>

fun str_cmp :: "u8 list \<Rightarrow> u8 list \<Rightarrow> int" where
  "str_cmp [] [] = 0"
| "str_cmp [] (c # cs) = cmp_char 0 c"
| "str_cmp (b # bs) [] = cmp_char b 0"
| "str_cmp (b # bs) (c # cs) = (if b = c then str_cmp bs cs else cmp_char b c)"

lemma strcmp_cmp: "cstr m p bs \<Longrightarrow> cstr m q cs \<Longrightarrow> strcmp p q m = Some (str_cmp bs cs)"
proof (induction bs cs arbitrary: p q rule: str_cmp.induct)
  case (4 b bs c cs)
  then show ?case by (subst strcmp.simps) auto
qed (subst strcmp.simps, auto simp: cmp_char_def)+

lemma str_cmp_eq: "0 \<notin> set bs \<Longrightarrow> 0 \<notin> set cs \<Longrightarrow> str_cmp bs cs = 0 \<longleftrightarrow> bs = cs"
  by (induction bs cs rule: str_cmp.induct) (auto simp: cmp_char_def)

lemma cstr_nonzero: "cstr m p bs \<Longrightarrow> 0 \<notin> set bs"
  by (induction bs arbitrary: p) auto

lemma strncmp_loop_cmp:
  "cstr m p bs \<Longrightarrow> cstr m q cs \<Longrightarrow> i \<le> n - 1 \<Longrightarrow>
   strncmp_loop p q i n m = Some (str_cmp (take (Suc (unat (n - 1 - i))) bs) (take (Suc (unat (n - 1 - i))) cs))"
proof (induction bs cs arbitrary: p q i rule: str_cmp.induct)
  case (4 b bs c cs)
  show ?case
  proof (cases "b = c \<and> i < n - 1")
    case True
    then have i: "unat i + 1 \<le> unat (n - 1)" by (simp add: less32_iff)
    then have "unat (i + 1) = unat i + 1" using unat_less_2p32 [of "n - 1"] by (intro unat_succ32) linarith
    then have le: "i + 1 \<le> n - 1" "unat (n - 1 - i) = Suc (unat (n - 1 - (i + 1)))"
      using i unat_sub32 [of i "n - 1"] unat_sub32 [of "i + 1" "n - 1"] by (simp_all add: le32_iff)
    have "strncmp_loop p q i n m = strncmp_loop (p + 1) (q + 1) (i + 1) n m"
      using True 4(2,3) by (subst strncmp_loop.simps) auto
    moreover have "strncmp_loop (p + 1) (q + 1) (i + 1) n m =
        Some (str_cmp (take (Suc (unat (n - 1 - (i + 1)))) bs) (take (Suc (unat (n - 1 - (i + 1)))) cs))"
      using 4(1) [of "p + 1" "q + 1" "i + 1"] True 4(2,3) le(1) by simp
    ultimately show ?thesis using True by (simp only: le(2) take_Suc_Cons str_cmp.simps) simp
  next
    case False
    have "i = n - 1 \<Longrightarrow> n - 1 - i = 0" by simp
    moreover have "b = c \<Longrightarrow> i = n - 1" using False 4(4) by simp
    moreover have "strncmp_loop p q i n m = Some (cmp_char b c)"
      using False 4(2,3) by (subst strncmp_loop.simps) auto
    ultimately show ?thesis by (auto simp: cmp_char_def)
  qed
qed (subst strncmp_loop.simps, auto simp: cmp_char_def)+

text \<open>\<open>memcpy\<close> between two blocks that share no byte.\<close>

lemma memcpy_apart:
  assumes "\<forall>i < unat n. \<forall>j < unat n. s1 + of_nat i \<noteq> s2 + of_nat j"
  shows "i < unat n \<Longrightarrow> snd (memcpy s1 s2 n m) (s1 + of_nat i) = m (s2 + of_nat i)"
    "\<forall>i < unat n. a \<noteq> s1 + of_nat i \<Longrightarrow> snd (memcpy s1 s2 n m) a = m a"
proof -
  have inj: "(s1 + of_nat i = s1 + of_nat j) = (i = j)" if "i < unat n" "j < unat n" for i j
  proof -
    have "i < 4294967296" "j < 4294967296" using that unat_less_2p32 [of n] by linarith+
    then show ?thesis using unat_of_nat32 by (metis add_left_cancel)
  qed
  have "k \<le> unat n \<Longrightarrow> fold (copy_byte s1 s2) [0..<k] m (s1 + of_nat i) = (if i < k then m (s2 + of_nat i) else m (s1 + of_nat i))"
    if "i < unat n" for k i using that
  proof (induction k)
    case (Suc k)
    let ?f = "fold (copy_byte s1 s2) [0..<k] m"
    have "?f (s2 + of_nat k) = m (s2 + of_nat k)"
    proof -
      have "j \<le> k \<Longrightarrow> fold (copy_byte s1 s2) [0..<j] m (s2 + of_nat k) = m (s2 + of_nat k)" for j
      proof (induction j)
        case (Suc j)
        then have "s1 + of_nat j \<noteq> s2 + of_nat k" using assms \<open>Suc k \<le> unat n\<close> by auto
        then show ?case using Suc by (simp add: copy_byte_def)
      qed simp
      then show ?thesis by simp
    qed
    moreover have "copy_byte s1 s2 k ?f a = (if a = s1 + of_nat k then ?f (s2 + of_nat k) else ?f a)" for a by (simp add: copy_byte_def)
    ultimately show ?case using Suc inj [of i k] by auto
  qed simp
  then show "i < unat n \<Longrightarrow> snd (memcpy s1 s2 n m) (s1 + of_nat i) = m (s2 + of_nat i)" by (simp add: memcpy_def)
  have "\<forall>i < unat n. a \<noteq> s1 + of_nat i \<Longrightarrow> k \<le> unat n \<Longrightarrow> fold (copy_byte s1 s2) [0..<k] m a = m a" for k
    by (induction k) (auto simp: copy_byte_def)
  then show "\<forall>i < unat n. a \<noteq> s1 + of_nat i \<Longrightarrow> snd (memcpy s1 s2 n m) a = m a" by (simp add: memcpy_def)
qed

section \<open>Properties\<close>

text \<open>C37. \<open>memmove\<close> copies a block as if through a buffer, also when source and destination overlap
  in either direction: afterwards every destination byte is the source byte from before, and no
  other byte has changed.\<close>

theorem memmove_correct:
  assumes "fits_block s1 (unat n)" "fits_block s2 (unat n)"
  shows "memmove s1 s2 n m = (s1, \<lambda>a. if in_block s1 (unat n) a then m (s2 + (a - s1)) else m a)"
proof -
  have "snd (memmove s1 s2 n m) = copied s1 s2 (\<lambda>i. i < unat n) m"
    using copy_up [OF assms, of "unat n"] copy_down [OF assms, of 0] by (auto simp: memmove_def)
  moreover have "of_nat (unat a - unat s1) = a - s1" if "unat s1 \<le> unat a" for a
    using that by (simp add: of_nat_diff)
  ultimately have "snd (memmove s1 s2 n m) a = (if in_block s1 (unat n) a then m (s2 + (a - s1)) else m a)" for a
    by (auto simp: copied_def in_block_def)
  then show ?thesis by (simp add: prod_eq_iff fun_eq_iff) (simp add: memmove_def)
qed

theorem memmove_correct_witness:
  "snd (memmove 0x1002 0x1000 4 (\<lambda>a. ucast a)) 0x1004 = 2"
  using memmove_correct [of "0x1002" 4 "0x1000" "\<lambda>a. ucast a"] by (simp add: fits_block_def in_block_def)

text \<open>\<open>memset\<close> stores the low byte of its argument in every byte of the block and nowhere else.\<close>

theorem memset_correct:
  assumes "fits_block s (unat n)"
  shows "memset s c n m = (s, \<lambda>a. if in_block s (unat n) a then ucast c else m a)"
proof -
  have "fold (\<lambda>i m. m(s + of_nat i := ucast c)) [0..<k] m = (\<lambda>a. if in_block s k a then ucast c else m a)" if "k \<le> unat n" for k
    using that
  proof (induction k)
    case 0
    show ?case by (auto simp: in_block_def fun_eq_iff)
  next
    case (Suc k)
    have u: "unat (s + of_nat k) = unat s + k" using block_addr [OF assms, of k] Suc.prems by simp
    have "a = s + of_nat k \<longleftrightarrow> unat a = unat s + k" for a using u by (auto simp: word_unat_eq_iff)
    then show ?case using Suc by (auto simp: in_block_def fun_eq_iff)
  qed
  then show ?thesis by (simp add: memset_def)
qed

theorem memset_correct_witness: "snd (memset 0x1000 0x1FF 16 (\<lambda>_. 0)) 0x100F = 0xFF"
  using memset_correct [of "0x1000" 16 "0x1FF" "\<lambda>_. 0"] by (simp add: fits_block_def in_block_def)

text \<open>\<open>strcpy\<close> and \<open>strcat\<close> on areas that do not overlap: both return their first argument, the
  destination then holds the string, respectively the concatenation, and the bytes outside of
  the destination keep their values.\<close>

theorem strcat_correct:
  assumes "cstr m s1 as" "cstr m s2 bs" "length as + length bs < 4294967296"
    "span (s1 + of_nat (length as)) (length bs) \<inter> span s2 (length bs) = {}"
    "span (s1 + of_nat (length as)) (length bs) \<inter> (\<lambda>i. s1 + of_nat i) ` {..<length as} = {}"
  shows "\<exists>m'. strcat s1 s2 m = Some (s1, m') \<and> cstr m' s1 (as @ bs)
    \<and> (\<forall>a. a \<notin> span (s1 + of_nat (length as)) (length bs) \<longrightarrow> m' a = m a)"
proof -
  let ?e = "s1 + of_nat (length as)"
  obtain m' where m': "strcpy_loop ?e s2 m = Some m'" "cstr m' ?e bs" "\<forall>a. a \<notin> span ?e (length bs) \<longrightarrow> m' a = m a"
    using strcpy_loop_copies [OF assms(2,4)] by blast
  have keep: "m' (s1 + of_nat i) = m (s1 + of_nat i)" if i: "i < length as" for i
  proof -
    have "s1 + of_nat i \<notin> span ?e (length bs)" using assms(5) i by blast
    then show ?thesis using m'(3) by simp
  qed
  have "cstr m' p (xs @ bs)" if "cstr m p xs" "cstr m' (p + of_nat (length xs)) bs"
    "\<And>i. i < length xs \<Longrightarrow> m' (p + of_nat i) = m (p + of_nat i)" for p xs
    using that
  proof (induction xs arbitrary: p)
    case (Cons x xs)
    have "m' (p + 1 + of_nat i) = m (p + 1 + of_nat i)" if "i < length xs" for i
      using Cons.prems(3) [of "Suc i"] that by (simp add: algebra_simps)
    with Cons.IH [of "p + 1"] Cons.prems(1,2) Cons.prems(3) [of 0] show ?case by (simp add: algebra_simps)
  qed simp
  then have "cstr m' s1 (as @ bs)" using assms(1) m'(2) keep by blast
  then show ?thesis using m' strend_loop_len [OF assms(1)] by (simp add: strcat_def)
qed

text \<open>Two strings "a" and "b" in memory.\<close>

definition mem_ab :: mem where
  "mem_ab = (\<lambda>_. 0)(0x1000 := 0x61, 0x2000 := 0x62)"

lemma mem_ab_strings: "cstr mem_ab 0x1000 [0x61]" "cstr mem_ab 0x2000 [0x62]"
  by (simp_all add: mem_ab_def)

theorem strcat_correct_witness:
  "\<exists>m'. strcat 0x1000 0x2000 mem_ab = Some (0x1000, m') \<and> cstr m' 0x1000 [0x61, 0x62]"
  using strcat_correct [OF mem_ab_strings] by (simp add: span_Suc span_0 lessThan_Suc) blast

text \<open>\<open>strcmp\<close> returns on every two strings and returns 0 exactly for equal ones; \<open>strncmp\<close>
  with a positive bound does the same for the two prefixes of that length.\<close>

theorem strcmp_zero_iff_equal:
  assumes "cstr m p bs" "cstr m q cs"
  shows "(\<exists>r. strcmp p q m = Some r \<and> (r = 0 \<longleftrightarrow> bs = cs)) \<and>
    (n \<noteq> 0 \<longrightarrow> (\<exists>r. strncmp p q n m = Some r \<and> (r = 0 \<longleftrightarrow> take (unat n) bs = take (unat n) cs)))"
proof -
  have nz: "0 \<notin> set bs" "0 \<notin> set cs" using assms cstr_nonzero by blast+
  have "strncmp p q n m = Some (str_cmp (take (Suc (unat (n - 1))) bs) (take (Suc (unat (n - 1))) cs))"
    using strncmp_loop_cmp [OF assms, of 0 n] by (simp add: strncmp_def)
  moreover have "n \<noteq> 0 \<Longrightarrow> Suc (unat (n - 1)) = unat n"
    using unat_sub32 [of 1 n] by (simp add: Suc_leI unat_gt_0)
  moreover have "str_cmp (take k bs) (take k cs) = 0 \<longleftrightarrow> take k bs = take k cs" for k
    using nz by (intro str_cmp_eq) (auto dest: in_set_takeD)
  ultimately show ?thesis using strcmp_cmp [OF assms] str_cmp_eq [OF nz] by simp
qed

theorem strcmp_zero_iff_equal_witness: "\<exists>r. strcmp 0x1000 0x2000 mem_ab = Some r \<and> r \<noteq> 0"
  using strcmp_zero_iff_equal [OF mem_ab_strings] by auto

text \<open>With the bound 0 \<open>strncmp\<close> compares whole strings instead of nothing, because \<open>n-1\<close>
  wraps around: "a" and "b" differ in their first 0 characters.\<close>

theorem strncmp_zero_bound: "strncmp 0x1000 0x2000 0 mem_ab = Some (- 1)"
  using strncmp_loop_cmp [OF mem_ab_strings, of 0 0] by (simp add: strncmp_def cmp_char_def)

text \<open>Characters are compared as signed, where the C standard asks for unsigned.\<close>

lemma strcmp_signed: "strcmp 0x1000 0x2000 ((\<lambda>_. 0)(0x1000 := 0x80, 0x2000 := 0x61)) = Some (- 1)"
  by (subst strcmp.simps) (simp add: cmp_char_def)

end
