(* ===== verification/Clib.thy ===== *)
theory Clib
  imports Cstring
begin

text \<open>
  The rest of the kernel's C library: character classes (\<open>kernel/ctype/\<close>), conversions
  (\<open>kernel/stdlib/\<close>) and formatted output (\<open>kernel/stdio/\<close>). Signed arithmetic that leaves the
  range of \<open>int\<close> is a \<open>Fault\<close>, as C leaves it undefined. Output is the list of characters
  handed to the terminal.
\<close>

section \<open>Character classes\<close>

definition isdigit :: "int \<Rightarrow> bool" where "isdigit c \<longleftrightarrow> 48 \<le> c \<and> c \<le> 57"
definition islower :: "int \<Rightarrow> bool" where "islower c \<longleftrightarrow> 97 \<le> c \<and> c \<le> 122"
definition isupper :: "int \<Rightarrow> bool" where "isupper c \<longleftrightarrow> 65 \<le> c \<and> c \<le> 90"
definition isspace :: "int \<Rightarrow> bool" where
  "isspace c \<longleftrightarrow> c = 32 \<or> c = 9 \<or> c = 10 \<or> c = 11 \<or> c = 12 \<or> c = 13"
definition tolower :: "int \<Rightarrow> int" where "tolower c = (if isupper c then c + (97 - 65) else c)"
definition toupper :: "int \<Rightarrow> int" where "toupper c = (if islower c then c - (97 - 65) else c)"

lemma toupper_tolower: "isupper c \<Longrightarrow> toupper (tolower c) = c" "islower c \<Longrightarrow> tolower (toupper c) = c"
  by (auto simp: toupper_def tolower_def isupper_def islower_def)

section \<open>Conversions\<close>

definition int_ok :: "int \<Rightarrow> bool" where
  "int_ok i \<longleftrightarrow> - 2147483648 \<le> i \<and> i \<le> 2147483647"

definition checked :: "int \<Rightarrow> int result" where
  "checked i = (if int_ok i then Inr i else Inl (Fault ''signed overflow''))"

partial_function (option) skip_space :: "addr \<Rightarrow> mem \<Rightarrow> addr option" where
  "skip_space s m = (if m s \<noteq> 0 \<and> isspace (sint (m s)) then skip_space (s + 1) m else Some s)"

partial_function (option) atoi_loop :: "addr \<Rightarrow> int \<Rightarrow> mem \<Rightarrow> int result option" where
  "atoi_loop s i m =
     (if m s \<noteq> 0 \<and> isdigit (sint (m s))
      then (case checked (i * 10) of Inl e \<Rightarrow> Some (Inl e) | Inr j \<Rightarrow>
            (case checked (j + (sint (m s) - 48)) of Inl e \<Rightarrow> Some (Inl e) | Inr k \<Rightarrow> atoi_loop (s + 1) k m))
      else Some (Inr i))"

definition atoi :: "addr \<Rightarrow> mem \<Rightarrow> int result option" where
  "atoi str m =
     (case skip_space str m of
        None \<Rightarrow> None
      | Some str \<Rightarrow>
          let (sgn, str) = (if m str = 45 then (- 1, str + 1) else if m str = 43 then (1, str + 1) else (1, str))
          in map_option (\<lambda>r. rbind r (\<lambda>i. checked (sgn * i))) (atoi_loop str 0 m))"

definition digit_char :: "u32 \<Rightarrow> u8" where
  "digit_char r = (if r < 10 then ucast r + 48 else ucast r + 97 - 10)"

text \<open>
  The loop that writes the digits, lowest first, and the one that reverses them in place. The
  divisor is 10 or 16; the test \<open>1 < divisor\<close> only makes the recursion total.
\<close>

function itoa_digits :: "addr \<Rightarrow> u32 \<Rightarrow> u32 \<Rightarrow> mem \<Rightarrow> addr \<times> mem" where
  "itoa_digits p ud divisor m =
     (let m = m(p := digit_char (ud mod divisor)); p = p + 1; ud = ud div divisor in
      if ud \<noteq> 0 \<and> 1 < divisor then itoa_digits p ud divisor m else (p, m))"
  by pat_completeness auto
termination
proof (relation "measure (\<lambda>(p, ud, divisor, m). unat ud)", goal_cases)
  case (2 p ud divisor m x xa xb)
  then have "ud \<noteq> 0" "1 < unat divisor" by (auto simp: less32_iff)
  then show ?case using 2(3) by (simp add: unat_div unat_gt_0)
qed simp

function itoa_reverse :: "addr \<Rightarrow> addr \<Rightarrow> mem \<Rightarrow> mem" where
  "itoa_reverse p1 p2 m =
     (if p1 < p2 then
        let tmp = m p1; m = m(p1 := m p2); m = m(p2 := tmp) in itoa_reverse (p1 + 1) (p2 - 1) m
      else m)"
  by pat_completeness auto
termination
proof (relation "measure (\<lambda>(p1, p2, m). unat p2 - unat p1)", goal_cases)
  case (2 p1 p2 m x xa xb)
  then have "unat p1 < unat p2" by (simp add: less32_iff)
  moreover from this have "unat p1 < 4294967295" using unat_less_2p32 [of p2] by linarith
  ultimately have "unat (p1 + 1) = unat p1 + 1" "unat (p2 - 1) = unat p2 - 1"
    by (simp_all add: unat_succ32 unat_pred32)
  with \<open>unat p1 < unat p2\<close> show ?case by simp
qed simp

declare itoa_digits.simps [simp del] itoa_reverse.simps [simp del]

text \<open>\<open>base\<close> is the conversion character \<open>d\<close>, \<open>u\<close> or \<open>x\<close>.\<close>

definition itoa :: "u32 \<Rightarrow> addr \<Rightarrow> u8 \<Rightarrow> mem \<Rightarrow> (addr \<times> mem) result" where
  "itoa val str base m =
     (let p = str; ud = val; divisor = (10 :: u32) in
      rbind (if base = 100 \<and> sint val < 0
             then rbind (checked (- sint val)) (\<lambda>v. Inr (p + 1, str + 1, m(p := 45), word_of_int v, divisor))
             else Inr (p, str, m, ud, if base = 120 then 16 else divisor))
        (\<lambda>(p, str, m, ud, divisor).
          let (p, m) = itoa_digits p ud divisor m;
              m = m(p := 0)
          in Inr (str, itoa_reverse str (p - 1) m)))"

section \<open>Formatted output\<close>

text \<open>
  The arguments behind the format are the words \<open>arg 0\<close>, \<open>arg 1\<close>, \dots of the caller's stack;
  \<open>buf\<close> is the local buffer. A character sequence is printed until its terminator.
\<close>

partial_function (option) put_string :: "addr \<Rightarrow> mem \<Rightarrow> u32 list \<Rightarrow> u32 list option" where
  "put_string p m out = (if m p \<noteq> 0 then put_string (p + 1) m (out @ [scast (m p)]) else Some out)"

definition null_text :: "u32 list" where
  "null_text = [40, 110, 117, 108, 108, 41]"

partial_function (option) printf_loop ::
    "addr \<Rightarrow> (nat \<Rightarrow> u32) \<Rightarrow> addr \<Rightarrow> nat \<Rightarrow> mem \<Rightarrow> u32 list \<Rightarrow> (u32 list \<times> mem) result option" where
  "printf_loop buf arg format k m out =
     (let c = m format; format = format + 1 in
      if c = 0 then Some (Inr (out, m))
      else if c \<noteq> 37 then printf_loop buf arg format k m (out @ [scast c])
      else
        let c = m format; format = format + 1 in
        if c = 100 \<or> c = 117 \<or> c = 120 then
          (case itoa (arg k) buf c m of
             Inl e \<Rightarrow> Some (Inl e)
           | Inr (_, m) \<Rightarrow>
               (case put_string buf m out of None \<Rightarrow> None | Some out \<Rightarrow> printf_loop buf arg format (Suc k) m out))
        else if c = 115 then
          (if arg k = 0 then printf_loop buf arg format (Suc k) m (out @ null_text)
           else case put_string (arg k) m out of None \<Rightarrow> None | Some out \<Rightarrow> printf_loop buf arg format (Suc k) m out)
        else printf_loop buf arg format (Suc k) m (out @ [arg k]))"

definition printf :: "addr \<Rightarrow> (nat \<Rightarrow> u32) \<Rightarrow> addr \<Rightarrow> mem \<Rightarrow> (u32 list \<times> mem) result option" where
  "printf buf arg format m = printf_loop buf arg format 0 m []"

section \<open>Digits\<close>

fun nat_digits :: "nat \<Rightarrow> nat \<Rightarrow> nat list" where
  "nat_digits b n = (if n < b \<or> b \<le> 1 then [n] else nat_digits b (n div b) @ [n mod b])"

declare nat_digits.simps [simp del]

definition dchar :: "nat \<Rightarrow> u8" where
  "dchar d = digit_char (of_nat d)"

primrec store_bytes :: "addr \<Rightarrow> u8 list \<Rightarrow> mem \<Rightarrow> mem" where
  "store_bytes p [] m = m"
| "store_bytes p (x # xs) m = store_bytes (p + 1) xs (m(p := x))"

lemma nat_digits_ne: "nat_digits b n \<noteq> []"
  by (subst nat_digits.simps) simp

lemma nat_digits_less: "1 < b \<Longrightarrow> d \<in> set (nat_digits b n) \<Longrightarrow> d < b"
proof (induction b n rule: nat_digits.induct)
  case (1 b n)
  then show ?case by (subst (asm) (2) nat_digits.simps) (auto split: if_splits)
qed

lemma nat_digits_length: "1 < b \<Longrightarrow> n < b ^ k \<Longrightarrow> 0 < k \<Longrightarrow> length (nat_digits b n) \<le> k"
proof (induction k arbitrary: n)
  case (Suc k)
  show ?case
  proof (cases "n < b")
    case True
    then show ?thesis by (subst nat_digits.simps) simp
  next
    case False
    then have "0 < k" using Suc.prems by (cases k) auto
    moreover have "n div b < b ^ k" using Suc.prems by (intro less_mult_imp_div_less) (simp add: mult.commute)
    ultimately show ?thesis using False Suc by (subst nat_digits.simps) simp
  qed
qed simp

lemma nat_digits_value: "1 < b \<Longrightarrow> foldl (\<lambda>a d. a * b + d) 0 (nat_digits b n) = n"
proof (induction b n rule: nat_digits.induct)
  case (1 b n)
  then show ?case by (subst nat_digits.simps) auto
qed

lemma itoa_digits_store:
  "1 < b \<Longrightarrow> itoa_digits p ud b m =
     (let ds = nat_digits (unat b) (unat ud) in (p + of_nat (length ds), store_bytes p (map dchar (rev ds)) m))"
proof (induction p ud b m rule: itoa_digits.induct)
  case (1 p ud b m)
  have b: "1 < unat b" using 1(2) by (simp add: less32_iff)
  have d: "digit_char (ud mod b) = dchar (unat ud mod unat b)"
  proof -
    have "unat ud mod unat b < 4294967296" by (rule le_less_trans [OF mod_less_eq_dividend unat_less_2p32])
    then have "ud mod b = of_nat (unat ud mod unat b)" by (simp add: eq32_iff unat_of_nat32 unat_mod_distrib)
    then show ?thesis by (simp add: dchar_def)
  qed
  have z: "ud div b = 0 \<longleftrightarrow> unat ud < unat b"
    using b by (simp add: word_unat_eq_iff unat_div div_eq_0_iff)
  show ?case
  proof (cases "ud div b = 0")
    case True
    then have "nat_digits (unat b) (unat ud) = [unat ud]" using z by (subst nat_digits.simps) simp
    moreover have "unat ud mod unat b = unat ud" using True z by simp
    ultimately show ?thesis using True d by (subst itoa_digits.simps) (simp add: Let_def)
  next
    case False
    then have "nat_digits (unat b) (unat ud) = nat_digits (unat b) (unat (ud div b)) @ [unat ud mod unat b]"
      using z b by (subst nat_digits.simps) (simp add: unat_div)
    moreover have "itoa_digits p ud b m = itoa_digits (p + 1) (ud div b) b (m(p := digit_char (ud mod b)))"
      using False 1(2) by (subst itoa_digits.simps) (simp add: Let_def)
    ultimately show ?thesis using 1(1) [OF refl refl refl] False 1(2) d by (simp add: Let_def algebra_simps fun_upd_def)
  qed
qed

section \<open>Blocks of bytes\<close>

definition bytes :: "mem \<Rightarrow> addr \<Rightarrow> nat \<Rightarrow> u8 list" where
  "bytes m p n = map (\<lambda>i. m (p + of_nat i)) [0..<n]"

lemma bytes_length [simp]: "length (bytes m p n) = n"
  by (simp add: bytes_def)

lemma bytes_Cons: "bytes m p (Suc n) = m p # bytes m (p + 1) n"
  by (simp add: bytes_def upt_conv_Cons map_Suc_upt [symmetric] algebra_simps del: upt_Suc)

lemma bytes_snoc: "bytes m p (Suc n) = bytes m p n @ [m (p + of_nat n)]"
  by (simp add: bytes_def)

lemma bytes_cong: "(\<And>i. i < n \<Longrightarrow> m' (p + of_nat i) = m (p + of_nat i)) \<Longrightarrow> bytes m' p n = bytes m p n"
  by (simp add: bytes_def)

lemma bytes_nth: "i < n \<Longrightarrow> bytes m p n ! i = m (p + of_nat i)"
  by (simp add: bytes_def)

lemma cstr_bytes: "bytes m p n = bs \<Longrightarrow> 0 \<notin> set bs \<Longrightarrow> m (p + of_nat n) = 0 \<Longrightarrow> cstr m p bs"
proof (induction bs arbitrary: p n)
  case Nil
  then show ?case by (auto simp: bytes_def)
next
  case (Cons b bs)
  then obtain k where "n = Suc k" by (cases n) (auto simp: bytes_def)
  with Cons.prems Cons.IH [of "p + 1" k] show ?case by (auto simp: bytes_Cons algebra_simps)
qed

lemma store_bytes_other: "(\<And>i. i < length xs \<Longrightarrow> a \<noteq> p + of_nat i) \<Longrightarrow> store_bytes p xs m a = m a"
proof (induction xs arbitrary: p m)
  case (Cons x xs)
  have "a \<noteq> p + 1 + of_nat i" if "i < length xs" for i
    using Cons.prems [of "Suc i"] that by (simp add: algebra_simps)
  then have "store_bytes (p + 1) xs (m(p := x)) a = (m(p := x)) a" by (rule Cons.IH)
  then show ?case using Cons.prems [of 0] by simp
qed simp

lemma bytes_store: "length xs < 4294967296 \<Longrightarrow> bytes (store_bytes p xs m) p (length xs) = xs"
proof (induction xs arbitrary: p m)
  case (Cons x xs)
  have "store_bytes (p + 1) xs (m(p := x)) p = x"
  proof (subst store_bytes_other)
    fix i assume i: "i < length xs"
    have "p \<notin> span (p + 1) i" using i Cons.prems by (intro span_fresh) simp
    then show "p \<noteq> p + 1 + of_nat i" unfolding span_def by blast
  qed simp
  with Cons show ?case by (simp add: bytes_Cons)
qed (simp add: bytes_def)

text \<open>Reversal in place of a block that does not wrap around.\<close>

lemma itoa_reverse_bytes:
  "fits_block p n \<Longrightarrow> 0 < unat p \<Longrightarrow>
   bytes (itoa_reverse p (p + of_nat n - 1) m) p n = rev (bytes m p n) \<and>
   (\<forall>a. \<not> in_block p n a \<longrightarrow> itoa_reverse p (p + of_nat n - 1) m a = m a)"
proof (induction n arbitrary: p m rule: less_induct)
  case (less n)
  have pp: "unat (p - 1) = unat p - 1" using less.prems(2) by (rule unat_pred32)
  show ?case
  proof (cases "n \<le> 1")
    case True
    have "\<not> p < p + of_nat n - 1"
      using True pp by (cases n) (auto simp: less32_iff)
    then have "itoa_reverse p (p + of_nat n - 1) m = m" by (subst itoa_reverse.simps) simp
    moreover have "rev (bytes m p n) = bytes m p n" using True by (cases n) (auto simp: bytes_def)
    ultimately show ?thesis by simp
  next
    case False
    then have n: "n = Suc (Suc (n - 2))" by simp
    define k where "k = n - 2"
    note n = n [folded k_def]
    let ?q = "p + of_nat (Suc k)"
    have q: "p + of_nat n - 1 = ?q" by (simp add: n)
    have uq: "unat ?q = unat p + Suc k" using block_addr [OF less.prems(1), of "Suc k"] n by simp
    have up: "unat (p + 1) = unat p + 1" using less.prems(1) n by (intro unat_succ32) (simp add: fits_block_def)
    let ?m = "m(p := m ?q, ?q := m p)"
    have lt: "p < ?q" using uq by (simp add: less32_iff)
    have e: "itoa_reverse p (p + of_nat n - 1) m = itoa_reverse (p + 1) (p + 1 + of_nat k - 1) ?m"
    proof -
      have "p + 1 + of_nat k - 1 = ?q - 1" by simp
      then show ?thesis unfolding q using lt by (subst itoa_reverse.simps) (simp only: if_True Let_def fun_upd_same fun_upd_other fun_upd_twist)
    qed
    let ?r = "itoa_reverse (p + 1) (p + 1 + of_nat k - 1) ?m"
    have fk: "fits_block (p + 1) k" using less.prems(1) up n by (simp add: fits_block_def)
    have "bytes ?r (p + 1) k = rev (bytes ?m (p + 1) k) \<and> (\<forall>a. \<not> in_block (p + 1) k a \<longrightarrow> ?r a = ?m a)"
      by (rule less.IH) (use n fk up in simp_all)
    then have IH: "bytes ?r (p + 1) k = rev (bytes ?m (p + 1) k)" "\<And>a. \<not> in_block (p + 1) k a \<Longrightarrow> ?r a = ?m a"
      by blast+
    have out: "\<not> in_block (p + 1) k p" "\<not> in_block (p + 1) k ?q" using up uq by (auto simp: in_block_def)
    have inner: "bytes ?m (p + 1) k = bytes m (p + 1) k"
    proof (rule bytes_cong)
      fix i assume "i < k"
      then have u: "unat (p + 1 + of_nat i) = unat p + 1 + i" using block_addr [OF fk, of i] up by simp
      have "p + 1 + of_nat i \<noteq> p" unfolding eq32_iff u by simp
      moreover have "p + 1 + of_nat i \<noteq> ?q" unfolding eq32_iff u uq using \<open>i < k\<close> by simp
      ultimately show "?m (p + 1 + of_nat i) = m (p + 1 + of_nat i)" by simp
    qed
    have "bytes x p n = x p # bytes x (p + 1) k @ [x ?q]" for x :: mem
      by (simp only: n bytes_Cons [of x p "Suc k"] bytes_snoc [of x "p + 1" k]) (simp add: algebra_simps)
    moreover have "?r p = m ?q" "?r ?q = m p" using IH(2) out lt by auto
    moreover have "\<not> in_block p n a \<Longrightarrow> ?r a = m a" for a
    proof -
      assume a: "\<not> in_block p n a"
      then have "\<not> in_block (p + 1) k a" "a \<noteq> p" "a \<noteq> ?q" using up uq n by (auto simp: in_block_def)
      then show ?thesis using IH(2) by simp
    qed
    ultimately show ?thesis unfolding e using IH(1) inner by simp
  qed
qed

lemma dchar_nonzero: "d < 16 \<Longrightarrow> dchar d \<noteq> 0"
proof -
  assume "d < 16"
  then have "d \<in> set [0..<16]" by simp
  moreover have "\<forall>d\<in>set [0..<16]. dchar d \<noteq> 0" by (simp add: upt_rec dchar_def digit_char_def)
  ultimately show ?thesis by blast
qed

lemma itoa_core:
  fixes b ud s :: u32 and m :: mem
  assumes b: "b = 10 \<or> b = 16" and s: "fits_block s 11" "0 < unat s"
  defines "ds \<equiv> nat_digits (unat b) (unat ud)"
  defines "m' \<equiv> itoa_reverse s (s + of_nat (length ds) - 1)
    ((store_bytes s (map dchar (rev ds)) m)(s + of_nat (length ds) := 0))"
  shows "cstr m' s (map dchar ds)" "length ds \<le> 10" "\<And>a. \<not> in_block s 11 a \<Longrightarrow> m' a = m a"
proof -
  have ub: "1 < unat b" "unat b \<le> 16" "10 \<le> unat b" using b by auto
  have "unat ud < unat b ^ 10"
  proof -
    have "(4294967296 :: nat) \<le> 10 ^ 10" by simp
    also have "(10 :: nat) ^ 10 \<le> unat b ^ 10" using ub(3) by (intro power_mono) simp_all
    finally show ?thesis using unat_less_2p32 [of ud] by linarith
  qed
  then show len: "length ds \<le> 10" unfolding ds_def using ub(1) by (intro nat_digits_length) simp_all
  let ?n = "length ds"
  let ?m1 = "store_bytes s (map dchar (rev ds)) m"
  let ?m2 = "?m1(s + of_nat ?n := 0)"
  have u: "unat (s + of_nat i) = unat s + i" if "i < 11" for i using block_addr [OF s(1) that] .
  have fit: "fits_block s ?n" using s(1) len by (simp add: fits_block_def)
  have r: "bytes m' s ?n = rev (bytes ?m2 s ?n)" "\<And>a. \<not> in_block s ?n a \<Longrightarrow> m' a = ?m2 a"
    using itoa_reverse_bytes [OF fit s(2), of ?m2] unfolding m'_def by blast+
  have "bytes ?m2 s ?n = bytes ?m1 s ?n"
  proof (rule bytes_cong)
    fix i assume "i < ?n"
    then have "s + of_nat i \<noteq> s + of_nat ?n" unfolding eq32_iff using u len by simp
    then show "?m2 (s + of_nat i) = ?m1 (s + of_nat i)" by simp
  qed
  also have "\<dots> = map dchar (rev ds)" using bytes_store [of "map dchar (rev ds)" s m] len by simp
  finally have byt: "bytes m' s ?n = map dchar ds" using r(1) by (simp add: rev_map)
  have "\<not> in_block s ?n (s + of_nat ?n)" using u [of ?n] len by (simp add: in_block_def)
  then have "m' (s + of_nat ?n) = 0" using r(2) by simp
  moreover have "0 \<notin> set (map dchar ds)"
  proof
    assume "0 \<in> set (map dchar ds)"
    then obtain d where d: "d \<in> set ds" "dchar d = 0" by auto
    have "d < unat b" using nat_digits_less [OF ub(1)] d(1) unfolding ds_def by blast
    then have "d < 16" using ub(2) by simp
    then show False using dchar_nonzero d(2) by simp
  qed
  ultimately show "cstr m' s (map dchar ds)" using byt cstr_bytes by blast
  show "m' a = m a" if a: "\<not> in_block s 11 a" for a
  proof -
    have ne: "a \<noteq> s + of_nat i" if "i < 11" for i
      using a u [OF that] that by (auto simp: in_block_def)
    have "\<not> in_block s ?n a" using a len by (auto simp: in_block_def)
    then have "m' a = ?m2 a" by (rule r(2))
    also have "\<dots> = ?m1 a" using ne [of ?n] len by simp
    also have "\<dots> = m a" using ne len by (intro store_bytes_other) simp
    finally show ?thesis .
  qed
qed

text \<open>The text of a number in the three conversions.\<close>

definition itoa_text :: "u32 \<Rightarrow> u8 \<Rightarrow> u8 list" where
  "itoa_text val base =
     (if base = 100 \<and> sint val < 0 then 45 # map dchar (nat_digits 10 (nat (- sint val)))
      else map dchar (nat_digits (if base = 120 then 16 else 10) (unat val)))"

lemma itoa_spec:
  assumes "fits_block str 12" "0 < unat str" "base = 100 \<longrightarrow> val \<noteq> 0x80000000"
  shows "\<exists>s' m'. itoa val str base m = Inr (s', m') \<and> cstr m' str (itoa_text val base) \<and> length (itoa_text val base) \<le> 11
    \<and> (\<forall>a. \<not> in_block str 12 a \<longrightarrow> m' a = m a) \<and> s' = (if base = 100 \<and> sint val < 0 then str + 1 else str)"
proof (cases "base = 100 \<and> sint val < 0")
  case False
  let ?b = "if base = 120 then 16 else 10 :: u32"
  let ?ds = "nat_digits (unat ?b) (unat val)"
  let ?m = "itoa_reverse str (str + of_nat (length ?ds) - 1) ((store_bytes str (map dchar (rev ?ds)) m)(str + of_nat (length ?ds) := 0))"
  have fit: "fits_block str 11" using assms(1) by (simp add: fits_block_def)
  have b: "?b = 10 \<or> ?b = 16" "1 < ?b" by simp_all
  note c = itoa_core(1) [OF b(1) fit assms(2), where ud = val and m = m]
    itoa_core(2) [OF b(1) fit assms(2), where ud = val] itoa_core(3) [OF b(1) fit assms(2), where ud = val and m = m]
  have "itoa val str base m = Inr (str, ?m)"
    using False itoa_digits_store [OF b(2), of str val m] by (auto simp: itoa_def Let_def)
  moreover have "itoa_text val base = map dchar ?ds" using False by (auto simp: itoa_text_def)
  moreover have "\<not> in_block str 12 a \<Longrightarrow> \<not> in_block str 11 a" for a by (auto simp: in_block_def)
  ultimately show ?thesis using c False by (intro exI [of _ str] exI [of _ ?m]) auto
next
  case True
  let ?v = "- sint val"
  have neq: "sint val \<noteq> - 2147483648"
  proof
    assume "sint val = - 2147483648"
    then have "sint val = sint (0x80000000 :: u32)" by simp
    then have "val = 0x80000000" by (rule sint_eq32)
    with True assms(3) show False by simp
  qed
  have lo: "- 2147483648 \<le> sint val" by (rule sint_bounds32)
  then have ok: "checked ?v = Inr ?v" using True neq by (simp add: checked_def int_ok_def)
  have uv: "unat (word_of_int ?v :: u32) = nat ?v" using lo True by (intro unat_word_of_int32) linarith+
  let ?s = "str + 1" and ?mm = "m(str := 45)"
  have us: "unat ?s = unat str + 1" using assms(1) by (intro unat_succ32) (simp add: fits_block_def)
  have fit: "fits_block ?s 11" "0 < unat ?s" using assms(1) us by (simp_all add: fits_block_def)
  let ?ds = "nat_digits (unat (10 :: u32)) (unat (word_of_int ?v :: u32))"
  let ?m = "itoa_reverse ?s (?s + of_nat (length ?ds) - 1) ((store_bytes ?s (map dchar (rev ?ds)) ?mm)(?s + of_nat (length ?ds) := 0))"
  have b: "(10 :: u32) = 10 \<or> (10 :: u32) = 16" "1 < (10 :: u32)" by simp_all
  note c = itoa_core(1) [OF b(1) fit, where ud = "word_of_int ?v" and m = ?mm]
    itoa_core(2) [OF b(1) fit, where ud = "word_of_int ?v"] itoa_core(3) [OF b(1) fit, where ud = "word_of_int ?v" and m = ?mm]
  have e: "itoa val str base m = Inr (?s, ?m)"
    using True ok itoa_digits_store [OF b(2), of ?s "word_of_int ?v" ?mm] by (simp add: itoa_def Let_def)
  have t: "itoa_text val base = 45 # map dchar ?ds" using True uv by (simp add: itoa_text_def)
  have "\<not> in_block ?s 11 str" using us by (simp add: in_block_def)
  then have "?m str = 45" using c(3) by simp
  moreover have "?m a = m a" if "\<not> in_block str 12 a" for a
  proof -
    have "\<not> in_block ?s 11 a" "a \<noteq> str" using that us by (auto simp: in_block_def)
    then show ?thesis using c(3) by simp
  qed
  ultimately show ?thesis using e t c(1,2) True by (intro exI [of _ ?s] exI [of _ ?m]) simp
qed

section \<open>Reading numbers back\<close>

lemma dchar_digit: "d < 10 \<Longrightarrow> sint (dchar d) = 48 + int d"
proof -
  assume "d < 10"
  then have "d \<in> set [0..<10]" by simp
  moreover have "\<forall>d\<in>set [0..<10]. sint (dchar d) = 48 + int d"
    by (simp add: upt_rec dchar_def digit_char_def)
  ultimately show ?thesis by blast
qed

lemma atoi_loop_digits:
  "cstr m p (map dchar ds) \<Longrightarrow> \<forall>d\<in>set ds. d < 10 \<Longrightarrow> 0 \<le> i \<Longrightarrow>
   foldl (\<lambda>a d. a * 10 + int d) i ds \<le> 2147483647 \<Longrightarrow>
   atoi_loop p i m = Some (Inr (foldl (\<lambda>a d. a * 10 + int d) i ds))"
proof (induction ds arbitrary: p i)
  case Nil
  then show ?case by (subst atoi_loop.simps) simp
next
  case (Cons d ds)
  have mono: "a \<le> foldl (\<lambda>a d. a * 10 + int d) a ds" if "0 \<le> a" for a using that
  proof (induction ds arbitrary: a)
    case (Cons x xs)
    have "a \<le> a * 10 + int x" using Cons.prems by simp
    also have "\<dots> \<le> foldl (\<lambda>a d. a * 10 + int d) (a * 10 + int x) xs" using Cons by simp
    finally show ?case by simp
  qed simp
  have d: "m p = dchar d" "dchar d \<noteq> 0" "sint (dchar d) = 48 + int d" "d < 10"
    using Cons.prems(1,2) dchar_digit [of d] by auto
  have "i * 10 + int d \<le> foldl (\<lambda>a d. a * 10 + int d) (i * 10 + int d) ds" using Cons.prems(3) by (intro mono) simp
  then have b: "i * 10 + int d \<le> 2147483647" using Cons.prems(4) by simp
  have "checked (i * 10) = Inr (i * 10)" "checked (i * 10 + int d) = Inr (i * 10 + int d)"
    using b Cons.prems(3) by (simp_all add: checked_def int_ok_def)
  then have "atoi_loop p i m = atoi_loop (p + 1) (i * 10 + int d) m"
    using d by (subst atoi_loop.simps) (simp add: isdigit_def)
  then show ?case using Cons.IH [of "p + 1" "i * 10 + int d"] Cons.prems by simp
qed

lemma foldl_int: "foldl (\<lambda>a d. a * 10 + int d) (int i) ds = int (foldl (\<lambda>a d. a * 10 + d) i ds)"
proof (induction ds arbitrary: i)
  case (Cons d ds)
  have "int i * 10 + int d = int (i * 10 + d)" by simp
  then show ?case using Cons [of "i * 10 + d"] by simp
qed simp

lemma atoi_loop_nat:
  assumes "cstr m p (map dchar (nat_digits 10 n))" "int n \<le> 2147483647"
  shows "atoi_loop p 0 m = Some (Inr (int n))"
proof -
  have "\<forall>d\<in>set (nat_digits 10 n). d < 10" using nat_digits_less [of 10 _ n] by simp
  moreover have "foldl (\<lambda>a d. a * 10 + int d) 0 (nat_digits 10 n) = int n"
    using foldl_int [of 0] nat_digits_value [of 10 n] by simp
  ultimately show ?thesis using atoi_loop_digits [OF assms(1), of 0] assms(2) by simp
qed

lemma cstr_first_digit: "cstr m p (map dchar (nat_digits 10 n)) \<Longrightarrow> 48 \<le> sint (m p) \<and> sint (m p) \<le> 57"
proof -
  assume a: "cstr m p (map dchar (nat_digits 10 n))"
  obtain d ds where ds: "nat_digits 10 n = d # ds" using nat_digits_ne by (meson neq_Nil_conv)
  then have "d < 10" using nat_digits_less [of 10 d n] by simp
  then show ?thesis using a ds dchar_digit [of d] by simp
qed

lemma skip_space_stop: "\<not> isspace (sint (m p)) \<Longrightarrow> skip_space p m = Some p"
  by (subst skip_space.simps) simp

lemma atoi_itoa_text:
  assumes "cstr m p (itoa_text val 100)" "val \<noteq> 0x80000000"
  shows "atoi p m = Some (Inr (sint val))"
proof (cases "sint val < 0")
  case True
  then have t: "m p = 45" "cstr m (p + 1) (map dchar (nat_digits 10 (nat (- sint val))))"
    using assms(1) by (simp_all add: itoa_text_def)
  have "sint val \<noteq> - 2147483648"
  proof
    assume "sint val = - 2147483648"
    then have "sint val = sint (0x80000000 :: u32)" by simp
    then show False using assms(2) sint_eq32 by blast
  qed
  moreover have "- 2147483648 \<le> sint val" by (rule sint_bounds32)
  ultimately have "atoi_loop (p + 1) 0 m = Some (Inr (- sint val))" using atoi_loop_nat [OF t(2)] True by simp
  moreover have "skip_space p m = Some p" using t(1) by (intro skip_space_stop) (simp add: isspace_def)
  moreover have "checked (sint val) = Inr (sint val)" using sint_bounds32 [of val] by (simp add: checked_def int_ok_def)
  ultimately show ?thesis using t(1) by (simp add: atoi_def)
next
  case False
  then have t: "cstr m p (map dchar (nat_digits 10 (unat val)))" using assms(1) by (simp add: itoa_text_def)
  have v: "int (unat val) = sint val" using False by (intro sint_nonneg32) simp
  note d = cstr_first_digit [OF t]
  have "m p \<noteq> 45" "m p \<noteq> 43" using d by auto
  moreover have "skip_space p m = Some p" using d by (intro skip_space_stop) (auto simp: isspace_def)
  moreover have "atoi_loop p 0 m = Some (Inr (sint val))" using atoi_loop_nat [OF t] v sint_bounds32(2) [of val] by simp
  moreover have "checked (sint val) = Inr (sint val)" using sint_bounds32 [of val] by (simp add: checked_def int_ok_def)
  ultimately show ?thesis by (simp add: atoi_def)
qed

section \<open>Properties\<close>

text \<open>\<open>itoa\<close> leaves in the buffer the terminated text of the number in the base asked for, with a
  minus sign for a negative number under \<open>d\<close>, and writes nothing outside of the first 12 bytes;
  the buffer of 20 bytes \<open>printf\<close> gives it is large enough.\<close>

theorem itoa_correct:
  assumes "fits_block str 12" "0 < unat str" "base = 100 \<longrightarrow> val \<noteq> 0x80000000"
  shows "\<exists>s' m'. itoa val str base m = Inr (s', m') \<and> cstr m' str (itoa_text val base) \<and> length (itoa_text val base) \<le> 11
    \<and> (\<forall>a. \<not> in_block str 12 a \<longrightarrow> m' a = m a) \<and> s' = (if base = 100 \<and> sint val < 0 then str + 1 else str)"
  using assms by (rule itoa_spec)

theorem itoa_correct_witness:
  "\<exists>s' m'. itoa 255 0x1000 120 (\<lambda>_. 0) = Inr (s', m') \<and> cstr m' 0x1000 [102, 102]"
proof -
  have "itoa_text 255 120 = [102, 102]"
    by (simp add: itoa_text_def nat_digits.simps [of 16 255] nat_digits.simps [of 16 15] dchar_def digit_char_def)
  then show ?thesis using itoa_correct [of "0x1000" 120 255 "\<lambda>_. 0"] by (auto simp: fits_block_def)
qed

text \<open>C36. Round trip: \<open>atoi\<close> reads back the decimal digits \<open>itoa\<close> wrote, for every number but the
  smallest.\<close>

theorem atoi_itoa_roundtrip:
  assumes "fits_block str 12" "0 < unat str" "val \<noteq> 0x80000000"
  shows "\<exists>s' m'. itoa val str 100 m = Inr (s', m') \<and> atoi str m' = Some (Inr (sint val))"
  using itoa_spec [of str 100 val m] assms atoi_itoa_text by auto

theorem atoi_itoa_roundtrip_witness:
  "\<exists>s' m'. itoa (- 42) 0x1000 100 (\<lambda>_. 0) = Inr (s', m') \<and> atoi 0x1000 m' = Some (Inr (- 42))"
  using atoi_itoa_roundtrip [of "0x1000" "- 42" "\<lambda>_. 0"] by (simp add: fits_block_def)

text \<open>A format that ends in a percent sign makes \<open>printf\<close> read on behind the terminator: it prints
  an argument that was never passed and takes the next byte of memory for the format.\<close>

lemma printf_trailing_percent:
  "m f = 37 \<Longrightarrow> m (f + 1) = 0 \<Longrightarrow> printf_loop buf arg f k m out = printf_loop buf arg (f + 1 + 1) (Suc k) m (out @ [arg k])"
  by (subst printf_loop.simps) simp

end
