(* ===== verification/Ports.thy ===== *)
theory Ports
  imports Prelude
begin

text \<open>
  Port input and output, \<open>i386/asm_util.h\<close>. A driver is a function of the history of port
  accesses made so far, the latest first. What a read returns is decided by the hardware: a
  device is a function from the history and the port to the value, so it may answer the same
  read differently at different times. What a driver relies on of its hardware is a hypothesis
  on that function.
\<close>

datatype event =
    Out8 u16 u8 | In8 u16 u8
  | Out16 u16 u16 | In16 u16 u16
  | Out32 u16 u32 | In32 u16 u32

type_synonym history = "event list"

record device =
  dev8 :: "history \<Rightarrow> u16 \<Rightarrow> u8"
  dev16 :: "history \<Rightarrow> u16 \<Rightarrow> u16"
  dev32 :: "history \<Rightarrow> u16 \<Rightarrow> u32"

definition outb :: "u16 \<Rightarrow> u8 \<Rightarrow> history \<Rightarrow> history" where
  "outb port val h = Out8 port val # h"

definition inb :: "device \<Rightarrow> u16 \<Rightarrow> history \<Rightarrow> u8 \<times> history" where
  "inb dev port h = (let ret = dev8 dev h port in (ret, In8 port ret # h))"

definition outw :: "u16 \<Rightarrow> u16 \<Rightarrow> history \<Rightarrow> history" where
  "outw port val h = Out16 port val # h"

definition inw :: "device \<Rightarrow> u16 \<Rightarrow> history \<Rightarrow> u16 \<times> history" where
  "inw dev port h = (let ret = dev16 dev h port in (ret, In16 port ret # h))"

definition outl :: "u16 \<Rightarrow> u32 \<Rightarrow> history \<Rightarrow> history" where
  "outl port val h = Out32 port val # h"

definition inl :: "device \<Rightarrow> u16 \<Rightarrow> history \<Rightarrow> u32 \<times> history" where
  "inl dev port h = (let ret = dev32 dev h port in (ret, In32 port ret # h))"

text \<open>A write of zero to the unused port 0x80, which takes about a microsecond.\<close>

definition iowait :: "history \<Rightarrow> history" where
  "iowait h = outb 0x80 0 h"

lemmas port_defs = outb_def inb_def outw_def inw_def outl_def inl_def iowait_def

text \<open>
  \<open>h after g\<close>: the accesses \<open>h\<close> made on top of the history \<open>g\<close>, in the order they were made.
\<close>

definition trace :: "history \<Rightarrow> history \<Rightarrow> event list" where
  "trace g h = rev (take (length h - length g) h)"

lemma trace_Cons [simp]: "length g \<le> length h \<Longrightarrow> trace g (e # h) = trace g h @ [e]"
  by (simp add: trace_def Suc_diff_le)

lemma trace_refl [simp]: "trace g g = []"
  by (simp add: trace_def)

text \<open>
  Waiting for a register: the history after \<open>n\<close> reads of it, and that from every history on some
  number of reads finds the bits of a mask clear.
\<close>

primrec polled :: "device \<Rightarrow> u16 \<Rightarrow> nat \<Rightarrow> history \<Rightarrow> history" where
  "polled dev reg 0 h = h"
| "polled dev reg (Suc n) h = polled dev reg n (snd (inb dev reg h))"

definition clears :: "device \<Rightarrow> u16 \<Rightarrow> u8 \<Rightarrow> bool" where
  "clears dev reg msk \<longleftrightarrow> (\<forall>h. \<exists>n. fst (inb dev reg (polled dev reg n h)) AND msk = 0)"

end
