(* ===== verification/Pic.thy ===== *)
theory Pic
  imports Ports
begin

text \<open>
  The pair of programmable interrupt controllers, \<open>i386/pic.c\<close> and \<open>i386/pic.h\<close>: start-up,
  masking and unmasking of interrupt lines, acknowledgement and the test for spurious
  interrupts. The chips themselves enter as a reading of the port history, after the Intel
  8259A data sheet: which of its registers each write sets.
\<close>

section \<open>The C functions\<close>

definition PIC_MASTER_CMD :: u16 where "PIC_MASTER_CMD = 0x20"
definition PIC_MASTER_DATA :: u16 where "PIC_MASTER_DATA = 0x21"
definition PIC_SLAVE_CMD :: u16 where "PIC_SLAVE_CMD = 0xA0"
definition PIC_SLAVE_DATA :: u16 where "PIC_SLAVE_DATA = 0xA1"
definition PIC_INIT :: u8 where "PIC_INIT = 0x11"
definition PIC_8086 :: u8 where "PIC_8086 = 0x01"
definition PIC_EOI :: u8 where "PIC_EOI = 0x20"
definition PIC_REG_IRR :: u8 where "PIC_REG_IRR = 0x0A"
definition PIC_REG_ISR :: u8 where "PIC_REG_ISR = 0x0B"
definition PIC_MASTER_OFFSET :: u8 where "PIC_MASTER_OFFSET = 0x20"
definition PIC_SLAVE_OFFSET :: u8 where "PIC_SLAVE_OFFSET = 0x28"
definition PIC_MASTER_CSCD :: u8 where "PIC_MASTER_CSCD = 0x04"
definition PIC_SLAVE_CSCD :: u8 where "PIC_SLAVE_CSCD = 0x02"
definition PIC_MASTER_MASK :: u8 where "PIC_MASTER_MASK = 0xFF"
definition PIC_SLAVE_MASK :: u8 where "PIC_SLAVE_MASK = 0xFF"

lemmas pic_consts = PIC_MASTER_CMD_def PIC_MASTER_DATA_def PIC_SLAVE_CMD_def PIC_SLAVE_DATA_def PIC_INIT_def
  PIC_8086_def PIC_EOI_def PIC_REG_IRR_def PIC_REG_ISR_def PIC_MASTER_OFFSET_def PIC_SLAVE_OFFSET_def
  PIC_MASTER_CSCD_def PIC_SLAVE_CSCD_def PIC_MASTER_MASK_def PIC_SLAVE_MASK_def

text \<open>
  \<open>1<<irq\<close> on a 32-bit \<open>int\<close>, cut to the \<open>uint8_t\<close> it is combined with; shifting into or past
  the sign bit is undefined.
\<close>

definition irq_bit :: "u8 \<Rightarrow> u8 result" where
  "irq_bit irq = (if unat irq < 31 then Inr (ucast (push_bit (unat irq) 1 :: u32)) else Inl (Fault ''shift''))"

definition pic_mask_irq :: "device \<Rightarrow> u8 \<Rightarrow> history \<Rightarrow> history result" where
  "pic_mask_irq dev irq h =
     (let (port, irq) = if irq < 8 then (PIC_MASTER_DATA, irq) else (PIC_SLAVE_DATA, irq - 8);
          (mask, h) = inb dev port h
      in rbind (irq_bit irq) (\<lambda>b. Inr (outb port (mask OR b) h)))"

definition pic_unmask_irq :: "device \<Rightarrow> u8 \<Rightarrow> history \<Rightarrow> history result" where
  "pic_unmask_irq dev irq h =
     (let (port, irq) = if irq < 8 then (PIC_MASTER_DATA, irq) else (PIC_SLAVE_DATA, irq - 8);
          (mask, h) = inb dev port h
      in rbind (irq_bit irq) (\<lambda>b. Inr (outb port (mask AND NOT b) h)))"

definition pic_init :: "device \<Rightarrow> history \<Rightarrow> history result" where
  "pic_init dev h =
     (let h = outb PIC_MASTER_CMD PIC_INIT h;
          h = outb PIC_SLAVE_CMD PIC_INIT h;
          h = iowait h;
          h = outb PIC_MASTER_DATA PIC_MASTER_OFFSET h;
          h = outb PIC_SLAVE_DATA PIC_SLAVE_OFFSET h;
          h = iowait h;
          h = outb PIC_MASTER_DATA PIC_MASTER_CSCD h;
          h = outb PIC_SLAVE_DATA PIC_SLAVE_CSCD h;
          h = iowait h;
          h = outb PIC_MASTER_DATA PIC_8086 h;
          h = outb PIC_SLAVE_DATA PIC_8086 h;
          h = iowait h;
          h = outb PIC_MASTER_DATA PIC_MASTER_MASK h;
          h = outb PIC_SLAVE_DATA PIC_SLAVE_MASK h;
          h = iowait h
      in pic_unmask_irq dev 2 h)"

text \<open>The result type is \<open>uint8_t\<close>, so the slave's half is cut off.\<close>

definition pic_read_mask :: "device \<Rightarrow> history \<Rightarrow> u8 \<times> history" where
  "pic_read_mask dev h =
     (let (s, h) = inb dev PIC_SLAVE_DATA h; (m, h) = inb dev PIC_MASTER_DATA h
      in (ucast (push_bit 8 (ucast s :: u32) OR ucast m), h))"

definition pic_read_reg :: "device \<Rightarrow> u8 \<Rightarrow> history \<Rightarrow> u16 \<times> history" where
  "pic_read_reg dev pic_reg h =
     (let h = outb PIC_MASTER_CMD pic_reg h;
          h = outb PIC_SLAVE_CMD pic_reg h;
          (s, h) = inb dev PIC_SLAVE_CMD h;
          (m, h) = inb dev PIC_MASTER_CMD h
      in (ucast (push_bit 8 (ucast s :: u32) OR ucast m), h))"

definition pic_send_eoi :: "u8 \<Rightarrow> history \<Rightarrow> history" where
  "pic_send_eoi irq h =
     (let h = if irq \<ge> 8 then outb PIC_SLAVE_CMD PIC_EOI h else h
      in outb PIC_MASTER_CMD PIC_EOI h)"

definition pic_is_spurious :: "device \<Rightarrow> history \<Rightarrow> bool \<times> history" where
  "pic_is_spurious dev h =
     (let (irqs, h) = pic_read_reg dev PIC_REG_ISR h in
      if irqs AND 0x0080 = 0 then (True, h)
      else if irqs AND 0x8000 = 0 then (True, outb PIC_MASTER_CMD PIC_EOI h)
      else (False, h))"

section \<open>The chips\<close>

text \<open>
  A write of a command with bit 4 set starts the initialisation of a chip: it clears the mask
  and the next writes to the data port are the vector offset, the cascade wiring (unless bit 1
  says there is none) and the mode (if bit 0 asks for it). After that a write to the data port
  sets the mask. A command with bit 3 set and bit 4 clear selects which register the command
  port reads.
\<close>

datatype phase = Ready | Want_offset | Want_cascade | Want_mode

record chip =
  phase :: phase
  single :: bool
  wants_mode :: bool
  offset :: u8
  cascade :: u8
  mode :: u8
  imr :: u8

definition chip_data :: "u8 \<Rightarrow> chip \<Rightarrow> chip" where
  "chip_data v c =
     (let last_phase = if wants_mode c then Want_mode else Ready in
      case phase c of
        Want_offset \<Rightarrow> c\<lparr>phase := (if single c then last_phase else Want_cascade), offset := v\<rparr>
      | Want_cascade \<Rightarrow> c\<lparr>phase := last_phase, cascade := v\<rparr>
      | Want_mode \<Rightarrow> c\<lparr>phase := Ready, mode := v\<rparr>
      | Ready \<Rightarrow> c\<lparr>imr := v\<rparr>)"

fun chip_step :: "u16 \<Rightarrow> u16 \<Rightarrow> event \<Rightarrow> chip \<Rightarrow> chip" where
  "chip_step cmd data (Out8 p v) c =
     (if p = cmd then
        if bit v 4 then c\<lparr>phase := Want_offset, single := bit v 1, wants_mode := bit v 0, imr := 0\<rparr> else c
      else if p = data then chip_data v c
      else c)"
| "chip_step cmd data _ c = c"

primrec chip_of :: "u16 \<Rightarrow> u16 \<Rightarrow> chip \<Rightarrow> history \<Rightarrow> chip" where
  "chip_of cmd data c [] = c"
| "chip_of cmd data c (e # h) = chip_step cmd data e (chip_of cmd data c h)"

abbreviation master :: "chip \<Rightarrow> history \<Rightarrow> chip" where
  "master \<equiv> chip_of 0x20 0x21"

abbreviation slave :: "chip \<Rightarrow> history \<Rightarrow> chip" where
  "slave \<equiv> chip_of 0xA0 0xA1"

text \<open>
  \<open>pics dev m s\<close>: the device has a master chip that started as \<open>m\<close> and a slave chip that
  started as \<open>s\<close>, and a read of a data port outside an initialisation returns the mask.
\<close>

definition pics :: "device \<Rightarrow> chip \<Rightarrow> chip \<Rightarrow> bool" where
  "pics dev m s \<longleftrightarrow>
     (\<forall>h. (phase (master m h) = Ready \<longrightarrow> dev8 dev h 0x21 = imr (master m h))
        \<and> (phase (slave s h) = Ready \<longrightarrow> dev8 dev h 0xA1 = imr (slave s h)))"

text \<open>Both chips are programmed, and the sixteen lines' mask, line 0 in bit 0.\<close>

definition pics_ready :: "chip \<Rightarrow> chip \<Rightarrow> history \<Rightarrow> bool" where
  "pics_ready m s h \<longleftrightarrow> phase (master m h) = Ready \<and> phase (slave s h) = Ready"

definition line_masked :: "chip \<Rightarrow> chip \<Rightarrow> history \<Rightarrow> nat \<Rightarrow> bool" where
  "line_masked m s h i \<longleftrightarrow> (if i < 8 then bit (imr (master m h)) i else bit (imr (slave s h)) (i - 8))"

section \<open>Lemmas\<close>

lemma irq_bit_small: "irq < 8 \<Longrightarrow> irq_bit irq = Inr (push_bit (unat irq) 1)"
proof -
  assume "irq < 8"
  then have u: "unat irq < 8" by (simp add: word_less_nat_alt)
  have "(ucast (push_bit (unat irq) 1 :: u32) :: u8) = push_bit (unat irq) 1"
    by (rule bit_word_eqI) (auto simp: bit_simps)
  then show ?thesis using u by (simp add: irq_bit_def)
qed

lemma unat_sub8: "(8 :: u8) \<le> irq \<Longrightarrow> unat (irq - 8) = unat irq - 8"
  by (simp add: unat_sub word_le_nat_alt)

lemma slave_irq: "\<not> irq < 8 \<Longrightarrow> irq < 16 \<Longrightarrow> irq - 8 < (8 :: u8) \<and> unat (irq - 8) = unat irq - 8"
  by (simp add: unat_sub8 word_less_nat_alt word_le_nat_alt not_less)

lemma bit_mask8: "bit (m OR 2 ^ k :: u8) j \<longleftrightarrow> bit m j \<or> j = k \<and> k < 8"
  "bit (m AND NOT (2 ^ k) :: u8) j \<longleftrightarrow> bit m j \<and> j \<noteq> k"
  by (auto simp: bit_simps dest: bit_imp_le_length)

lemma bit_ff: "bit (0xFF :: u8) i \<longleftrightarrow> i < 8"
proof -
  have "(0xFF :: u8) = - 1" by simp
  then show ?thesis by (simp only:) (simp add: bit_simps)
qed

lemma pic_mask_irq_line:
  assumes "pics dev m s" "pics_ready m s h" "irq < 16"
  shows "\<exists>h'. pic_mask_irq dev irq h = Inr h' \<and> pics_ready m s h'
    \<and> (\<forall>i < 16. line_masked m s h' i \<longleftrightarrow> line_masked m s h i \<or> i = unat irq)"
proof (cases "irq < 8")
  case True
  then have "unat irq < 8" by (simp add: word_less_nat_alt)
  with True assms show ?thesis
    by (auto simp: pics_def pics_ready_def pic_mask_irq_def irq_bit_small pic_consts port_defs Let_def
        chip_data_def line_masked_def bit_mask8)
next
  case False
  then have "\<not> unat irq < 8" "unat irq < 16" using assms(3) by (simp_all add: word_less_nat_alt)
  with False assms slave_irq [OF False assms(3)] show ?thesis
    by (auto simp: pics_def pics_ready_def pic_mask_irq_def irq_bit_small pic_consts port_defs Let_def
        chip_data_def line_masked_def bit_mask8)
qed

lemma pic_unmask_irq_line:
  assumes "pics dev m s" "pics_ready m s h" "irq < 16"
  shows "\<exists>h'. pic_unmask_irq dev irq h = Inr h' \<and> pics_ready m s h'
    \<and> (\<forall>i < 16. line_masked m s h' i \<longleftrightarrow> line_masked m s h i \<and> i \<noteq> unat irq)"
proof (cases "irq < 8")
  case True
  then have "unat irq < 8" by (simp add: word_less_nat_alt)
  with True assms show ?thesis
    by (auto simp: pics_def pics_ready_def pic_unmask_irq_def irq_bit_small pic_consts port_defs Let_def
        chip_data_def line_masked_def bit_mask8)
next
  case False
  then have "\<not> unat irq < 8" "unat irq < 16" using assms(3) by (simp_all add: word_less_nat_alt)
  with False assms slave_irq [OF False assms(3)] show ?thesis
    by (auto simp: pics_def pics_ready_def pic_unmask_irq_def irq_bit_small pic_consts port_defs Let_def
        chip_data_def line_masked_def bit_mask8)
qed

lemma pic_unmask_extends: "pic_unmask_irq dev irq h = Inr h' \<Longrightarrow> \<exists>e. h' = e @ h"
  by (auto simp: pic_unmask_irq_def port_defs Let_def rbind_eq_Inr split: if_splits)

section \<open>Theorems\<close>

lemma pic_init_ok:
  assumes "pics dev m s"
  shows "\<exists>h'. pic_init dev h = Inr h' \<and> pics_ready m s h'
    \<and> offset (master m h') = 32 \<and> offset (slave s h') = 40
    \<and> cascade (master m h') = 4 \<and> cascade (slave s h') = 2
    \<and> mode (master m h') = 1 \<and> mode (slave s h') = 1
    \<and> (\<forall>i < 16. line_masked m s h' i \<longleftrightarrow> i \<noteq> 2)"
proof -
  let ?w = "\<lambda>h. iowait (outb 0xA1 0xFF (outb 0x21 0xFF (iowait (outb 0xA1 1 (outb 0x21 1 (iowait (outb 0xA1 2 (outb 0x21 4
    (iowait (outb 0xA1 0x28 (outb 0x21 0x20 (iowait (outb 0xA0 0x11 (outb 0x20 0x11 h))))))))))))))"
  have m: "phase (master m (?w h)) = Ready" "imr (master m (?w h)) = 0xFF" "offset (master m (?w h)) = 32"
    "cascade (master m (?w h)) = 4" "mode (master m (?w h)) = 1"
    by (simp_all add: port_defs chip_data_def bit_numeral_rec)
  have s: "phase (slave s (?w h)) = Ready" "imr (slave s (?w h)) = 0xFF" "offset (slave s (?w h)) = 40"
    "cascade (slave s (?w h)) = 2" "mode (slave s (?w h)) = 1"
    by (simp_all add: port_defs chip_data_def bit_numeral_rec)
  have "dev8 dev (?w h) 0x21 = 0xFF" using assms m by (simp add: pics_def)
  then have "pic_init dev h = Inr (Out8 0x21 0xFB # In8 0x21 0xFF # ?w h)"
    by (simp add: pic_init_def pic_unmask_irq_def pic_consts irq_bit_small Let_def) (simp add: outb_def inb_def Let_def)
  moreover have "(0xFB :: u8) = 0xFF AND NOT (2 ^ 2)" by simp
  then have "bit (0xFB :: u8) i \<longleftrightarrow> i < 8 \<and> i \<noteq> 2" for i
    by (simp only: bit_mask8 bit_ff)
  moreover have "bit (0xFF :: u8) (i - 8)" if "i < 16" for i
    unfolding bit_ff using that by linarith
  ultimately show ?thesis
    using m s by (auto simp: pics_ready_def line_masked_def chip_data_def)
qed

text \<open>
  \<open>pic_init\<close> leaves both controllers programmed whatever state they were in: interrupt
  vectors 32 to 39 and 40 to 47, the slave wired to line 2 of the master, 8086 mode, and every
  line masked but the cascade line.
\<close>

theorem pic_init_programs:
  assumes "pics dev m s"
  shows "\<exists>h'. pic_init dev h = Inr h' \<and> pics_ready m s h'
    \<and> offset (master m h') = 32 \<and> offset (slave s h') = 40
    \<and> cascade (master m h') = 4 \<and> cascade (slave s h') = 2
    \<and> mode (master m h') = 1 \<and> mode (slave s h') = 1
    \<and> (\<forall>i < 16. line_masked m s h' i \<longleftrightarrow> i \<noteq> 2)"
  using pic_init_ok [OF assms] .

text \<open>A machine with two chips that were never programmed, to run the driver on.\<close>

definition chip0 :: chip where
  "chip0 = \<lparr>phase = Ready, single = False, wants_mode = False, offset = 0, cascade = 0, mode = 0, imr = 0\<rparr>"

definition pc :: device where
  "pc = \<lparr>dev8 = (\<lambda>h p. if p = 0x21 then imr (master chip0 h) else if p = 0xA1 then imr (slave chip0 h) else 0),
          dev16 = (\<lambda>h p. 0), dev32 = (\<lambda>h p. 0)\<rparr>"

lemma pc_pics: "pics pc chip0 chip0"
  by (simp add: pics_def pc_def)

theorem pic_init_programs_witness:
  "\<exists>h. pic_init pc [] = Inr h \<and> offset (slave chip0 h) = 40 \<and> line_masked chip0 chip0 h 15 \<and> \<not> line_masked chip0 chip0 h 2"
  using pic_init_programs [OF pc_pics, of "[]"] by auto

text \<open>
  The mask of the slave never reaches the result of \<open>pic_read_mask\<close>.
\<close>

lemma pic_read_mask_truncates: "fst (pic_read_mask dev h) = dev8 dev (snd (inb dev PIC_SLAVE_DATA h)) PIC_MASTER_DATA"
  by (simp add: pic_read_mask_def port_defs Let_def)
     (rule bit_word_eqI, auto simp: bit_simps)

end
