(* ===== verification/Idt.thy ===== *)
theory Idt
  imports Prelude
begin

text \<open>
  The interrupt descriptor table, \<open>i386/idt.c\<close> and \<open>i386/idt.h\<close>: the packing of a gate, and the
  operations that fill the table of 256 gates.
\<close>

section \<open>Data\<close>

definition IDT_KERNEL_INT :: u8 where "IDT_KERNEL_INT = 0x8E"
definition IDT_KERNEL_TRAP :: u8 where "IDT_KERNEL_TRAP = 0x8F"
definition IDT_KERNEL_NULL :: u8 where "IDT_KERNEL_NULL = 0x00"
definition IDT_NUM_ENTRIES :: nat where "IDT_NUM_ENTRIES = 256"

type_synonym idt_entry_t = u64

record idt_fields =
  offset_low :: u16
  selector :: u16
  zero_byte :: u8
  types :: u8
  offset_hi :: u16

definition gate_fields :: "idt_entry_t \<Rightarrow> idt_fields" where
  "gate_fields e = \<lparr>offset_low = ucast e, selector = ucast (drop_bit 16 e), zero_byte = ucast (drop_bit 32 e),
     types = ucast (drop_bit 40 e), offset_hi = ucast (drop_bit 48 e)\<rparr>"

record idt_ptr_t =
  ip_size :: u16
  ip_offset :: u32

record idt_state =
  iptr :: idt_ptr_t
  idt :: "idt_entry_t list"
  idtr :: idt_ptr_t

section \<open>The C functions\<close>

definition idt_create_entry :: "u16 \<Rightarrow> addr \<Rightarrow> u8 \<Rightarrow> idt_entry_t" where
  "idt_create_entry sel offset_t flags =
     (let desc = 0;
          desc = desc OR ucast (offset_t AND 0xFFFF0000);
          desc = desc OR ucast (push_bit 8 (ucast flags :: u32) AND 0x0000FF00);
          desc = push_bit 32 desc;
          desc = desc OR ucast (push_bit 16 (ucast sel :: u32) AND 0xFFFF0000);
          desc = desc OR ucast (offset_t AND 0x0000FFFF)
      in desc)"

definition idt_register_isr :: "u8 \<Rightarrow> addr \<Rightarrow> 'a idt_state_scheme \<Rightarrow> 'a idt_state_scheme" where
  "idt_register_isr interrupt func_ptr s =
     s\<lparr>idt := (idt s)[unat interrupt := idt_create_entry 0x08 func_ptr IDT_KERNEL_INT]\<rparr>"

definition idt_clear_isr :: "u8 \<Rightarrow> 'a idt_state_scheme \<Rightarrow> 'a idt_state_scheme" where
  "idt_clear_isr interrupt s = s\<lparr>idt := (idt s)[unat interrupt := idt_create_entry 0 0 IDT_KERNEL_NULL]\<rparr>"

text \<open>The assembly routine \<open>idt_load\<close>: \<open>lidt iptr\<close>.\<close>

definition idt_load :: "'a idt_state_scheme \<Rightarrow> 'a idt_state_scheme" where
  "idt_load s = s\<lparr>idtr := iptr s\<rparr>"

definition idt_init :: "addr \<Rightarrow> 'a idt_state_scheme \<Rightarrow> 'a idt_state_scheme" where
  "idt_init idt_addr s =
     (let s = s\<lparr>iptr := \<lparr>ip_size = of_nat (IDT_NUM_ENTRIES * 8 - 1), ip_offset = idt_addr\<rparr>\<rparr>;
          s = fold (\<lambda>i s. s\<lparr>idt := (idt s)[i := idt_create_entry 0 0 IDT_KERNEL_NULL]\<rparr>) [0..<IDT_NUM_ENTRIES] s
      in idt_load s)"

section \<open>What the processor reads\<close>

definition gate_offset :: "idt_entry_t \<Rightarrow> addr" where
  "gate_offset e = (let f = gate_fields e in ucast (offset_low f) OR push_bit 16 (ucast (offset_hi f)))"

definition gate_present :: "idt_entry_t \<Rightarrow> bool" where
  "gate_present e \<longleftrightarrow> bit (types (gate_fields e)) 7"

text \<open>The gate the processor finds for a vector: the routine it enters, if the gate is present.\<close>

definition gate_of :: "'a idt_state_scheme \<Rightarrow> u8 \<Rightarrow> (u16 \<times> addr) option" where
  "gate_of s v = (let e = idt s ! unat v in if gate_present e then Some (selector (gate_fields e), gate_offset e) else None)"

text \<open>The table has a gate for every 8-bit vector, so no index is out of range.\<close>

definition idt_wf :: "'a idt_state_scheme \<Rightarrow> bool" where
  "idt_wf s \<longleftrightarrow> length (idt s) = 256"

section \<open>Lemmas\<close>

lemma bit_gate:
  "bit (idt_create_entry sel off flags) i \<longleftrightarrow>
     (if i < 16 then bit off i else if i < 32 then bit sel (i - 16) else if i < 40 then False
      else if i < 48 then bit flags (i - 40) else i < 64 \<and> bit off (i - 32))"
proof -
  have u8: "bit (ucast flags :: u32) j \<longleftrightarrow> bit flags j" for j by (auto simp: bit_simps dest: bit_imp_le_length)
  have *: "bit (idt_create_entry sel off flags) i \<longleftrightarrow>
     (32 \<le> i \<and> i < 64 \<and>
       (16 \<le> i - 32 \<and> i - 32 < 16 + 16 \<and> bit off (i - 32)
        \<or> 8 \<le> i - 32 \<and> i - 32 < 8 + 8 \<and> 8 \<le> i - 32 \<and> i - 32 < 32 \<and> bit flags (i - 32 - 8))
      \<or> 16 \<le> i \<and> i < 16 + 16 \<and> 16 \<le> i \<and> i < 32 \<and> bit sel (i - 16)
      \<or> i < 16 \<and> bit off i)"
    unfolding idt_create_entry_def Let_def field_masks or.left_neutral
    by (simp only: bit_or_iff bit_part bit_shifted u8 simp_thms disj_assoc)
  consider "i < 16" | "16 \<le> i" "i < 32" | "32 \<le> i" "i < 40" | "40 \<le> i" "i < 48" | "48 \<le> i" "i < 64" | "64 \<le> i" by linarith
  then show ?thesis unfolding * by cases (simp_all add: le_diff_conv2 less_diff_conv2)
qed

lemma gate_offset_entry: "gate_offset (idt_create_entry sel off flags) = off"
proof (rule bit_word_eqI)
  fix i assume "i < LENGTH(32)"
  then have "i < 16 \<or> 16 \<le> i \<and> i < 32" by auto
  then show "bit (gate_offset (idt_create_entry sel off flags)) i = bit off i"
    unfolding gate_offset_def gate_fields_def Let_def idt_fields.simps bit_or_iff bit_shifted(1-3) field_bits
    by (elim disjE) (simp_all add: less_diff_conv2 bit_drop_bit_eq bit_gate)
qed

lemma gate_selector_entry: "selector (gate_fields (idt_create_entry sel off flags)) = sel"
  by (rule bit_word_eqI) (simp add: gate_fields_def bit_unsigned_iff bit_drop_bit_eq bit_gate)

lemma gate_types_entry: "types (gate_fields (idt_create_entry sel off flags)) = flags"
  by (rule bit_word_eqI) (simp add: gate_fields_def bit_unsigned_iff bit_drop_bit_eq bit_gate)

lemmas gate_entry = gate_offset_entry gate_selector_entry gate_types_entry gate_present_def

lemma unat_less_256: "unat (v :: u8) < 256"
  using unsigned_less [of v] by simp

lemma gate_of_register:
  "idt_wf s \<Longrightarrow> gate_of (idt_register_isr v f s) w = (if w = v then Some (8, f) else gate_of s w)"
  using unat_less_256 [of v] word_unat_eq_iff [of v w]
  by (auto simp: gate_of_def idt_register_isr_def idt_wf_def gate_entry IDT_KERNEL_INT_def Let_def nth_list_update
      bit_numeral_rec)

lemma gate_of_clear: "idt_wf s \<Longrightarrow> gate_of (idt_clear_isr v s) w = (if w = v then None else gate_of s w)"
  using unat_less_256 [of v] word_unat_eq_iff [of v w]
  by (auto simp: gate_of_def idt_clear_isr_def idt_wf_def gate_entry IDT_KERNEL_NULL_def Let_def nth_list_update)

lemma idt_wf_ops [simp]:
  "idt_wf (idt_register_isr v f s) \<longleftrightarrow> idt_wf s" "idt_wf (idt_clear_isr v s) \<longleftrightarrow> idt_wf s"
  by (simp_all add: idt_wf_def idt_register_isr_def idt_clear_isr_def)

lemma idt_fill:
  "idt (fold (\<lambda>i s. s\<lparr>idt := (idt s)[i := e]\<rparr>) [0..<n] s) = replicate (min n (length (idt s))) e @ drop n (idt s)
   \<and> iptr (fold (\<lambda>i s. s\<lparr>idt := (idt s)[i := e]\<rparr>) [0..<n] s) = iptr s"
proof (induction n)
  case (Suc n)
  then show ?case
    by (cases "n < length (idt s)")
       (auto simp: list_update_append list_update_beyond min_def drop_Suc Cons_nth_drop_Suc [symmetric] replicate_append_same
         simp flip: replicate_Suc)
qed simp

lemma idt_init_ok:
  assumes "idt_wf s"
  shows "idt_wf (idt_init a s) \<and> (\<forall>w. gate_of (idt_init a s) w = None) \<and> idtr (idt_init a s) = \<lparr>ip_size = 2047, ip_offset = a\<rparr>"
proof -
  have "idt (idt_init a s) = replicate 256 (idt_create_entry 0 0 0)" "idtr (idt_init a s) = \<lparr>ip_size = 2047, ip_offset = a\<rparr>"
    using assms idt_fill [of "idt_create_entry 0 0 0" 256 "s\<lparr>iptr := \<lparr>ip_size = 2047, ip_offset = a\<rparr>\<rparr>"]
    by (simp_all add: idt_init_def Let_def idt_load_def IDT_NUM_ENTRIES_def IDT_KERNEL_NULL_def idt_wf_def)
  then show ?thesis using unat_less_256 by (simp add: idt_wf_def gate_of_def gate_entry Let_def)
qed

section \<open>Theorems\<close>

text \<open>
  \<open>idt_init\<close> leaves a table of 256 gates, none of them present, and makes it the processor's
  table; registering a routine makes the processor enter exactly that routine with the kernel
  code selector for exactly that vector, and clearing removes it.
\<close>

theorem idt_gates:
  assumes "idt_wf s"
  shows "idt_wf (idt_init a s) \<and> (\<forall>w. gate_of (idt_init a s) w = None) \<and> idtr (idt_init a s) = \<lparr>ip_size = 2047, ip_offset = a\<rparr> \<and>
    (\<forall>w. gate_of (idt_register_isr v f s) w = (if w = v then Some (8, f) else gate_of s w)) \<and>
    (\<forall>w. gate_of (idt_clear_isr v s) w = (if w = v then None else gate_of s w))"
  using idt_init_ok [OF assms] gate_of_register [OF assms] gate_of_clear [OF assms] by blast

definition idt_state0 :: idt_state where
  "idt_state0 = \<lparr>iptr = \<lparr>ip_size = 0, ip_offset = 0\<rparr>, idt = replicate 256 0, idtr = \<lparr>ip_size = 0, ip_offset = 0\<rparr>\<rparr>"

theorem idt_gates_witness: "gate_of (idt_register_isr 14 0xC0101234 idt_state0) 14 = Some (8, 0xC0101234)"
  using idt_gates [of idt_state0 0 14 "0xC0101234"] by (simp add: idt_wf_def idt_state0_def)

end
