(* ===== verification/Isr.thy ===== *)
theory Isr
  imports Pic Idt Kalloc_Spec Linked
begin

text \<open>
  Interrupt dispatch, \<open>i386/isr.c\<close> and \<open>i386/isr.h\<close>: the table of handler chains, registration and
  release of handlers, and the routine every interrupt enters. The first node of a chain is an
  element of the static table, the others are blocks of the kernel heap; both lie in one typed
  store, an element of the table at its address.
\<close>

section \<open>Data\<close>

record regs_t =
  r_edi :: u32
  r_esi :: u32
  r_ebp :: u32
  r_esp :: u32
  r_ebx :: u32
  r_edx :: u32
  r_ecx :: u32
  r_eax :: u32
  int_no :: u32
  err_code :: u32
  r_eip :: u32
  r_cs :: u32
  r_eflags :: u32

record handler_ptr_t =
  hnd_id :: u32
  handler :: addr
  hnd_next :: addr

text \<open>\<open>sizeof(handler_ptr_t)\<close>: three 32-bit fields.\<close>

definition SIZEOF_HANDLER :: u32 where "SIZEOF_HANDLER = 12"

record interrupts = idt_state +
  i_heap :: heap
  node :: "addr \<Rightarrow> handler_ptr_t"
  ports :: history

text \<open>
  What the linker and the machine decide: the hardware, the address of \<open>handlers\<close>, and the
  addresses of the assembly stubs, of which the stub of vector \<open>v\<close> calls \<open>isr_handler\<close> with
  \<open>int_no = v\<close>.
\<close>

record isr_env =
  i_dev :: device
  handlers :: addr
  stub :: "u8 \<Rightarrow> addr"

text \<open>\<open>&handlers[i]\<close>; the index must be below 256.\<close>

definition slot :: "addr \<Rightarrow> u32 \<Rightarrow> addr" where
  "slot hs i = hs + SIZEOF_HANDLER * i"

definition upd_node :: "(handler_ptr_t \<Rightarrow> handler_ptr_t) \<Rightarrow> addr \<Rightarrow> 'a interrupts_scheme \<Rightarrow> 'a interrupts_scheme" where
  "upd_node f a s = s\<lparr>node := upd_at f a (node s)\<rparr>"

section \<open>The C functions\<close>

text \<open>The call \<open>(h->handler)(&regs)\<close> is the parameter \<open>call\<close>, from the address of the routine.\<close>

partial_function (option) isr_loop ::
  "(addr \<Rightarrow> regs_t \<Rightarrow> 'a interrupts_scheme \<Rightarrow> (regs_t \<times> 'a interrupts_scheme) result option) \<Rightarrow> addr \<Rightarrow> bool \<Rightarrow> regs_t
    \<Rightarrow> 'a interrupts_scheme \<Rightarrow> (bool \<times> regs_t \<times> 'a interrupts_scheme) result option" where
  "isr_loop call h i regs s =
     (if h \<noteq> 0 \<and> handler (node s h) \<noteq> 0
      then case call (handler (node s h)) regs s of
          None \<Rightarrow> None
        | Some (Inl e) \<Rightarrow> Some (Inl e)
        | Some (Inr (regs, s)) \<Rightarrow> isr_loop call (hnd_next (node s h)) True regs s
      else Some (Inr (i, regs, s)))"

definition isr_dispatch ::
  "isr_env \<Rightarrow> (addr \<Rightarrow> regs_t \<Rightarrow> 'a interrupts_scheme \<Rightarrow> (regs_t \<times> 'a interrupts_scheme) result option) \<Rightarrow> regs_t
    \<Rightarrow> 'a interrupts_scheme \<Rightarrow> 'a interrupts_scheme result option" where
  "isr_dispatch env call regs s =
     (let s = if int_no regs > 31 \<and> int_no regs < 48
              then s\<lparr>ports := pic_send_eoi (ucast (int_no regs - 32)) (ports s)\<rparr> else s in
      if int_no regs \<ge> 256 then Some (Inl (Fault ''handlers''))
      else map_option (\<lambda>r. rbind r (\<lambda>(i, regs, s). if \<not> i then Inl (Panic ''uncaught interrupt'') else Inr s))
             (isr_loop call (slot (handlers env) (int_no regs)) False regs s))"

definition isr_handler ::
  "isr_env \<Rightarrow> (addr \<Rightarrow> regs_t \<Rightarrow> 'a interrupts_scheme \<Rightarrow> (regs_t \<times> 'a interrupts_scheme) result option) \<Rightarrow> regs_t
    \<Rightarrow> 'a interrupts_scheme \<Rightarrow> 'a interrupts_scheme result option" where
  "isr_handler env call regs s =
     (if int_no regs = 39 \<or> int_no regs = 47
      then let (spurious, h) = pic_is_spurious (i_dev env) (ports s); s = s\<lparr>ports := h\<rparr>
           in if spurious then Some (Inr s) else isr_dispatch env call regs s
      else isr_dispatch env call regs s)"

definition request_isr ::
  "isr_env \<Rightarrow> u32 \<Rightarrow> u32 \<Rightarrow> addr \<Rightarrow> 'a interrupts_scheme \<Rightarrow> (u32 \<times> 'a interrupts_scheme) result option" where
  "request_isr env interrupt i hnd s =
     (if interrupt > 256 then Some (Inr (1, s))
      else if interrupt \<ge> 256 then Some (Inl (Fault ''handlers''))
      else let h = slot (handlers env) interrupt in
        if handler (node s h) = 0
        then let s = upd_node (\<lambda>x. x\<lparr>hnd_id := i\<rparr>) h s;
                 s = upd_node (\<lambda>x. x\<lparr>handler := hnd\<rparr>) h s
             in Some (Inr (0, s))
        else case kmalloc (i_heap s) SIZEOF_HANDLER of
            None \<Rightarrow> None
          | Some (Inl e) \<Rightarrow> Some (Inl e)
          | Some (Inr (n, hp)) \<Rightarrow>
              let s = s\<lparr>i_heap := hp\<rparr> in
              if n = 0 then Some (Inr (1, s))
              else let s = upd_node (\<lambda>x. x\<lparr>hnd_id := i\<rparr>) n s;
                       s = upd_node (\<lambda>x. x\<lparr>handler := hnd\<rparr>) n s;
                       s = upd_node (\<lambda>x. x\<lparr>hnd_next := 0\<rparr>) n s
                   in map_option (\<lambda>t. Inr (0, upd_node (\<lambda>x. x\<lparr>hnd_next := n\<rparr>) t s))
                        (walk_tail hnd_next (node s) h))"

text \<open>\<open>pic_unmask_irq\<close> takes an 8-bit line number.\<close>

definition request_irq ::
  "isr_env \<Rightarrow> u32 \<Rightarrow> u32 \<Rightarrow> addr \<Rightarrow> 'a interrupts_scheme \<Rightarrow> (u32 \<times> 'a interrupts_scheme) result option" where
  "request_irq env irq i hnd s =
     map_option (\<lambda>r. rbind r (\<lambda>(ret, s).
        if ret = 0
        then rbind (pic_unmask_irq (i_dev env) (ucast irq) (ports s)) (\<lambda>h. Inr (ret, s\<lparr>ports := h\<rparr>))
        else Inr (ret, s)))
       (request_isr env (irq + 32) i hnd s)"

partial_function (option) release_loop :: "addr \<Rightarrow> u32 \<Rightarrow> 'a interrupts_scheme \<Rightarrow> 'a interrupts_scheme result option" where
  "release_loop h i s =
     (if hnd_next (node s h) \<noteq> 0
      then if hnd_id (node s (hnd_next (node s h))) = i
           then let t = hnd_next (node s h);
                    s = upd_node (\<lambda>x. x\<lparr>hnd_next := hnd_next (node s t)\<rparr>) h s
                in Some (rbind (kfree (i_heap s) t) (\<lambda>hp. Inr (s\<lparr>i_heap := hp\<rparr>)))
           else release_loop (hnd_next (node s h)) i s
      else Some (Inr s))"

definition release_isr :: "isr_env \<Rightarrow> u32 \<Rightarrow> u32 \<Rightarrow> 'a interrupts_scheme \<Rightarrow> 'a interrupts_scheme result option" where
  "release_isr env interrupt i s =
     (if interrupt \<ge> 256 then Some (Inl (Fault ''handlers''))
      else let h = slot (handlers env) interrupt in
        if hnd_id (node s h) = i
        then if hnd_next (node s h) \<noteq> 0
             then let t = hnd_next (node s h);
                      s = upd_node (\<lambda>x. x\<lparr>hnd_id := hnd_id (node s t)\<rparr>) h s;
                      s = upd_node (\<lambda>x. x\<lparr>handler := handler (node s t)\<rparr>) h s;
                      s = upd_node (\<lambda>x. x\<lparr>hnd_next := hnd_next (node s t)\<rparr>) h s
                  in Some (rbind (kfree (i_heap s) t) (\<lambda>hp. Inr (s\<lparr>i_heap := hp\<rparr>)))
             else Some (Inr (upd_node (\<lambda>_. \<lparr>hnd_id = 0, handler = 0, hnd_next = 0\<rparr>) h s))
        else release_loop h i s)"

definition release_irq :: "isr_env \<Rightarrow> u32 \<Rightarrow> u32 \<Rightarrow> 'a interrupts_scheme \<Rightarrow> 'a interrupts_scheme result option" where
  "release_irq env irq i s =
     map_option (\<lambda>r. rbind r (\<lambda>s.
        if handler (node s (slot (handlers env) (irq + 32))) = 0
        then rbind (pic_mask_irq (i_dev env) (ucast irq) (ports s)) (\<lambda>h. Inr (s\<lparr>ports := h\<rparr>))
        else Inr s))
       (release_isr env (irq + 32) i s)"

text \<open>The vectors \<open>isr_init\<close> registers: the exceptions it has stubs for, and the lines but the cascade.\<close>

definition wrapped :: "u8 list" where
  "wrapped = [0, 1, 2, 3, 4, 5, 6, 7, 8, 10, 11, 12, 13, 14, 16, 17, 18, 19, 20, 30,
     32, 33, 35, 36, 37, 38, 39, 40, 41, 42, 43, 44, 45, 46, 47]"

definition isr_init :: "isr_env \<Rightarrow> 'a interrupts_scheme \<Rightarrow> 'a interrupts_scheme" where
  "isr_init env s =
     (let s = fold (\<lambda>i. upd_node (\<lambda>_. \<lparr>hnd_id = 0, handler = 0, hnd_next = 0\<rparr>) (slot (handlers env) (of_nat i))) [0..<256] s
      in fold (\<lambda>v. idt_register_isr v (stub env v)) wrapped s)"

text \<open>What \<open>interrupts_print_info\<close> and \<open>dump_regs\<close> print, in the order they print it.\<close>

partial_function (option) print_chain :: "u32 \<Rightarrow> addr \<Rightarrow> 'a interrupts_scheme \<Rightarrow> (u32 \<times> u32 \<times> addr) list \<Rightarrow> (u32 \<times> u32 \<times> addr) list option" where
  "print_chain i h s out =
     (if h \<noteq> 0 \<and> handler (node s h) \<noteq> 0
      then print_chain i (hnd_next (node s h)) s (out @ [(i, hnd_id (node s h), handler (node s h))])
      else Some out)"

primrec print_chains :: "isr_env \<Rightarrow> nat list \<Rightarrow> 'a interrupts_scheme \<Rightarrow> (u32 \<times> u32 \<times> addr) list \<Rightarrow> (u32 \<times> u32 \<times> addr) list option" where
  "print_chains env [] s out = Some out"
| "print_chains env (i # is) s out =
     (case print_chain (of_nat i) (slot (handlers env) (of_nat i)) s out of
        None \<Rightarrow> None | Some out \<Rightarrow> print_chains env is s out)"

definition interrupts_print_info :: "isr_env \<Rightarrow> 'a interrupts_scheme \<Rightarrow> (u32 \<times> u32 \<times> addr) list option" where
  "interrupts_print_info env s = print_chains env [0..<256] s []"

definition dump_regs :: "u32 \<Rightarrow> u32 \<Rightarrow> u32 \<Rightarrow> u32 \<Rightarrow> regs_t \<Rightarrow> (string \<times> u32) list" where
  "dump_regs c0 c2 c3 c4 regs =
     [(''INT'', int_no regs), (''ERR'', err_code regs),
      (''EAX'', r_eax regs), (''EBX'', r_ebx regs), (''ECX'', r_ecx regs), (''EDX'', r_edx regs),
      (''EIP'', r_eip regs), (''ESP'', r_esp regs), (''EBP'', r_ebp regs),
      (''EDI'', r_edi regs), (''ESI'', r_esi regs), (''CS'', r_cs regs), (''EFLAGS'', r_eflags regs),
      (''CR0'', c0), (''CR1'', 0), (''CR2'', c2), (''CR3'', c3), (''CR4'', c4)]"

end
