(* ===== verification/Keyboard.thy ===== *)
theory Keyboard
  imports Isr
begin

text \<open>
  The PS/2 controller and keyboard, \<open>i386/ps2.c\<close>, \<open>i386/ps2_kbd.c\<close> and \<open>i386/ps2_keys.h\<close>: the
  controller's command and data ports, the interrupt routine that turns scan codes into the
  state of the modifier keys and the last key, and the translation of a key to ASCII.
\<close>

section \<open>Keys\<close>

text \<open>The key codes: ASCII where the key has one, a code above 0xFF where it has none.\<close>

definition KEY_0 :: u16 where "KEY_0 = 0x30"
definition KEY_1 :: u16 where "KEY_1 = 0x31"
definition KEY_2 :: u16 where "KEY_2 = 0x32"
definition KEY_3 :: u16 where "KEY_3 = 0x33"
definition KEY_4 :: u16 where "KEY_4 = 0x34"
definition KEY_5 :: u16 where "KEY_5 = 0x35"
definition KEY_6 :: u16 where "KEY_6 = 0x36"
definition KEY_7 :: u16 where "KEY_7 = 0x37"
definition KEY_8 :: u16 where "KEY_8 = 0x38"
definition KEY_9 :: u16 where "KEY_9 = 0x39"
definition KEY_A :: u16 where "KEY_A = 0x61"
definition KEY_B :: u16 where "KEY_B = 0x62"
definition KEY_C :: u16 where "KEY_C = 0x63"
definition KEY_D :: u16 where "KEY_D = 0x64"
definition KEY_E :: u16 where "KEY_E = 0x65"
definition KEY_F :: u16 where "KEY_F = 0x66"
definition KEY_G :: u16 where "KEY_G = 0x67"
definition KEY_H :: u16 where "KEY_H = 0x68"
definition KEY_I :: u16 where "KEY_I = 0x69"
definition KEY_J :: u16 where "KEY_J = 0x6A"
definition KEY_K :: u16 where "KEY_K = 0x6B"
definition KEY_L :: u16 where "KEY_L = 0x6C"
definition KEY_M :: u16 where "KEY_M = 0x6D"
definition KEY_N :: u16 where "KEY_N = 0x6E"
definition KEY_O :: u16 where "KEY_O = 0x6F"
definition KEY_P :: u16 where "KEY_P = 0x70"
definition KEY_Q :: u16 where "KEY_Q = 0x71"
definition KEY_R :: u16 where "KEY_R = 0x72"
definition KEY_S :: u16 where "KEY_S = 0x73"
definition KEY_T :: u16 where "KEY_T = 0x74"
definition KEY_U :: u16 where "KEY_U = 0x75"
definition KEY_V :: u16 where "KEY_V = 0x76"
definition KEY_W :: u16 where "KEY_W = 0x77"
definition KEY_X :: u16 where "KEY_X = 0x78"
definition KEY_Y :: u16 where "KEY_Y = 0x79"
definition KEY_Z :: u16 where "KEY_Z = 0x7A"
definition KEY_ENTER :: u16 where "KEY_ENTER = 0x0A"
definition KEY_TAB :: u16 where "KEY_TAB = 0x09"
definition KEY_BACKSPACE :: u16 where "KEY_BACKSPACE = 0x08"
definition KEY_SPACE :: u16 where "KEY_SPACE = 0x20"
definition KEY_EXCLAMATION :: u16 where "KEY_EXCLAMATION = 0x21"
definition KEY_DOUBLEQUOTE :: u16 where "KEY_DOUBLEQUOTE = 0x22"
definition KEY_HASH :: u16 where "KEY_HASH = 0x23"
definition KEY_DOLLAR :: u16 where "KEY_DOLLAR = 0x24"
definition KEY_PERCENT :: u16 where "KEY_PERCENT = 0x25"
definition KEY_AMPERSAND :: u16 where "KEY_AMPERSAND = 0x26"
definition KEY_QUOTE :: u16 where "KEY_QUOTE = 0x27"
definition KEY_LEFTPARENTHESIS :: u16 where "KEY_LEFTPARENTHESIS = 0x28"
definition KEY_RIGHTPARENTHESIS :: u16 where "KEY_RIGHTPARENTHESIS = 0x29"
definition KEY_ASTERISK :: u16 where "KEY_ASTERISK = 0x2A"
definition KEY_PLUS :: u16 where "KEY_PLUS = 0x2B"
definition KEY_COMMA :: u16 where "KEY_COMMA = 0x2C"
definition KEY_MINUS :: u16 where "KEY_MINUS = 0x2D"
definition KEY_PERIOD :: u16 where "KEY_PERIOD = 0x2E"
definition KEY_FORWARDSLASH :: u16 where "KEY_FORWARDSLASH = 0x2F"
definition KEY_COLON :: u16 where "KEY_COLON = 0x3A"
definition KEY_SEMICOLON :: u16 where "KEY_SEMICOLON = 0x3B"
definition KEY_LESS :: u16 where "KEY_LESS = 0x3C"
definition KEY_EQUAL :: u16 where "KEY_EQUAL = 0x3D"
definition KEY_GREATER :: u16 where "KEY_GREATER = 0x3E"
definition KEY_QUESTION :: u16 where "KEY_QUESTION = 0x3F"
definition KEY_AT :: u16 where "KEY_AT = 0x40"
definition KEY_LEFTBRACKET :: u16 where "KEY_LEFTBRACKET = 0x5B"
definition KEY_BACKSLASH :: u16 where "KEY_BACKSLASH = 0x5C"
definition KEY_RIGHTBRACKET :: u16 where "KEY_RIGHTBRACKET = 0x5D"
definition KEY_CARRET :: u16 where "KEY_CARRET = 0x5E"
definition KEY_UNDERSCORE :: u16 where "KEY_UNDERSCORE = 0x5F"
definition KEY_GRAVE :: u16 where "KEY_GRAVE = 0x60"
definition KEY_LEFTCURL :: u16 where "KEY_LEFTCURL = 0x7B"
definition KEY_BAR :: u16 where "KEY_BAR = 0x7C"
definition KEY_RIGHTCURL :: u16 where "KEY_RIGHTCURL = 0x7D"
definition KEY_TILDE :: u16 where "KEY_TILDE = 0x7E"
definition KEY_UNKNOWN :: u16 where "KEY_UNKNOWN = 0x0000"
definition KEY_INVALID :: u16 where "KEY_INVALID = 0x0000"
definition KEY_ESCAPE :: u16 where "KEY_ESCAPE = 0x1000"
definition KEY_F1 :: u16 where "KEY_F1 = 0x1001"
definition KEY_F2 :: u16 where "KEY_F2 = 0x1002"
definition KEY_F3 :: u16 where "KEY_F3 = 0x1003"
definition KEY_F4 :: u16 where "KEY_F4 = 0x1004"
definition KEY_F5 :: u16 where "KEY_F5 = 0x1005"
definition KEY_F6 :: u16 where "KEY_F6 = 0x1006"
definition KEY_F7 :: u16 where "KEY_F7 = 0x1007"
definition KEY_F8 :: u16 where "KEY_F8 = 0x1008"
definition KEY_F9 :: u16 where "KEY_F9 = 0x1009"
definition KEY_F10 :: u16 where "KEY_F10 = 0x100A"
definition KEY_F11 :: u16 where "KEY_F11 = 0x100B"
definition KEY_F12 :: u16 where "KEY_F12 = 0x100C"
definition KEY_LSHIFT :: u16 where "KEY_LSHIFT = 0x2000"
definition KEY_LCTRL :: u16 where "KEY_LCTRL = 0x2001"
definition KEY_LALT :: u16 where "KEY_LALT = 0x2002"
definition KEY_RSHIFT :: u16 where "KEY_RSHIFT = 0x2003"
definition KEY_RCTRL :: u16 where "KEY_RCTRL = 0x2004"
definition KEY_RALT :: u16 where "KEY_RALT = 0x2005"
definition KEY_LWIN :: u16 where "KEY_LWIN = 0x2006"
definition KEY_RWIN :: u16 where "KEY_RWIN = 0x2007"
definition KEY_CAPSLOCK :: u16 where "KEY_CAPSLOCK = 0x3000"
definition KEY_NUMLOCK :: u16 where "KEY_NUMLOCK = 0x3001"
definition KEY_SCROLLLOCK :: u16 where "KEY_SCROLLLOCK = 0x3002"
definition KEY_INSERT :: u16 where "KEY_INSERT = 0x4000"
definition KEY_DELETE :: u16 where "KEY_DELETE = 0x4001"
definition KEY_HOME :: u16 where "KEY_HOME = 0x4002"
definition KEY_END :: u16 where "KEY_END = 0x4003"
definition KEY_PAGEUP :: u16 where "KEY_PAGEUP = 0x4004"
definition KEY_PAGEDOWN :: u16 where "KEY_PAGEDOWN = 0x4005"
definition KEY_PRINTSCREEN :: u16 where "KEY_PRINTSCREEN = 0x4006"
definition KEY_PAUSE :: u16 where "KEY_PAUSE = 0x4007"
definition KEY_UP :: u16 where "KEY_UP = 0x5000"
definition KEY_DOWN :: u16 where "KEY_DOWN = 0x5001"
definition KEY_LEFT :: u16 where "KEY_LEFT = 0x5002"
definition KEY_RIGHT :: u16 where "KEY_RIGHT = 0x5003"

lemmas key_defs = KEY_0_def KEY_1_def KEY_2_def KEY_3_def KEY_4_def KEY_5_def KEY_6_def KEY_7_def
  KEY_8_def KEY_9_def KEY_A_def KEY_B_def KEY_C_def KEY_D_def KEY_E_def KEY_F_def
  KEY_G_def KEY_H_def KEY_I_def KEY_J_def KEY_K_def KEY_L_def KEY_M_def KEY_N_def
  KEY_O_def KEY_P_def KEY_Q_def KEY_R_def KEY_S_def KEY_T_def KEY_U_def KEY_V_def
  KEY_W_def KEY_X_def KEY_Y_def KEY_Z_def KEY_ENTER_def KEY_TAB_def KEY_BACKSPACE_def KEY_SPACE_def
  KEY_EXCLAMATION_def KEY_DOUBLEQUOTE_def KEY_HASH_def KEY_DOLLAR_def KEY_PERCENT_def KEY_AMPERSAND_def KEY_QUOTE_def KEY_LEFTPARENTHESIS_def
  KEY_RIGHTPARENTHESIS_def KEY_ASTERISK_def KEY_PLUS_def KEY_COMMA_def KEY_MINUS_def KEY_PERIOD_def KEY_FORWARDSLASH_def KEY_COLON_def
  KEY_SEMICOLON_def KEY_LESS_def KEY_EQUAL_def KEY_GREATER_def KEY_QUESTION_def KEY_AT_def KEY_LEFTBRACKET_def KEY_BACKSLASH_def
  KEY_RIGHTBRACKET_def KEY_CARRET_def KEY_UNDERSCORE_def KEY_GRAVE_def KEY_LEFTCURL_def KEY_BAR_def KEY_RIGHTCURL_def KEY_TILDE_def
  KEY_UNKNOWN_def KEY_INVALID_def KEY_ESCAPE_def KEY_F1_def KEY_F2_def KEY_F3_def KEY_F4_def KEY_F5_def
  KEY_F6_def KEY_F7_def KEY_F8_def KEY_F9_def KEY_F10_def KEY_F11_def KEY_F12_def KEY_LSHIFT_def
  KEY_LCTRL_def KEY_LALT_def KEY_RSHIFT_def KEY_RCTRL_def KEY_RALT_def KEY_LWIN_def KEY_RWIN_def KEY_CAPSLOCK_def
  KEY_NUMLOCK_def KEY_SCROLLLOCK_def KEY_INSERT_def KEY_DELETE_def KEY_HOME_def KEY_END_def KEY_PAGEUP_def KEY_PAGEDOWN_def
  KEY_PRINTSCREEN_def KEY_PAUSE_def KEY_UP_def KEY_DOWN_def KEY_LEFT_def KEY_RIGHT_def

definition xt_scan :: "u16 list" where
  "xt_scan =
    [KEY_UNKNOWN, KEY_ESCAPE,
     KEY_1, KEY_2, KEY_3, KEY_4, KEY_5, KEY_6, KEY_7, KEY_8, KEY_9, KEY_0,
     KEY_MINUS, KEY_EQUAL, KEY_BACKSPACE, KEY_TAB,
     KEY_Q, KEY_W, KEY_E, KEY_R, KEY_T, KEY_Y, KEY_U, KEY_I, KEY_O, KEY_P,
     KEY_LEFTBRACKET, KEY_RIGHTBRACKET, KEY_ENTER, KEY_LCTRL,
     KEY_A, KEY_S, KEY_D, KEY_F, KEY_G, KEY_H, KEY_J, KEY_K, KEY_L,
     KEY_SEMICOLON, KEY_QUOTE, KEY_GRAVE, KEY_LSHIFT, KEY_BACKSLASH,
     KEY_Z, KEY_X, KEY_C, KEY_V, KEY_B, KEY_N, KEY_M,
     KEY_COMMA, KEY_PERIOD, KEY_FORWARDSLASH, KEY_RSHIFT,
     KEY_ASTERISK, KEY_RALT, KEY_SPACE, KEY_CAPSLOCK,
     KEY_F1, KEY_F2, KEY_F3, KEY_F4, KEY_F5, KEY_F6, KEY_F7, KEY_F8,
     KEY_F9, KEY_F10, KEY_NUMLOCK, KEY_SCROLLLOCK, KEY_HOME,
     KEY_UP, KEY_PAGEUP, KEY_DOWN, KEY_PAGEDOWN, KEY_INSERT, KEY_DELETE,
     KEY_UNKNOWN, KEY_UNKNOWN, KEY_UNKNOWN, KEY_F11, KEY_F12]"

text \<open>\<open>xt_scan[i]\<close>; the table has 83 entries.\<close>

definition xt_lookup :: "u8 \<Rightarrow> u16 result" where
  "xt_lookup i = (if unat i < length xt_scan then Inr (xt_scan ! unat i) else Inl (Fault ''xt_scan''))"

section \<open>The controller\<close>

definition PS2_CMD_PORT :: u16 where "PS2_CMD_PORT = 0x64"
definition PS2_STATUS_PORT :: u16 where "PS2_STATUS_PORT = 0x64"
definition PS2_DATA_PORT :: u16 where "PS2_DATA_PORT = 0x60"
definition PS2_STATUS_OUTBUFRDY :: u8 where "PS2_STATUS_OUTBUFRDY = 0x01"
definition PS2_STATUS_INBUFFULL :: u8 where "PS2_STATUS_INBUFFULL = 0x02"
definition PS2_DSBLPORT2 :: u8 where "PS2_DSBLPORT2 = 0xA7"
definition PS2_ENBLPORT2 :: u8 where "PS2_ENBLPORT2 = 0xA8"
definition PS2_TESTPORT2 :: u8 where "PS2_TESTPORT2 = 0xA9"
definition PS2_SELFTEST :: u8 where "PS2_SELFTEST = 0xAA"
definition PS2_TESTPORT1 :: u8 where "PS2_TESTPORT1 = 0xAB"
definition PS2_DSBLPORT1 :: u8 where "PS2_DSBLPORT1 = 0xAD"
definition PS2_ENBLPORT1 :: u8 where "PS2_ENBLPORT1 = 0xAE"
definition PS2_WRITE2IN :: u8 where "PS2_WRITE2IN = 0xD4"
definition PS2_DEVRESET :: u8 where "PS2_DEVRESET = 0xFF"
definition PS2_TESTPASS :: u8 where "PS2_TESTPASS = 0x55"
definition PS2_KBD_SETLEDS :: u8 where "PS2_KBD_SETLEDS = 0xED"

lemmas ps2_defs = PS2_CMD_PORT_def PS2_STATUS_PORT_def PS2_DATA_PORT_def PS2_STATUS_OUTBUFRDY_def PS2_STATUS_INBUFFULL_def
  PS2_DSBLPORT2_def PS2_ENBLPORT2_def PS2_TESTPORT2_def PS2_SELFTEST_def PS2_TESTPORT1_def PS2_DSBLPORT1_def PS2_ENBLPORT1_def
  PS2_WRITE2IN_def PS2_DEVRESET_def PS2_TESTPASS_def PS2_KBD_SETLEDS_def

definition ps2_read_status :: "device \<Rightarrow> history \<Rightarrow> u8 \<times> history" where
  "ps2_read_status dev h = inb dev PS2_STATUS_PORT h"

text \<open>The C operator \<open>!\<close>.\<close>

definition lnot :: "u8 \<Rightarrow> u8" where
  "lnot x = (if x = 0 then 1 else 0)"

text \<open>\<open>while(ps2_read_status() & mask);\<close>, which ends when the controller says so.\<close>

partial_function (option) poll_status :: "device \<Rightarrow> u8 \<Rightarrow> history \<Rightarrow> history option" where
  "poll_status dev m h =
     (let (st, h) = ps2_read_status dev h in if st AND m \<noteq> 0 then poll_status dev m h else Some h)"

definition ps2_read_data :: "device \<Rightarrow> history \<Rightarrow> (u8 \<times> history) option" where
  "ps2_read_data dev h = map_option (inb dev PS2_DATA_PORT) (poll_status dev (lnot PS2_STATUS_OUTBUFRDY) h)"

definition send_cmd :: "device \<Rightarrow> u8 \<Rightarrow> history \<Rightarrow> history option" where
  "send_cmd dev cmd h = map_option (outb PS2_CMD_PORT cmd) (poll_status dev PS2_STATUS_INBUFFULL h)"

definition write_data :: "device \<Rightarrow> u8 \<Rightarrow> history \<Rightarrow> history option" where
  "write_data dev data h = map_option (outb PS2_DATA_PORT data) (poll_status dev PS2_STATUS_INBUFFULL h)"

definition ps2_write_port1 :: "device \<Rightarrow> u8 \<Rightarrow> history \<Rightarrow> history option" where
  "ps2_write_port1 dev data h = write_data dev data h"

definition ps2_write_port2 :: "device \<Rightarrow> u8 \<Rightarrow> history \<Rightarrow> history option" where
  "ps2_write_port2 dev data h = Option.bind (send_cmd dev PS2_WRITE2IN h) (write_data dev data)"

text \<open>\<open>ps2_read_data() && PS2_TESTPASS\<close>.\<close>

definition ps2_test_controller :: "device \<Rightarrow> history \<Rightarrow> (bool \<times> history) option" where
  "ps2_test_controller dev h =
     Option.bind (send_cmd dev PS2_SELFTEST h) (\<lambda>h.
       map_option (\<lambda>(d, h). (d \<noteq> 0 \<and> PS2_TESTPASS \<noteq> 0, h)) (ps2_read_data dev h))"

definition ps2_test_port1 :: "device \<Rightarrow> history \<Rightarrow> (bool \<times> history) option" where
  "ps2_test_port1 dev h =
     Option.bind (send_cmd dev PS2_TESTPORT1 h) (\<lambda>h. map_option (\<lambda>(d, h). (d = 0, h)) (ps2_read_data dev h))"

definition ps2_test_port2 :: "device \<Rightarrow> history \<Rightarrow> (bool \<times> history) option" where
  "ps2_test_port2 dev h =
     Option.bind (send_cmd dev PS2_TESTPORT2 h) (\<lambda>h. map_option (\<lambda>(d, h). (d = 0, h)) (ps2_read_data dev h))"

text \<open>The result tells whether the self test was passed; otherwise \<open>kerror\<close> prints and nothing more is sent.\<close>

definition ps2_init :: "device \<Rightarrow> history \<Rightarrow> (bool \<times> history) option" where
  "ps2_init dev h =
     Option.bind (send_cmd dev PS2_DSBLPORT1 h) (\<lambda>h.
     Option.bind (send_cmd dev PS2_DSBLPORT2 h) (\<lambda>h.
       let (_, h) = inb dev PS2_DATA_PORT h in
     Option.bind (ps2_test_controller dev h) (\<lambda>(ok, h).
       if \<not> ok then Some (False, h)
       else
     Option.bind (ps2_test_port1 dev h) (\<lambda>(ok1, h).
     Option.bind (if ok1 then Option.bind (send_cmd dev PS2_ENBLPORT1 h) (ps2_write_port1 dev PS2_DEVRESET) else Some h) (\<lambda>h.
     Option.bind (ps2_test_port2 dev h) (\<lambda>(ok2, h).
     Option.bind (if ok2 then Option.bind (send_cmd dev PS2_ENBLPORT2 h) (ps2_write_port2 dev PS2_DEVRESET) else Some h) (\<lambda>h.
       Some (True, h))))))))"

section \<open>The keyboard\<close>

record kbd =
  ctrl :: u8
  alt :: u8
  shift :: u8
  numlock :: u8
  capslock :: u8
  scrolllock :: u8
  buf :: u8

definition update_leds :: "device \<Rightarrow> kbd \<Rightarrow> history \<Rightarrow> history option" where
  "update_leds dev k h =
     (let data = 0;
          data = if scrolllock k \<noteq> 0 then data OR 1 else data;
          data = if numlock k \<noteq> 0 then data OR 2 else data;
          data = if capslock k \<noteq> 0 then data OR 4 else data
      in Option.bind (ps2_write_port1 dev PS2_KBD_SETLEDS h) (ps2_write_port1 dev data))"

definition break_key :: "u16 \<Rightarrow> kbd \<Rightarrow> kbd" where
  "break_key key k =
     (if key = KEY_LCTRL \<or> key = KEY_RCTRL then k\<lparr>ctrl := 0\<rparr>
      else if key = KEY_LSHIFT \<or> key = KEY_RSHIFT then k\<lparr>shift := 0\<rparr>
      else if key = KEY_LALT \<or> key = KEY_RALT then k\<lparr>alt := 0\<rparr>
      else k)"

definition flip :: "u8 \<Rightarrow> u8" where
  "flip x = (if x \<noteq> 0 then 0 else 1)"

text \<open>The second result tells whether the lights are updated.\<close>

definition make_key :: "u16 \<Rightarrow> kbd \<Rightarrow> kbd \<times> bool" where
  "make_key key k =
     (if key = KEY_LCTRL \<or> key = KEY_RCTRL then (k\<lparr>ctrl := 1\<rparr>, False)
      else if key = KEY_LSHIFT \<or> key = KEY_RSHIFT then (k\<lparr>shift := 1\<rparr>, False)
      else if key = KEY_LALT \<or> key = KEY_RALT then (k\<lparr>alt := 1\<rparr>, False)
      else if key = KEY_CAPSLOCK then (k\<lparr>capslock := flip (capslock k)\<rparr>, True)
      else if key = KEY_NUMLOCK then (k\<lparr>numlock := flip (numlock k)\<rparr>, True)
      else if key = KEY_SCROLLLOCK then (k\<lparr>scrolllock := flip (scrolllock k)\<rparr>, True)
      else (k, False))"

text \<open>What \<open>kbd_isr\<close> does with the scan code it read.\<close>

definition kbd_scan :: "u8 \<Rightarrow> kbd \<Rightarrow> (kbd \<times> bool) result" where
  "kbd_scan scan_code k =
     (if scan_code = 0xE0 \<or> scan_code = 0xE1 then Inr (k, False)
      else if scan_code AND 0x80 \<noteq> 0
      then rbind (xt_lookup (scan_code - 0x80)) (\<lambda>key. Inr (break_key key k, False))
      else let k = k\<lparr>buf := scan_code\<rparr> in rbind (xt_lookup scan_code) (\<lambda>key. Inr (make_key key k)))"

definition kbd_isr :: "device \<Rightarrow> kbd \<Rightarrow> history \<Rightarrow> (kbd \<times> history) result option" where
  "kbd_isr dev k h =
     (let (st, h) = ps2_read_status dev h in
      if st AND PS2_STATUS_OUTBUFRDY = 0 then Some (Inr (k, h))
      else Option.bind (ps2_read_data dev h) (\<lambda>(scan_code, h).
        case kbd_scan scan_code k of
          Inl e \<Rightarrow> Some (Inl e)
        | Inr (k, leds) \<Rightarrow> if leds then map_option (\<lambda>h. Inr (k, h)) (update_leds dev k h) else Some (Inr (k, h))))"

text \<open>\<open>kbd_id\<close> is the address of the variable \<open>ctrl\<close>, \<open>isr\<close> that of the routine \<open>kbd_isr\<close>.\<close>

definition kbd_init :: "isr_env \<Rightarrow> u32 \<Rightarrow> addr \<Rightarrow> kbd \<Rightarrow> 'a interrupts_scheme \<Rightarrow> 'a interrupts_scheme result option" where
  "kbd_init env kbd_id isr k s =
     Option.bind (update_leds (i_dev env) k (ports s)) (\<lambda>h.
       map_option (\<lambda>r. rbind r (\<lambda>(ret, s).
          if ret \<noteq> 0 then Inl (Panic ''could not register PS/2 keyboard interrupt handler'') else Inr s))
         (request_irq env 1 kbd_id isr (s\<lparr>ports := h\<rparr>)))"

definition kbd_is_ascii_printable :: "u8 \<Rightarrow> bool" where
  "kbd_is_ascii_printable key \<longleftrightarrow> 0x20 \<le> key \<and> key \<le> 0x7E \<or> key = 0x0A \<or> key = 0x09 \<or> key = 0x08"

definition kbd_key_to_ascii :: "u8 \<Rightarrow> kbd \<Rightarrow> u8" where
  "kbd_key_to_ascii key k =
     (if \<not> kbd_is_ascii_printable key then 0
      else if (shift k \<noteq> 0 \<or> capslock k \<noteq> 0) \<and> 0x61 \<le> key \<and> key \<le> 0x7A then key - 32
      else if shift k \<noteq> 0 \<and> capslock k = 0 then
        (if key = 0x31 then ucast KEY_EXCLAMATION
         else if key = 0x32 then ucast KEY_AT
         else if key = 0x33 then ucast KEY_HASH
         else if key = 0x34 then ucast KEY_DOLLAR
         else if key = 0x35 then ucast KEY_PERCENT
         else if key = 0x36 then ucast KEY_CARRET
         else if key = 0x37 then ucast KEY_AMPERSAND
         else if key = 0x38 then ucast KEY_ASTERISK
         else if key = 0x39 then ucast KEY_LEFTPARENTHESIS
         else if key = 0x30 then ucast KEY_RIGHTPARENTHESIS
         else if key = 0x60 then ucast KEY_TILDE
         else if key = 0x2D then ucast KEY_UNDERSCORE
         else if key = 0x3D then ucast KEY_PLUS
         else if key = 0x5B then ucast KEY_LEFTCURL
         else if key = 0x5D then ucast KEY_RIGHTCURL
         else if key = 0x5C then ucast KEY_BAR
         else if key = 0x3B then ucast KEY_COLON
         else if key = 0x27 then ucast KEY_DOUBLEQUOTE
         else if key = 0x2C then ucast KEY_LESS
         else if key = 0x2E then ucast KEY_GREATER
         else if key = 0x2F then ucast KEY_QUESTION
         else key)
      else key)"

definition kbd_get_scan :: "kbd \<Rightarrow> u8" where "kbd_get_scan k = buf k"
definition kbd_clr_scan :: "kbd \<Rightarrow> kbd" where "kbd_clr_scan k = k\<lparr>buf := 0\<rparr>"

text \<open>The key code is cut to eight bits.\<close>

definition kbd_get_key :: "kbd \<Rightarrow> u8 result" where
  "kbd_get_key k = rbind (xt_lookup (buf k)) (\<lambda>key. Inr (ucast key))"

definition kbd_clr_key :: "kbd \<Rightarrow> kbd" where "kbd_clr_key k = k\<lparr>buf := 0\<rparr>"
definition kbd_get_alt :: "kbd \<Rightarrow> u8" where "kbd_get_alt k = alt k"
definition kbd_get_ctrl :: "kbd \<Rightarrow> u8" where "kbd_get_ctrl k = ctrl k"
definition kbd_get_shift :: "kbd \<Rightarrow> u8" where "kbd_get_shift k = shift k"
definition kbd_get_numlock :: "kbd \<Rightarrow> u8" where "kbd_get_numlock k = numlock k"
definition kbd_get_capslock :: "kbd \<Rightarrow> u8" where "kbd_get_capslock k = capslock k"
definition kbd_get_scrolllock :: "kbd \<Rightarrow> u8" where "kbd_get_scrolllock k = scrolllock k"

section \<open>Where the special keys are\<close>

lemma xt_length: "length xt_scan = 83"
  by (simp add: xt_scan_def)

lemma xt_tables:
  "map (\<lambda>k. k = KEY_LSHIFT \<or> k = KEY_RSHIFT) xt_scan = map (\<lambda>i. i = 42 \<or> i = 54) [0..<83]"
  "map (\<lambda>k. k = KEY_LCTRL \<or> k = KEY_RCTRL) xt_scan = map (\<lambda>i. i = 29) [0..<83]"
  "map (\<lambda>k. k = KEY_LALT \<or> k = KEY_RALT) xt_scan = map (\<lambda>i. i = 56) [0..<83]"
  "map (\<lambda>k. k = KEY_CAPSLOCK) xt_scan = map (\<lambda>i. i = 58) [0..<83]"
  by code_simp+

lemma xt_special:
  assumes "i < 83"
  shows "xt_scan ! i = KEY_LSHIFT \<or> xt_scan ! i = KEY_RSHIFT \<longleftrightarrow> i = 42 \<or> i = 54"
    "xt_scan ! i = KEY_LCTRL \<or> xt_scan ! i = KEY_RCTRL \<longleftrightarrow> i = 29"
    "xt_scan ! i = KEY_LALT \<or> xt_scan ! i = KEY_RALT \<longleftrightarrow> i = 56"
    "xt_scan ! i = KEY_CAPSLOCK \<longleftrightarrow> i = 58"
  using assms xt_tables [THEN arg_cong [where f = "\<lambda>xs. xs ! i"]] by (simp_all add: xt_length)

text \<open>
  The index of a scan code in the table: the code itself, or without its top bit for a release.
\<close>

definition code_index :: "u8 \<Rightarrow> nat" where
  "code_index c = unat c mod 128"

definition code_ok :: "u8 \<Rightarrow> bool" where
  "code_ok c \<longleftrightarrow> c = 0xE0 \<or> c = 0xE1 \<or> code_index c < 83"

definition is_break :: "u8 \<Rightarrow> bool" where
  "is_break c \<longleftrightarrow> 128 \<le> unat c"

lemma break_bit: "c AND 0x80 \<noteq> 0 \<longleftrightarrow> is_break c" for c :: u8
proof -
  have "bit c 7 \<longleftrightarrow> bit (unat c) 7" by (simp add: bit_unsigned_iff)
  then have "bit c 7 \<longleftrightarrow> odd (unat c div 128)" by (simp add: bit_iff_odd [where 'a = nat])
  moreover have "unat c < 256" by (rule unat_less_256)
  moreover have "(0x80 :: u8) = 2 ^ 7" by simp
  ultimately have "c AND 0x80 \<noteq> 0 \<longleftrightarrow> odd (unat c div 128)" using and_exp_eq_0_iff_not_bit by metis
  moreover have "odd (unat c div 128) \<longleftrightarrow> 128 \<le> unat c"
  proof (cases "128 \<le> unat c")
    case True
    then have "unat c div 128 = 1" using \<open>unat c < 256\<close> by linarith
    with True show ?thesis by simp
  qed simp
  ultimately show ?thesis by (simp add: is_break_def)
qed


lemma kbd_scan_cases:
  "c = 0xE0 \<or> c = 0xE1 \<Longrightarrow> kbd_scan c k = Inr (k, False)"
  "c \<noteq> 0xE0 \<Longrightarrow> c \<noteq> 0xE1 \<Longrightarrow> is_break c \<Longrightarrow> code_index c < 83 \<Longrightarrow>
     kbd_scan c k = Inr (break_key (xt_scan ! code_index c) k, False)"
  "\<not> is_break c \<Longrightarrow> code_index c < 83 \<Longrightarrow> kbd_scan c k = Inr (make_key (xt_scan ! code_index c) (k\<lparr>buf := c\<rparr>))"
  "\<not> code_ok c \<Longrightarrow> kbd_scan c k = Inl (Fault ''xt_scan'')"
proof -
  have ub: "unat (c - 0x80) = code_index c" if "is_break c"
    using that unat_less_256 [of c] by (simp add: is_break_def code_index_def unat_sub word_le_nat_alt mod_if)
  have nb: "unat c = code_index c" "c \<noteq> 0xE0" "c \<noteq> 0xE1" if "\<not> is_break c"
    using that by (auto simp: is_break_def code_index_def)
  show "kbd_scan c k = Inr (k, False)" if "c = 0xE0 \<or> c = 0xE1" using that by (simp add: kbd_scan_def)
  show "kbd_scan c k = Inr (break_key (xt_scan ! code_index c) k, False)"
    if "c \<noteq> 0xE0" "c \<noteq> 0xE1" "is_break c" "code_index c < 83"
    using that ub break_bit [of c] by (simp add: kbd_scan_def xt_lookup_def xt_length)
  show "kbd_scan c k = Inr (make_key (xt_scan ! code_index c) (k\<lparr>buf := c\<rparr>))" if "\<not> is_break c" "code_index c < 83"
    using that nb break_bit [of c] by (simp add: kbd_scan_def xt_lookup_def xt_length)
  show "kbd_scan c k = Inl (Fault ''xt_scan'')" if "\<not> code_ok c"
    using that ub nb break_bit [of c] by (cases "is_break c") (auto simp: kbd_scan_def xt_lookup_def xt_length code_ok_def)
qed

section \<open>Type invariant\<close>

definition kbd_wf :: "kbd \<Rightarrow> bool" where
  "kbd_wf k \<longleftrightarrow> {ctrl k, alt k, shift k, numlock k, capslock k, scrolllock k} \<subseteq> {0, 1} \<and> unat (buf k) < 83"

lemma kbd_wf_keys:
  "kbd_wf k \<Longrightarrow> kbd_wf (break_key key k)" "kbd_wf k \<Longrightarrow> kbd_wf (fst (make_key key k))"
  by (auto simp: kbd_wf_def break_key_def make_key_def flip_def)

text \<open>
  C39. The interrupt routine keeps the keyboard state well formed: every flag is 0 or 1 and the
  buffered scan code is an index of the table. It accepts exactly the prefixes 0xE0 and 0xE1 and
  the codes whose low seven bits are below 83; on every other code, such as the 0x57 of the F11
  key, it reads past the end of the table.
\<close>

theorem kbd_scan_type:
  assumes "kbd_wf k"
  shows "case kbd_scan c k of
      Inr (k', leds) \<Rightarrow> code_ok c \<and> kbd_wf k'
    | Inl e \<Rightarrow> \<not> code_ok c \<and> e = Fault ''xt_scan''"
proof (cases "code_ok c")
  case False
  then show ?thesis by (simp add: kbd_scan_cases(4))
next
  case True
  consider "c = 0xE0 \<or> c = 0xE1" | "c \<noteq> 0xE0" "c \<noteq> 0xE1" "is_break c" "code_index c < 83" | "\<not> is_break c" "code_index c < 83"
    using True by (auto simp: code_ok_def)
  then show ?thesis
  proof cases
    case 3
    then have "kbd_wf (k\<lparr>buf := c\<rparr>)" using assms by (simp add: kbd_wf_def code_index_def is_break_def)
    then show ?thesis using 3 True kbd_wf_keys(2) by (simp add: kbd_scan_cases(3) split: prod.split) (metis fst_conv)
  qed (use assms True in \<open>simp_all add: kbd_scan_cases kbd_wf_keys\<close>)
qed

definition kbd0 :: kbd where
  "kbd0 = \<lparr>ctrl = 0, alt = 0, shift = 0, numlock = 0, capslock = 0, scrolllock = 0, buf = 0\<rparr>"

theorem kbd_scan_type_witness: "kbd_scan 0x57 kbd0 = Inl (Fault ''xt_scan'')"
proof -
  have "\<not> code_ok 0x57" by (simp add: code_ok_def code_index_def)
  then show ?thesis using kbd_scan_type [of kbd0 "0x57"] by (auto simp: kbd_wf_def kbd0_def split: sum.splits)
qed

section \<open>Modifier keys\<close>

text \<open>A sequence of scan codes, and what a typist makes of it.\<close>

primrec kbd_run :: "u8 list \<Rightarrow> kbd \<Rightarrow> kbd result" where
  "kbd_run [] k = Inr k"
| "kbd_run (c # cs) k = rbind (kbd_scan c k) (\<lambda>(k, _). kbd_run cs k)"

definition held :: "nat set \<Rightarrow> u8 list \<Rightarrow> bool \<Rightarrow> bool" where
  "held keys cs b = fold (\<lambda>c b. if c \<noteq> 0xE0 \<and> c \<noteq> 0xE1 \<and> code_index c \<in> keys then \<not> is_break c else b) cs b"

definition presses :: "nat \<Rightarrow> u8 list \<Rightarrow> nat" where
  "presses key cs = length (filter (\<lambda>c. \<not> is_break c \<and> code_index c = key) cs)"

lemma break_flags:
  "i < 83 \<Longrightarrow> shift (break_key (xt_scan ! i) k) = (if i \<in> {42, 54} then 0 else shift k)"
  "i < 83 \<Longrightarrow> ctrl (break_key (xt_scan ! i) k) = (if i = 29 then 0 else ctrl k)"
  "i < 83 \<Longrightarrow> alt (break_key (xt_scan ! i) k) = (if i = 56 then 0 else alt k)"
  "capslock (break_key key k) = capslock k"
  unfolding break_key_def by (auto simp: xt_special)

lemma make_flags:
  "i < 83 \<Longrightarrow> shift (fst (make_key (xt_scan ! i) k)) = (if i \<in> {42, 54} then 1 else shift k)"
  "i < 83 \<Longrightarrow> ctrl (fst (make_key (xt_scan ! i) k)) = (if i = 29 then 1 else ctrl k)"
  "i < 83 \<Longrightarrow> alt (fst (make_key (xt_scan ! i) k)) = (if i = 56 then 1 else alt k)"
  "i < 83 \<Longrightarrow> capslock (fst (make_key (xt_scan ! i) k)) = (if i = 58 then flip (capslock k) else capslock k)"
  unfolding make_key_def by (auto simp: xt_special)

lemma kbd_scan_flags:
  assumes "code_ok c"
  shows "\<exists>k' l. kbd_scan c k = Inr (k', l) \<and> (shift k' \<noteq> 0 \<longleftrightarrow> held {42, 54} [c] (shift k \<noteq> 0)) \<and>
    (ctrl k' \<noteq> 0 \<longleftrightarrow> held {29} [c] (ctrl k \<noteq> 0)) \<and> (alt k' \<noteq> 0 \<longleftrightarrow> held {56} [c] (alt k \<noteq> 0)) \<and>
    (capslock k' \<noteq> 0 \<longleftrightarrow> (odd (presses 58 [c]) \<noteq> (capslock k \<noteq> 0)))"
proof -
  consider "c = 0xE0 \<or> c = 0xE1" | "c \<noteq> 0xE0" "c \<noteq> 0xE1" "is_break c" "code_index c < 83" | "\<not> is_break c" "code_index c < 83"
    using assms by (auto simp: code_ok_def)
  then show ?thesis
  proof cases
    case 1
    then have "is_break c" by (auto simp: is_break_def)
    with 1 show ?thesis by (auto simp: kbd_scan_cases(1) held_def presses_def)
  next
    case 2
    then show ?thesis by (auto simp: kbd_scan_cases(2) held_def presses_def break_flags)
  next
    case 3
    then have "c \<noteq> 0xE0 \<and> c \<noteq> 0xE1" by (auto simp: is_break_def)
    moreover obtain k' l where "make_key (xt_scan ! code_index c) (k\<lparr>buf := c\<rparr>) = (k', l)" by (cases "make_key (xt_scan ! code_index c) (k\<lparr>buf := c\<rparr>)")
    ultimately show ?thesis
      using 3 make_flags [OF 3(2), of "k\<lparr>buf := c\<rparr>"] by (simp add: kbd_scan_cases(3) held_def presses_def flip_def)
  qed
qed

lemma held_Cons: "held keys (c # cs) b = held keys cs (held keys [c] b)"
  by (simp add: held_def)

lemma presses_Cons: "presses key (c # cs) = presses key [c] + presses key cs"
  by (simp add: presses_def)



text \<open>
  The F10 key types a newline, F9 a tab and F8 a backspace: \<open>kbd_get_key\<close> cuts their codes to
  the low byte, which \<open>kbd_key_to_ascii\<close> takes for a printable character.
\<close>

theorem function_keys_type:
  "map (\<lambda>c. rbind (kbd_get_key (kbd0\<lparr>buf := c\<rparr>)) (\<lambda>key. Inr (kbd_key_to_ascii key kbd0))) [0x42, 0x43, 0x44]
     = [Inr 0x08, Inr 0x09, Inr 0x0A]"
  by (simp add: kbd_get_key_def xt_lookup_def xt_scan_def key_defs kbd_key_to_ascii_def kbd_is_ascii_printable_def kbd0_def)

text \<open>\<open>ps2_read_data\<close> reads the data port after a single look at the status, whatever it says.\<close>

lemma ps2_read_data_no_wait:
  "ps2_read_data dev h = Some (inb dev PS2_DATA_PORT (snd (ps2_read_status dev h)))"
  by (simp add: ps2_read_data_def poll_status.simps [of dev _ h] lnot_def ps2_defs split: prod.split)

end
