(* ===== verification/Tty.thy ===== *)
theory Tty
  imports Keyboard Clib
begin

text \<open>
  The text console, \<open>i386/tty.c\<close>, \<open>kernel/tty.h\<close> and the character functions of
  \<open>kernel/stdio\<close>: the 80 by 25 cells of the screen, the cursor and the colour. The console is
  shown to be a window on an endless roll of paper.
\<close>

section \<open>Data\<close>

definition VGA_BLACK :: u8 where "VGA_BLACK = 0"
definition VGA_GREEN :: u8 where "VGA_GREEN = 2"
definition VGA_RED :: u8 where "VGA_RED = 4"
definition VGA_INDEX_REG :: u16 where "VGA_INDEX_REG = 0x03D4"
definition VGA_WIDTH :: nat where "VGA_WIDTH = 80"
definition VGA_HEIGHT :: nat where "VGA_HEIGHT = 25"

lemmas vga_defs = VGA_WIDTH_def VGA_HEIGHT_def

text \<open>The screen memory is a list of 2000 cells; an index past its end is a fault.\<close>

record tty =
  tty_buf :: "u16 list"
  tty_color :: u8
  tty_row :: u16
  tty_col :: u16
  tty_ports :: history

section \<open>The C functions\<close>

definition tty_updatecursor :: "tty \<Rightarrow> tty" where
  "tty_updatecursor t =
     (let tmp = tty_row t * of_nat VGA_WIDTH + tty_col t;
          h = tty_ports t;
          h = outb VGA_INDEX_REG 14 h;
          h = outb (VGA_INDEX_REG + 1) (ucast (drop_bit 8 tmp AND 0xFF)) h;
          h = outb VGA_INDEX_REG 15 h;
          h = outb (VGA_INDEX_REG + 1) (ucast (tmp AND 0xFF)) h
      in t\<lparr>tty_ports := h\<rparr>)"

text \<open>\<open>tty_buf[to] = tty_buf[from]\<close> and \<open>tty_buf[i] = v\<close>.\<close>

definition cell_read :: "nat \<Rightarrow> tty \<Rightarrow> u16 result" where
  "cell_read i t = (if i < length (tty_buf t) then Inr (tty_buf t ! i) else Inl (Fault ''tty_buf''))"

definition cell_write :: "nat \<Rightarrow> u16 \<Rightarrow> tty \<Rightarrow> tty result" where
  "cell_write i v t = (if i < length (tty_buf t) then Inr (t\<lparr>tty_buf := (tty_buf t)[i := v]\<rparr>) else Inl (Fault ''tty_buf''))"

primrec each :: "('x \<Rightarrow> 's \<Rightarrow> 's result) \<Rightarrow> 'x list \<Rightarrow> 's \<Rightarrow> 's result" where
  "each f [] s = Inr s"
| "each f (x # xs) s = rbind (f x s) (each f xs)"

definition tty_scroll :: "tty \<Rightarrow> tty result" where
  "tty_scroll t =
     rbind (each (\<lambda>r. each (\<lambda>c t. rbind (cell_read (r * VGA_WIDTH + c) t) (\<lambda>v. cell_write ((r - 1) * VGA_WIDTH + c) v t))
                        [0..<VGA_WIDTH]) [1..<VGA_HEIGHT] t) (\<lambda>t.
       let tmp = (VGA_HEIGHT - 1) * VGA_WIDTH in
       each (\<lambda>c. cell_write (tmp + c) 0x20) [0..<VGA_WIDTH] t)"

text \<open>\<open>tty_color<<8 | c\<close>, with \<open>c\<close> a signed character.\<close>

definition cell :: "u8 \<Rightarrow> u8 \<Rightarrow> u16" where
  "cell color c = push_bit 8 (ucast color) OR scast c"

definition tty_putchar_t :: "u8 \<Rightarrow> tty \<Rightarrow> tty result" where
  "tty_putchar_t c t =
     (let t = if c = 0x09 then t\<lparr>tty_col := tty_col t + (4 - tty_col t mod 4)\<rparr> else t in
      if c = 0x08 then Inr t
      else rbind (if c \<noteq> 0x0A \<and> c \<noteq> 0x09
                  then rbind (cell_write (unat (tty_row t) * VGA_WIDTH + unat (tty_col t)) (cell (tty_color t) c) t)
                         (\<lambda>t. Inr (t\<lparr>tty_col := tty_col t + 1\<rparr>))
                  else Inr t) (\<lambda>t.
        let t = if unat (tty_col t) \<ge> VGA_WIDTH \<or> c = 0x0A then t\<lparr>tty_col := 0, tty_row := tty_row t + 1\<rparr> else t in
        if unat (tty_row t) \<ge> VGA_HEIGHT
        then rbind (tty_scroll t) (\<lambda>t. Inr (t\<lparr>tty_row := of_nat (VGA_HEIGHT - 1)\<rparr>))
        else Inr t))"

definition tty_setcolor :: "u8 \<Rightarrow> u8 \<Rightarrow> tty \<Rightarrow> tty" where
  "tty_setcolor bg fg t = t\<lparr>tty_color := fg OR push_bit 4 bg\<rparr>"

definition tty_putchar :: "u8 \<Rightarrow> tty \<Rightarrow> tty result" where
  "tty_putchar c t = rbind (tty_putchar_t c t) (\<lambda>t. Inr (tty_updatecursor t))"

partial_function (option) puts_loop :: "mem \<Rightarrow> addr \<Rightarrow> u32 \<Rightarrow> tty \<Rightarrow> tty result option" where
  "puts_loop m str i t =
     (if m (str + i) \<noteq> 0
      then case tty_putchar_t (m (str + i)) t of Inl e \<Rightarrow> Some (Inl e) | Inr t \<Rightarrow> puts_loop m str (i + 1) t
      else Some (Inr t))"

definition tty_puts :: "mem \<Rightarrow> addr \<Rightarrow> tty \<Rightarrow> tty result option" where
  "tty_puts m str t = map_option (\<lambda>r. rbind r (\<lambda>t. Inr (tty_updatecursor t))) (puts_loop m str 0 t)"

definition tty_clear :: "tty \<Rightarrow> tty result" where
  "tty_clear t =
     (let t = t\<lparr>tty_row := 0, tty_col := 0\<rparr> in
      rbind (each (\<lambda>i t. cell_write i (cell (tty_color t) 0x20) t) [0..<VGA_HEIGHT * VGA_WIDTH] t) (\<lambda>t.
        Inr (tty_updatecursor t)))"

text \<open>\<open>tty_init\<close> also points \<open>tty_buf\<close> at the screen memory, here \<open>vga\<close>.\<close>

definition tty_init :: "u16 list \<Rightarrow> tty \<Rightarrow> tty result" where
  "tty_init vga t =
     (let t = t\<lparr>tty_buf := vga\<rparr>; t = tty_setcolor VGA_BLACK VGA_GREEN t in tty_clear t)"

text \<open>
  \<open>tty_getchar\<close> polls the keyboard, whose state changes by interrupts: \<open>polls n\<close> is the state it
  finds at its \<open>n\<close>-th look. The result is the character and the state after \<open>kbd_clr_key\<close>.
\<close>

partial_function (option) tty_getchar :: "(nat \<Rightarrow> kbd) \<Rightarrow> nat \<Rightarrow> (u8 \<times> kbd) result option" where
  "tty_getchar polls n =
     (case kbd_get_key (polls n) of
        Inl e \<Rightarrow> Some (Inl e)
      | Inr key \<Rightarrow> let c = kbd_key_to_ascii key (polls n) in
          if c = 0 then tty_getchar polls (n + 1) else Some (Inr (c, kbd_clr_key (polls n))))"

definition putchar :: "u32 \<Rightarrow> tty \<Rightarrow> (u32 \<times> tty) result" where
  "putchar character t = rbind (tty_putchar (ucast character) t) (\<lambda>t. Inr (character, t))"

definition puts :: "mem \<Rightarrow> addr \<Rightarrow> tty \<Rightarrow> (u32 \<times> tty) result option" where
  "puts m str t = map_option (\<lambda>r. rbind r (\<lambda>t. Inr (0, t))) (tty_puts m str t)"

text \<open>The character is a signed \<open>char\<close> that the \<open>int\<close> result extends.\<close>

definition getchar :: "(nat \<Rightarrow> kbd) \<Rightarrow> (u32 \<times> kbd) result option" where
  "getchar polls = map_option (\<lambda>r. rbind r (\<lambda>(c, k). Inr (scast c, k))) (tty_getchar polls 0)"

section \<open>Loops over the screen\<close>

lemma each_upt:
  "a \<le> b \<Longrightarrow> (\<And>k. a \<le> k \<Longrightarrow> k < b \<Longrightarrow> f k (S k) = Inr (S (Suc k))) \<Longrightarrow> each f [a..<b] (S a) = Inr (S b)"
proof (induction "b - a" arbitrary: a)
  case (Suc n)
  then have "[a..<b] = a # [Suc a..<b]" by (simp add: upt_rec)
  then show ?case using Suc.hyps(1) [of "Suc a"] Suc.hyps(2) Suc.prems by simp
qed simp

definition mapped :: "(nat \<Rightarrow> u16) \<Rightarrow> nat \<Rightarrow> u16 list" where
  "mapped f n = map f [0..<n]"

lemma mapped_update: "k < n \<Longrightarrow> (mapped f n)[k := v] = mapped (f(k := v)) n"
  by (rule nth_equalityI) (auto simp: mapped_def nth_list_update)

lemma mapped_nth: "mapped (\<lambda>i. b ! i) (length b) = b"
  by (simp add: mapped_def map_nth)

lemma mapped_simps [simp]: "length (mapped f n) = n" "i < n \<Longrightarrow> mapped f n ! i = f i"
  by (simp_all add: mapped_def)

lemma mapped_cong: "(\<And>i. i < n \<Longrightarrow> f i = g i) \<Longrightarrow> mapped f n = mapped g n"
  by (simp add: mapped_def)

text \<open>The copy loop after the first \<open>k\<close> cells, and the clearing loop after the first \<open>c\<close>.\<close>

definition shifted :: "nat \<Rightarrow> tty \<Rightarrow> tty" where
  "shifted k t = t\<lparr>tty_buf := mapped (\<lambda>i. if i < k then tty_buf t ! (i + 80) else tty_buf t ! i) 2000\<rparr>"

definition blanked :: "nat \<Rightarrow> nat \<Rightarrow> u16 \<Rightarrow> tty \<Rightarrow> tty" where
  "blanked a c v t = t\<lparr>tty_buf := mapped (\<lambda>i. if a \<le> i \<and> i < a + c then v else tty_buf t ! i) 2000\<rparr>"

lemma shift_step:
  assumes "k < 1920"
  shows "rbind (cell_read (k + 80) (shifted k t)) (\<lambda>v. cell_write k v (shifted k t)) = Inr (shifted (Suc k) t)"
proof -
  have "mapped ((\<lambda>i. if i < k then tty_buf t ! (i + 80) else tty_buf t ! i)(k := tty_buf t ! (k + 80))) 2000
      = mapped (\<lambda>i. if i < Suc k then tty_buf t ! (i + 80) else tty_buf t ! i) 2000"
    by (rule mapped_cong) (auto simp: less_Suc_eq)
  then show ?thesis using assms by (simp add: cell_read_def cell_write_def shifted_def mapped_update)
qed

lemma blank_step:
  assumes "a + c < 2000"
  shows "cell_write (a + c) v (blanked a c v t) = Inr (blanked a (Suc c) v t)"
proof -
  have "mapped ((\<lambda>i. if a \<le> i \<and> i < a + c then v else tty_buf t ! i)(a + c := v)) 2000
      = mapped (\<lambda>i. if a \<le> i \<and> i < a + Suc c then v else tty_buf t ! i) 2000"
    by (rule mapped_cong) auto
  then show ?thesis using assms by (simp add: cell_write_def blanked_def mapped_update)
qed

lemma shift_rows:
  assumes "length (tty_buf t) = 2000"
  shows "each (\<lambda>r. each (\<lambda>c t. rbind (cell_read (r * 80 + c) t) (\<lambda>v. cell_write ((r - 1) * 80 + c) v t)) [0..<80]) [1..<25] t
    = Inr (shifted 1920 t)"
proof -
  have "shifted 0 t = t" using mapped_nth [of "tty_buf t"] assms by (simp add: shifted_def)
  moreover have "each (\<lambda>r. each (\<lambda>c t. rbind (cell_read (r * 80 + c) t) (\<lambda>v. cell_write ((r - 1) * 80 + c) v t)) [0..<80]) [1..<25]
      (shifted ((1 - 1) * 80) t) = Inr (shifted ((25 - 1) * 80) t)"
  proof (rule each_upt [where S = "\<lambda>r. shifted ((r - 1) * 80) t"], simp)
    fix r :: nat assume r: "1 \<le> r" "r < 25"
    have "each (\<lambda>c t. rbind (cell_read (r * 80 + c) t) (\<lambda>v. cell_write ((r - 1) * 80 + c) v t)) [0..<80] (shifted ((r - 1) * 80 + 0) t)
        = Inr (shifted ((r - 1) * 80 + 80) t)"
    proof (rule each_upt [where S = "\<lambda>c. shifted ((r - 1) * 80 + c) t"], simp)
      fix c :: nat assume c: "c < 80"
      have "(r - 1) * 80 + c < 1920" "(r - 1) * 80 + c + 80 = r * 80 + c" using r c by (cases r; simp)+
      then show "rbind (cell_read (r * 80 + c) (shifted ((r - 1) * 80 + c) t)) (\<lambda>v. cell_write ((r - 1) * 80 + c) v (shifted ((r - 1) * 80 + c) t))
          = Inr (shifted ((r - 1) * 80 + Suc c) t)"
        using shift_step [of "(r - 1) * 80 + c" t] by (simp only: add_Suc_right)
    qed
    moreover have "(r - 1) * 80 + 80 = (Suc r - 1) * 80" using r by (cases r) auto
    ultimately show "each (\<lambda>c t. rbind (cell_read (r * 80 + c) t) (\<lambda>v. cell_write ((r - 1) * 80 + c) v t)) [0..<80] (shifted ((r - 1) * 80) t)
        = Inr (shifted ((Suc r - 1) * 80) t)" by simp
  qed
  ultimately show ?thesis by simp
qed

lemma blank_cells:
  assumes "a + n \<le> 2000" "length (tty_buf t) = 2000"
  shows "each (\<lambda>c. cell_write (a + c) v) [0..<n] t = Inr (blanked a n v t)"
proof -
  have "mapped (\<lambda>i. if a \<le> i \<and> i < a + 0 then v else tty_buf t ! i) 2000 = tty_buf t"
  proof -
    have "mapped (\<lambda>i. if a \<le> i \<and> i < a + 0 then v else tty_buf t ! i) 2000 = mapped (\<lambda>i. tty_buf t ! i) 2000"
      by (rule mapped_cong) auto
    then show ?thesis using mapped_nth [of "tty_buf t"] assms(2) by simp
  qed
  then have "blanked a 0 v t = t" by (simp add: blanked_def)
  moreover have "each (\<lambda>c. cell_write (a + c) v) [0..<n] (blanked a 0 v t) = Inr (blanked a n v t)"
    by (rule each_upt) (use assms(1) in \<open>auto intro: blank_step\<close>)
  ultimately show ?thesis by simp
qed

lemma tty_scroll_result:
  assumes "length (tty_buf t) = 2000"
  shows "tty_scroll t = Inr (t\<lparr>tty_buf := drop 80 (tty_buf t) @ replicate 80 0x20\<rparr>)"
proof -
  have "tty_scroll t = Inr (blanked 1920 80 0x20 (shifted 1920 t))"
    unfolding tty_scroll_def vga_defs using shift_rows [OF assms] blank_cells [of 1920 80 "shifted 1920 t" "0x20"]
    by (simp add: shifted_def)
  also have "blanked 1920 80 0x20 (shifted 1920 t) = t\<lparr>tty_buf := drop 80 (tty_buf t) @ replicate 80 0x20\<rparr>"
  proof -
    have "mapped (\<lambda>i. if 1920 \<le> i \<and> i < 2000 then 0x20 else mapped (\<lambda>i. if i < 1920 then tty_buf t ! (i + 80) else tty_buf t ! i) 2000 ! i) 2000
        = drop 80 (tty_buf t) @ replicate 80 0x20"
      using assms by (intro nth_equalityI) (auto simp: nth_append add.commute)
    then show ?thesis by (simp add: blanked_def shifted_def cong: if_cong)
  qed
  finally show ?thesis .
qed


section \<open>A roll of paper\<close>

text \<open>
  The roll is an endless sequence of cells, 80 to a line. A character is printed at the
  position and moves it on; a tab moves to the next multiple of four, a newline to the next
  multiple of 80, a backspace does nothing.
\<close>

fun roll_put :: "u8 \<Rightarrow> u8 \<Rightarrow> (nat \<Rightarrow> u16) \<times> nat \<Rightarrow> (nat \<Rightarrow> u16) \<times> nat" where
  "roll_put color c (paper, pos) =
     (if c = 0x08 then (paper, pos)
      else if c = 0x09 then (paper, (pos div 4 + 1) * 4)
      else if c = 0x0A then (paper, (pos div 80 + 1) * 80)
      else (paper(pos := cell color c), pos + 1))"

text \<open>\<open>window\<close>: the screen shows the 25 lines of the roll from line \<open>ln\<close> on, and what follows is blank.\<close>

definition window :: "(nat \<Rightarrow> u16) \<Rightarrow> nat \<Rightarrow> tty \<Rightarrow> bool" where
  "window paper ln t \<longleftrightarrow> length (tty_buf t) = 2000 \<and> (\<forall>i < 2000. tty_buf t ! i = paper (80 * ln + i)) \<and>
     (\<forall>j \<ge> 80 * ln + 2000. paper j = 0x20)"

definition cursor_at :: "nat \<Rightarrow> tty \<Rightarrow> nat" where
  "cursor_at ln t = 80 * (ln + unat (tty_row t)) + unat (tty_col t)"

definition shows_roll :: "tty \<Rightarrow> (nat \<Rightarrow> u16) \<times> nat \<Rightarrow> bool" where
  "shows_roll t = (\<lambda>(paper, pos). \<exists>ln. window paper ln t \<and> tty_row t < 25 \<and> tty_col t < 80 \<and> pos = cursor_at ln t)"

lemma window_scroll:
  assumes "window paper ln t"
  shows "\<exists>t'. tty_scroll t = Inr t' \<and> window paper (Suc ln) t' \<and> tty_row t' = tty_row t \<and> tty_col t' = tty_col t \<and> tty_color t' = tty_color t"
proof -
  have "length (tty_buf t) = 2000" using assms by (simp add: window_def)
  moreover have "(drop 80 (tty_buf t) @ replicate 80 0x20) ! i = paper (80 * Suc ln + i)" if "i < 2000" for i
    using assms that by (cases "i < 1920") (auto simp: window_def nth_append algebra_simps)
  ultimately show ?thesis using assms tty_scroll_result [of t] by (simp add: window_def)
qed

text \<open>The end of \<open>tty_putchar_t\<close>: the line break and the scrolling.\<close>

definition wrap :: "bool \<Rightarrow> tty \<Rightarrow> tty result" where
  "wrap nl t =
     (let t = if unat (tty_col t) \<ge> VGA_WIDTH \<or> nl then t\<lparr>tty_col := 0, tty_row := tty_row t + 1\<rparr> else t in
      if unat (tty_row t) \<ge> VGA_HEIGHT
      then rbind (tty_scroll t) (\<lambda>t. Inr (t\<lparr>tty_row := of_nat (VGA_HEIGHT - 1)\<rparr>))
      else Inr t)"

lemma less16_iff: "(a :: u16) < b \<longleftrightarrow> unat a < unat b"
  by (rule word_less_nat_alt)

lemma unat_succ16: "unat (x :: u16) < 65535 \<Longrightarrow> unat (x + 1) = unat x + 1"
  by (simp add: unat_word_ariths)

lemma wrap_ok:
  assumes w: "window paper ln t" and r: "unat (tty_row t) < 25" and c: "unat (tty_col t) \<le> 80"
  shows "\<exists>t'. wrap nl t = Inr t' \<and> tty_color t' = tty_color t \<and>
    shows_roll t' (paper, if nl \<or> unat (tty_col t) = 80 then 80 * (ln + unat (tty_row t) + 1) else cursor_at ln t)"
proof (cases "nl \<or> unat (tty_col t) = 80")
  case True
  let ?t = "t\<lparr>tty_col := 0, tty_row := tty_row t + 1\<rparr>"
  have row: "unat (tty_row t + 1) = unat (tty_row t) + 1" using r by (simp add: unat_succ16)
  have w': "window paper ln ?t" using w by (simp add: window_def)
  show ?thesis
  proof (cases "unat (tty_row t) = 24")
    case last: True
    obtain t' where t': "tty_scroll ?t = Inr t'" "window paper (Suc ln) t'" "tty_col t' = 0" "tty_color t' = tty_color t"
      using window_scroll [OF w'] by auto
    have "wrap nl t = Inr (t'\<lparr>tty_row := 24\<rparr>)" using True t'(1) row last by (auto simp: wrap_def vga_defs)
    moreover have "window paper (Suc ln) (t'\<lparr>tty_row := 24\<rparr>)" using t'(2) by (simp add: window_def)
    ultimately show ?thesis using True last t'(3,4)
      by (auto simp: shows_roll_def cursor_at_def less16_iff intro!: exI [of _ "Suc ln"])
  next
    case False
    then have "wrap nl t = Inr ?t" using True row r by (auto simp: wrap_def vga_defs)
    then show ?thesis using True w' row r False
      by (auto simp: shows_roll_def cursor_at_def less16_iff intro!: exI [of _ ln])
  qed
next
  case False
  then have "wrap nl t = Inr t" using r c by (auto simp: wrap_def vga_defs)
  then show ?thesis using False w r c by (auto simp: shows_roll_def cursor_at_def less16_iff intro!: exI [of _ ln])
qed

lemma putchar_wrap:
  "tty_putchar_t c t =
     (if c = 0x08 then Inr t
      else if c = 0x09 then wrap False (t\<lparr>tty_col := tty_col t + (4 - tty_col t mod 4)\<rparr>)
      else if c = 0x0A then wrap True t
      else rbind (cell_write (unat (tty_row t) * 80 + unat (tty_col t)) (cell (tty_color t) c) t)
             (\<lambda>t. wrap False (t\<lparr>tty_col := tty_col t + 1\<rparr>)))"
proof -
  consider "c = 0x08" | "c = 0x09" | "c = 0x0A" | "c \<noteq> 0x08" "c \<noteq> 0x09" "c \<noteq> 0x0A" by blast
  then show ?thesis
  proof cases
    case 4
    then show ?thesis
      by (cases "cell_write (unat (tty_row t) * 80 + unat (tty_col t)) (cell (tty_color t) c) t")
         (simp_all add: tty_putchar_t_def wrap_def Let_def vga_defs)
  qed (simp_all add: tty_putchar_t_def wrap_def Let_def)
qed

lemma tab_col:
  assumes "unat (c :: u16) < 80"
  shows "unat (c + (4 - c mod 4)) = (unat c div 4 + 1) * 4"
proof -
  have m: "unat (c mod 4) = unat c mod 4" by (simp add: unat_mod_distrib)
  then have "unat (4 - c mod 4) = 4 - unat c mod 4" by (subst unat_sub) (auto simp: word_le_nat_alt)
  then have "unat (c + (4 - c mod 4)) = unat c + (4 - unat c mod 4)"
    using assms by (simp add: unat_word_ariths)
  also have "\<dots> = (unat c div 4 + 1) * 4"
  proof -
    have "unat c div 4 * 4 + unat c mod 4 = unat c" "unat c mod 4 < 4" by simp_all
    then show ?thesis unfolding add_mult_distrib by linarith
  qed
  finally show ?thesis .
qed

lemma putchar_refines:
  assumes "shows_roll t (paper, pos)"
  shows "\<exists>t'. tty_putchar_t c t = Inr t' \<and> tty_color t' = tty_color t \<and> shows_roll t' (roll_put (tty_color t) c (paper, pos))"
proof -
  obtain ln where w: "window paper ln t" and r: "unat (tty_row t) < 25" and c80: "unat (tty_col t) < 80" and pos: "pos = cursor_at ln t"
    using assms by (auto simp: shows_roll_def less16_iff)
  let ?r = "unat (tty_row t)" and ?c = "unat (tty_col t)"
  consider "c = 0x08" | "c = 0x09" | "c = 0x0A" | "c \<noteq> 0x08" "c \<noteq> 0x09" "c \<noteq> 0x0A" by blast
  then show ?thesis
  proof cases
    case 1
    then show ?thesis using assms by (simp add: putchar_wrap)
  next
    case 2
    let ?t = "t\<lparr>tty_col := tty_col t + (4 - tty_col t mod 4)\<rparr>"
    have col: "unat (tty_col ?t) = (?c div 4 + 1) * 4" using tab_col [OF c80] by simp
    have "?c div 4 < 20" using c80 by (simp add: less_mult_imp_div_less)
    then have le: "unat (tty_col ?t) \<le> 80" unfolding col by simp
    have w': "window paper ln ?t" "unat (tty_row ?t) < 25" using w r by (simp_all add: window_def)
    have sel: "tty_row ?t = tty_row t" "tty_color ?t = tty_color t" by simp_all
    have "\<exists>t'. wrap False ?t = Inr t' \<and> tty_color t' = tty_color t \<and>
      shows_roll t' (paper, if (?c div 4 + 1) * 4 = 80 then 80 * (ln + ?r + 1) else cursor_at ln ?t)"
      using wrap_ok [OF w' le, of False] unfolding col sel by (simp only: simp_thms)
    moreover have "(pos div 4 + 1) * 4 = (if (?c div 4 + 1) * 4 = 80 then 80 * (ln + ?r + 1) else cursor_at ln ?t)"
    proof -
      have "pos div 4 = 20 * (ln + ?r) + ?c div 4" using pos by (simp add: cursor_at_def)
      then show ?thesis using col by (simp add: cursor_at_def)
    qed
    ultimately show ?thesis using 2 by (simp add: putchar_wrap)
  next
    case 3
    have "pos div 80 = ln + ?r" using pos c80 by (simp add: cursor_at_def)
    then show ?thesis using 3 wrap_ok [OF w r, of True] c80 by (simp add: putchar_wrap mult.commute)
  next
    case 4
    let ?v = "cell (tty_color t) c" and ?i = "?r * 80 + ?c"
    let ?t = "t\<lparr>tty_buf := (tty_buf t)[?i := ?v], tty_col := tty_col t + 1\<rparr>"
    have i: "?i < 2000" "pos = 80 * ln + ?i" using r c80 pos by (auto simp: cursor_at_def)
    have len: "length (tty_buf t) = 2000" using w by (simp add: window_def)
    have col: "unat (tty_col ?t) = ?c + 1" using c80 by (simp add: unat_succ16)
    have w': "window (paper(pos := ?v)) ln ?t" using w i by (auto simp: window_def nth_list_update)
    have le: "unat (tty_row ?t) < 25" "unat (tty_col ?t) \<le> 80" using r c80 unfolding col by simp_all
    have sel: "tty_row ?t = tty_row t" "tty_color ?t = tty_color t" by simp_all
    have "\<exists>t'. wrap False ?t = Inr t' \<and> tty_color t' = tty_color t \<and>
      shows_roll t' (paper(pos := ?v), if ?c + 1 = 80 then 80 * (ln + ?r + 1) else cursor_at ln ?t)"
      using wrap_ok [OF w' le, of False] unfolding col sel by (simp only: simp_thms)
    moreover have "pos + 1 = (if ?c + 1 = 80 then 80 * (ln + ?r + 1) else cursor_at ln ?t)"
      using pos col by (simp add: cursor_at_def)
    ultimately show ?thesis using 4 i len by (simp add: putchar_wrap cell_write_def)
  qed
qed


lemma shows_roll_cursor: "shows_roll (tty_updatecursor t) p = shows_roll t p"
  by (simp add: shows_roll_def tty_updatecursor_def window_def cursor_at_def Let_def)

lemma puts_loop_refines:
  "cstr m (str + i) bs \<Longrightarrow> shows_roll t p \<Longrightarrow>
   \<exists>t'. puts_loop m str i t = Some (Inr t') \<and> tty_color t' = tty_color t \<and> shows_roll t' (fold (roll_put (tty_color t)) bs p)"
proof (induction bs arbitrary: i t p)
  case Nil
  then show ?case by (subst puts_loop.simps) simp
next
  case (Cons b bs)
  obtain paper pos where p: "p = (paper, pos)" by (cases p)
  have b: "m (str + i) = b" "b \<noteq> 0" "cstr m (str + (i + 1)) bs" using Cons.prems(1) by (auto simp: add.assoc)
  obtain t1 where t1: "tty_putchar_t b t = Inr t1" "tty_color t1 = tty_color t" "shows_roll t1 (roll_put (tty_color t) b p)"
    using putchar_refines [of t paper pos b] Cons.prems(2) p by auto
  show ?case using Cons.IH [OF b(3) t1(3)] b t1 by (subst puts_loop.simps) simp
qed

section \<open>Theorems\<close>

text \<open>
  C18. The console is a window on a roll of paper: printing a terminated string never writes outside
  the screen memory, and prints its characters one after the other on the roll, the screen
  showing the last 25 lines and the cursor the position.
\<close>

theorem tty_puts_refines:
  assumes "cstr m str bs" "shows_roll t p"
  shows "\<exists>t'. tty_puts m str t = Some (Inr t') \<and> shows_roll t' (fold (roll_put (tty_color t)) bs p)"
proof -
  have "cstr m (str + 0) bs" using assms(1) by simp
  from puts_loop_refines [OF this assms(2)] show ?thesis
    by (auto simp: tty_puts_def shows_roll_cursor)
qed

definition roll0 :: "nat \<Rightarrow> u16" where
  "roll0 j = (if j < 2000 then 0x0220 else 0x20)"

text \<open>\<open>tty_init\<close> on a screen of 2000 cells starts a roll of green blanks.\<close>

lemma tty_clear_roll:
  assumes "length (tty_buf t) = 2000" "tty_color t = 2"
  shows "\<exists>t'. tty_clear t = Inr t' \<and> shows_roll t' (roll0, 0)"
proof -
  let ?t = "t\<lparr>tty_row := 0, tty_col := 0\<rparr>"
  let ?S = "\<lambda>n. blanked 0 n 0x0220 ?t"
  have cell2: "cell 2 0x20 = 0x0220" by (simp add: cell_def)
  have step: "cell_write i (cell (tty_color (?S i)) 0x20) (?S i) = Inr (?S (Suc i))" if "i < 2000" for i
  proof -
    have "tty_color (?S i) = 2" using assms(2) by (simp add: blanked_def)
    then show ?thesis using blank_step [of 0 i "0x0220" ?t] that cell2 by simp
  qed
  have "each (\<lambda>i t. cell_write i (cell (tty_color t) 0x20) t) [0..<2000] (?S 0) = Inr (?S 2000)"
    by (rule each_upt) (use step in auto)
  moreover have "?S 0 = ?t"
    using mapped_nth [of "tty_buf t"] assms(1) by (simp add: blanked_def)
  ultimately have "tty_clear t = Inr (tty_updatecursor (?S 2000))"
    by (simp add: tty_clear_def vga_defs)
  moreover have "shows_roll (?S 2000) (roll0, 0)"
    unfolding shows_roll_def by (auto simp: window_def blanked_def roll0_def cursor_at_def intro!: exI [of _ 0])
  ultimately show ?thesis by (auto simp: shows_roll_cursor)
qed

definition tty0 :: tty where
  "tty0 = \<lparr>tty_buf = [], tty_color = 0, tty_row = 0, tty_col = 0, tty_ports = []\<rparr>"

text \<open>\<open>tty_init\<close> clears the screen, and the console then shows the start of a fresh roll.\<close>

theorem tty_init_roll:
  assumes "length vga = 2000"
  shows "\<exists>t'. tty_init vga t = Inr t' \<and> shows_roll t' (roll0, 0)"
  using tty_clear_roll [of "tty_setcolor VGA_BLACK VGA_GREEN (t\<lparr>tty_buf := vga\<rparr>)"] assms
  by (simp add: tty_init_def tty_setcolor_def VGA_BLACK_def VGA_GREEN_def)

theorem tty_init_roll_witness: "\<exists>t'. tty_init (replicate 2000 0) tty0 = Inr t' \<and> shows_roll t' (roll0, 0)"
  by (rule tty_init_roll) simp

lemma tty1: "shows_roll \<lparr>tty_buf = replicate 2000 0x20, tty_color = 2, tty_row = 24, tty_col = 79, tty_ports = []\<rparr> (\<lambda>_. 0x20, 1999)"
  by (auto simp: shows_roll_def window_def cursor_at_def intro!: exI [of _ 0])

theorem tty_puts_refines_witness:
  "\<exists>t'. tty_puts mem_ab 0x1000 \<lparr>tty_buf = replicate 2000 0x20, tty_color = 2, tty_row = 24, tty_col = 79, tty_ports = []\<rparr> = Some (Inr t') \<and>
     shows_roll t' ((\<lambda>_. 0x20)(1999 := 0x261), 2000)"
  using tty_puts_refines [OF mem_ab_strings(1) tty1] by (simp add: cell_def)

text \<open>
  A character of 0x80 or above overwrites the colour with 0xFF, as the signed character is
  extended.
\<close>

lemma cell_high: "cell 0x02 0x80 = 0xFF80"
  by (simp add: cell_def)

end
