(* ===== verification/Typing.thy ===== *)
theory Typing
  imports Tty "HOL-Library.Sublist"
begin

text \<open>
  The keyboard interrupt (\<open>kbd_isr\<close> in \<open>arch/i386/ps2_kbd.c\<close>) and the reader (\<open>tty_getchar\<close> in \<open>arch/i386/tty.c\<close>)
  interleaved. They share the variable \<open>buf\<close>, which holds one scan code: the interrupt stores into it at
  any time, the reader looks at it, converts what it saw and clears it in a later step.
\<close>

section \<open>Interleavings\<close>

text \<open>
  \<open>t_seen\<close> is the scan code and the character the reader holds between its look and the clearing. The
  last two fields record the past: the characters returned with their scan codes, and the make codes that came in.
\<close>

record typing =
  t_kbd :: kbd
  t_seen :: "(u8 \<times> u8) option"
  t_out :: "(u8 \<times> u8) list"
  t_pressed :: "u8 list"

text \<open>An interrupt with a make code, one with any other code, a look, and the clearing with the return.\<close>

inductive typing_step :: "typing \<Rightarrow> typing \<Rightarrow> bool" where
  press: "code AND 0x80 = 0 \<Longrightarrow> kbd_scan code (t_kbd s) = Inr (k, leds) \<Longrightarrow>
    typing_step s (s\<lparr>t_kbd := k, t_pressed := t_pressed s @ [code]\<rparr>)"
| release: "code AND 0x80 \<noteq> 0 \<Longrightarrow> kbd_scan code (t_kbd s) = Inr (k, leds) \<Longrightarrow> typing_step s (s\<lparr>t_kbd := k\<rparr>)"
| look: "t_seen s = None \<Longrightarrow> kbd_get_key (t_kbd s) = Inr key \<Longrightarrow> kbd_key_to_ascii key (t_kbd s) = c \<Longrightarrow>
    typing_step s (s\<lparr>t_seen := if c = 0 then None else Some (buf (t_kbd s), c)\<rparr>)"
| clear: "t_seen s = Some p \<Longrightarrow>
    typing_step s (s\<lparr>t_seen := None, t_kbd := kbd_clr_key (t_kbd s), t_out := t_out s @ [p]\<rparr>)"

inductive typing_reachable :: "typing \<Rightarrow> bool" where
  start: "buf k = 0 \<Longrightarrow> typing_reachable \<lparr>t_kbd = k, t_seen = None, t_out = [], t_pressed = []\<rparr>"
| step: "typing_reachable s \<Longrightarrow> typing_step s s' \<Longrightarrow> typing_reachable s'"

inductive_cases typing_step_cases: "typing_step s s'"

section \<open>The invariant\<close>

text \<open>The scan codes returned so far with the one the reader holds.\<close>

definition taken_codes :: "typing \<Rightarrow> u8 list" where
  "taken_codes s = map fst (t_out s) @ (case t_seen s of None \<Rightarrow> [] | Some p \<Rightarrow> [fst p])"

text \<open>
  What is in \<open>buf\<close> came last, and while the reader holds nothing it has not been taken. Every character is the
  conversion of its scan code.
\<close>

definition converts :: "u8 \<times> u8 \<Rightarrow> bool" where
  "converts p \<longleftrightarrow> snd p \<noteq> 0 \<and> (\<exists>k key. kbd_get_key (k\<lparr>buf := fst p\<rparr>) = Inr key \<and> snd p = kbd_key_to_ascii key k)"

definition typing_ok :: "typing \<Rightarrow> bool" where
  "typing_ok s \<longleftrightarrow> subseq (taken_codes s) (t_pressed s) \<and>
     (t_seen s = None \<longrightarrow> buf (t_kbd s) \<noteq> 0 \<longrightarrow> subseq (taken_codes s @ [buf (t_kbd s)]) (t_pressed s)) \<and>
     (\<forall>p \<in> set (t_out s). converts p) \<and> (\<forall>p. t_seen s = Some p \<longrightarrow> converts p)"

lemma break_key_buf [simp]: "buf (break_key key k) = buf k"
  by (simp add: break_key_def)

lemma make_key_buf: "make_key key k = (k', leds) \<Longrightarrow> buf k' = buf k"
  by (auto simp: make_key_def split: if_splits)

lemma kbd_scan_buf:
  assumes "kbd_scan code k = Inr (k', leds)"
  shows "buf k' = (if code AND 0x80 = 0 then code else buf k)"
proof -
  have "(0xE0 :: u8) AND 0x80 \<noteq> 0" "(0xE1 :: u8) AND 0x80 \<noteq> 0" by simp_all
  then show ?thesis using assms make_key_buf
    by (fastforce simp: kbd_scan_def Let_def rbind_eq_Inr split: if_splits)
qed

lemma key_to_ascii_buf: "kbd_key_to_ascii key (k\<lparr>buf := b\<rparr>) = kbd_key_to_ascii key k"
  by (simp add: kbd_key_to_ascii_def)

lemma subseq_snoc: "subseq xs ys \<Longrightarrow> subseq (xs @ [y]) (ys @ [y])"
  by (simp add: list_emb_append_mono)

lemma typing_step_ok: "typing_step s s' \<Longrightarrow> typing_ok s \<Longrightarrow> typing_ok s'"
proof (induction rule: typing_step.induct)
  case (press code s k leds)
  have "subseq (taken_codes s) (t_pressed s @ [code])" using press.prems by (auto simp: typing_ok_def intro: list_emb_append2)
  moreover have "subseq (taken_codes s @ [code]) (t_pressed s @ [code])" using press.prems by (simp add: typing_ok_def subseq_snoc)
  ultimately show ?case using press.prems press.hyps(1) kbd_scan_buf [OF press.hyps(2)]
    by (cases "t_seen s") (auto simp: typing_ok_def taken_codes_def)
next
  case (release code s k leds)
  then show ?case using kbd_scan_buf [OF release.hyps(2)] by (simp add: typing_ok_def taken_codes_def)
next
  case (look s key c)
  show ?case
  proof (cases "c = 0")
    case True
    then show ?thesis using look by (simp add: typing_ok_def taken_codes_def)
  next
    case False
    have "buf (t_kbd s) \<noteq> 0"
    proof
      assume b: "buf (t_kbd s) = 0"
      then have "key = 0" using look.hyps(2) by (simp add: kbd_get_key_def xt_lookup_def xt_scan_def KEY_UNKNOWN_def)
      then show False using look.hyps(3) False by (simp add: kbd_key_to_ascii_def kbd_is_ascii_printable_def)
    qed
    moreover have "converts (buf (t_kbd s), c)"
      using look.hyps(2,3) False unfolding converts_def by (intro conjI exI [of _ "t_kbd s"] exI [of _ key]) auto
    ultimately show ?thesis using look.prems look.hyps(1) False by (simp add: typing_ok_def taken_codes_def)
  qed
next
  case (clear s p)
  then show ?case by (auto simp: typing_ok_def taken_codes_def kbd_clr_key_def)
qed

lemma typing_reachable_ok: "typing_reachable s \<Longrightarrow> typing_ok s"
proof (induction rule: typing_reachable.induct)
  case (start k)
  then show ?case by (simp add: typing_ok_def taken_codes_def)
next
  case (step s s')
  then show ?case using typing_step_ok by blast
qed

section \<open>Properties\<close>

text \<open>
  C32. However the interrupts fall, the reader returns keys that were pressed, in the order they were pressed and each
  press at most once: the scan codes of the returned characters are a subsequence of the make codes that came
  in, and every character is the conversion of its scan code.
\<close>

theorem typing_in_order:
  assumes "typing_reachable s"
  shows "subseq (map fst (t_out s)) (t_pressed s) \<and> (\<forall>p \<in> set (t_out s). converts p)"
proof -
  have "typing_ok s" by (rule typing_reachable_ok [OF assms])
  moreover have "subseq (map fst (t_out s)) (taken_codes s)"
    using list_emb_append_mono [OF subseq_order.refl list_emb_Nil] unfolding taken_codes_def by fastforce
  ultimately show ?thesis unfolding typing_ok_def using subseq_order.order_trans by blast
qed

text \<open>
  A key may be lost: one that comes in while the reader holds another is cleared with it, unseen.
\<close>

lemma key_lost:
  assumes "t_seen s = Some p" "code AND 0x80 = 0" "kbd_scan code (t_kbd s) = Inr (k, leds)"
  shows "\<exists>s1 s2. typing_step s s1 \<and> typing_step s1 s2 \<and> t_pressed s2 = t_pressed s @ [code] \<and> t_out s2 = t_out s @ [p] \<and>
    t_seen s2 = None \<and> buf (t_kbd s2) = 0"
proof -
  let ?s1 = "s\<lparr>t_kbd := k, t_pressed := t_pressed s @ [code]\<rparr>"
  have "typing_step s ?s1" by (rule typing_step.press [OF assms(2,3)])
  moreover have "typing_step ?s1 (?s1\<lparr>t_seen := None, t_kbd := kbd_clr_key (t_kbd ?s1), t_out := t_out ?s1 @ [p]\<rparr>)"
    by (rule typing_step.clear) (use assms(1) in simp)
  ultimately show ?thesis by (intro exI conjI) (assumption, assumption, simp_all add: kbd_clr_key_def)
qed

text \<open>Without an interrupt in between, look and clearing together are \<open>tty_getchar\<close>.\<close>

lemma getchar_steps:
  assumes "t_seen s = None" "kbd_get_key (t_kbd s) = Inr key" "kbd_key_to_ascii key (t_kbd s) = c" "c \<noteq> 0"
  shows "\<exists>s1 s2. typing_step s s1 \<and> typing_step s1 s2 \<and> t_out s2 = t_out s @ [(buf (t_kbd s), c)] \<and> t_pressed s2 = t_pressed s \<and>
    tty_getchar (\<lambda>_. t_kbd s) 0 = Some (Inr (c, t_kbd s2))"
proof -
  let ?s1 = "s\<lparr>t_seen := Some (buf (t_kbd s), c)\<rparr>"
  have "typing_step s ?s1" using typing_step.look [OF assms(1-3)] assms(4) by simp
  moreover have "typing_step ?s1 (?s1\<lparr>t_seen := None, t_kbd := kbd_clr_key (t_kbd ?s1), t_out := t_out ?s1 @ [(buf (t_kbd s), c)]\<rparr>)"
    by (rule typing_step.clear) simp
  moreover have "tty_getchar (\<lambda>_. t_kbd s) 0 = Some (Inr (c, kbd_clr_key (t_kbd s)))"
    by (subst tty_getchar.simps) (simp add: assms)
  ultimately show ?thesis by (intro exI conjI) (assumption, assumption, simp_all)
qed

text \<open>The key M, pressed and read.\<close>

theorem typing_in_order_witness:
  "\<exists>s. typing_reachable s \<and> t_out s = [(0x32, 0x6D)] \<and> t_pressed s = [0x32] \<and> subseq (map fst (t_out s)) (t_pressed s)"
proof -
  let ?s0 = "\<lparr>t_kbd = kbd0, t_seen = None, t_out = [], t_pressed = []\<rparr>"
  let ?s1 = "?s0\<lparr>t_kbd := kbd0\<lparr>buf := 0x32\<rparr>, t_pressed := t_pressed ?s0 @ [0x32]\<rparr>"
  have "typing_reachable ?s0" by (rule typing_reachable.start) (simp add: kbd0_def)
  moreover have "kbd_scan 0x32 (t_kbd ?s0) = Inr (kbd0\<lparr>buf := 0x32\<rparr>, False)"
    by (simp add: kbd_scan_def xt_lookup_def xt_scan_def make_key_def key_defs)
  from typing_step.press [OF _ this] have "typing_step ?s0 ?s1" by simp
  ultimately have r1: "typing_reachable ?s1" by (rule typing_reachable.step)
  have "kbd_get_key (t_kbd ?s1) = Inr 0x6D" by (simp add: kbd_get_key_def xt_lookup_def xt_scan_def key_defs)
  moreover have "kbd_key_to_ascii 0x6D (t_kbd ?s1) = 0x6D" by (simp add: kbd_key_to_ascii_def kbd_is_ascii_printable_def kbd0_def)
  ultimately obtain s2 s3 where s: "typing_step ?s1 s2" "typing_step s2 s3" "t_out s3 = [(0x32, 0x6D)]" "t_pressed s3 = [0x32]"
    using getchar_steps [of ?s1 "0x6D" "0x6D"] by auto
  have r3: "typing_reachable s3" using r1 s(1,2) typing_reachable.step by blast
  with s(3,4) typing_in_order [OF r3] show ?thesis by blast
qed

end
