(* ===== verification/Isr_Spec.thy ===== *)
theory Isr_Spec
  imports Isr
begin

text \<open>
  What interrupt dispatch guarantees: the handler chains stay well formed, registration appends
  to the chain of its interrupt and release removes from it, and an interrupt runs the handlers
  of its chain in order.
\<close>

section \<open>Well-formed handler chains\<close>

interpretation hq: linked hnd_next "\<lambda>v. hnd_next_update (\<lambda>_. v)"
  by unfold_locales simp_all

text \<open>
  \<open>C i\<close> are the heap nodes of the chain of interrupt \<open>i\<close>, behind its element of the table. The
  table lies below the heap.
\<close>

definition chain_ok :: "isr_env \<Rightarrow> (u32 \<Rightarrow> addr list) \<Rightarrow> 'a interrupts_scheme \<Rightarrow> u32 \<Rightarrow> bool" where
  "chain_ok env C s i \<longleftrightarrow>
     llist hnd_next (node s) (slot (handlers env) i) (slot (handlers env) i # C i) \<and>
     (\<forall>a \<in> set (C i). (\<exists>m. heap_live (i_heap s) a m) \<and> handler (node s a) \<noteq> 0) \<and>
     (handler (node s (slot (handlers env) i)) = 0 \<longrightarrow> C i = [])"

definition isr_inv :: "isr_env \<Rightarrow> nat \<Rightarrow> nat \<Rightarrow> (u32 \<Rightarrow> addr list) \<Rightarrow> 'a interrupts_scheme \<Rightarrow> bool" where
  "isr_inv env lo hi C s \<longleftrightarrow>
     0 < unat (handlers env) \<and> unat (handlers env) + 3072 \<le> lo \<and> heap_at lo hi (i_heap s) \<and>
     (\<forall>i < 256. chain_ok env C s i) \<and> (\<forall>i < 256. \<forall>j < 256. i \<noteq> j \<longrightarrow> set (C i) \<inter> set (C j) = {})"

definition isr_wf :: "isr_env \<Rightarrow> nat \<Rightarrow> nat \<Rightarrow> 'a interrupts_scheme \<Rightarrow> bool" where
  "isr_wf env lo hi s \<longleftrightarrow> (\<exists>C. isr_inv env lo hi C s)"

text \<open>\<open>attached env s i es\<close>: the pairs of id and routine registered for interrupt \<open>i\<close>, in order.\<close>

definition entry :: "'a interrupts_scheme \<Rightarrow> addr \<Rightarrow> u32 \<times> addr" where
  "entry s a = (hnd_id (node s a), handler (node s a))"

definition attached :: "isr_env \<Rightarrow> 'a interrupts_scheme \<Rightarrow> u32 \<Rightarrow> (u32 \<times> addr) list \<Rightarrow> bool" where
  "attached env s i es \<longleftrightarrow>
     (\<exists>as. llist hnd_next (node s) (slot (handlers env) i) as \<and>
        es = (if handler (node s (slot (handlers env) i)) = 0 then [] else map (entry s) as))"

lemma entry_heap [simp]: "entry (s\<lparr>i_heap := h\<rparr>) = entry s" "entry (s\<lparr>ports := p\<rparr>) = entry s"
  by (simp_all add: entry_def fun_eq_iff)

lemma isr_invD:
  assumes "isr_inv env lo hi C s"
  shows "heap_at lo hi (i_heap s)" "i < 256 \<Longrightarrow> chain_ok env C s i" "hi < 4294967296"
    "i < 256 \<Longrightarrow> j < 256 \<Longrightarrow> i \<noteq> j \<Longrightarrow> set (C i) \<inter> set (C j) = {}"
  using assms by (auto simp: isr_inv_def heap_at_def)

lemma chain_okD:
  assumes "chain_ok env C s i"
  shows "llist hnd_next (node s) (slot (handlers env) i) (slot (handlers env) i # C i)"
    "a \<in> set (C i) \<Longrightarrow> \<exists>m. heap_live (i_heap s) a m" "a \<in> set (C i) \<Longrightarrow> handler (node s a) \<noteq> 0"
    "handler (node s (slot (handlers env) i)) = 0 \<Longrightarrow> C i = []"
  using assms unfolding chain_ok_def by blast+

lemma slot_unat:
  assumes "isr_inv env lo hi C s" "i < 256"
  shows "unat (slot (handlers env) i) = unat (handlers env) + 12 * unat i"
proof -
  have i: "unat i < 256" using assms(2) by (simp add: word_less_nat_alt)
  have h: "unat (handlers env) + 3072 \<le> lo" using assms(1) by (simp add: isr_inv_def)
  have "lo < hi" "hi < 4294967296" using isr_invD(1) [OF assms(1)] by (auto simp: heap_at_def heap_inv_def)
  moreover have "unat (12 * i) = 12 * unat i" using i unat_mult32 [of 12 i] by simp
  ultimately show ?thesis unfolding slot_def SIZEOF_HANDLER_def using h i by (simp add: unat_add32)
qed

lemma slot_facts:
  assumes "isr_inv env lo hi C s" "i < 256"
  shows "slot (handlers env) i \<noteq> 0" "unat (slot (handlers env) i) < lo"
    "j < 256 \<Longrightarrow> slot (handlers env) i = slot (handlers env) j \<Longrightarrow> i = j"
proof -
  have i: "unat i < 256" using assms(2) by (simp add: word_less_nat_alt)
  show "slot (handlers env) i \<noteq> 0" "unat (slot (handlers env) i) < lo"
    using slot_unat [OF assms] assms(1) i by (auto simp: isr_inv_def)
  show "i = j" if "j < 256" "slot (handlers env) i = slot (handlers env) j"
    using slot_unat [OF assms] slot_unat [OF assms(1) that(1)] that(2) by (simp add: eq32_iff)
qed

lemma slot_not_live:
  assumes "isr_inv env lo hi C s" "i < 256" "heap_at lo hi h" "heap_live h a m"
  shows "slot (handlers env) i \<noteq> a"
  using slot_facts(2) [OF assms(1,2)] heap_at_live [OF assms(3,4)] by auto

text \<open>
  One chain changes: the invariant and what is attached to the other interrupts carry over.
\<close>

lemma isr_inv_chain:
  assumes inv: "isr_inv env lo hi C s" and i: "i < 256" and h: "heap_at lo hi (i_heap s')"
    and ok: "chain_ok env (C(i := as)) s' i"
    and same: "\<And>a. a \<noteq> slot (handlers env) i \<Longrightarrow> a \<notin> set (C i) \<Longrightarrow> a \<notin> set as \<Longrightarrow> node s' a = node s a"
    and live: "\<And>a m. heap_live (i_heap s) a m \<Longrightarrow> a \<notin> set (C i) \<Longrightarrow> \<exists>m. heap_live (i_heap s') a m"
    and new: "\<And>j. j < 256 \<Longrightarrow> j \<noteq> i \<Longrightarrow> set as \<inter> set (C j) = {}"
  shows "isr_inv env lo hi (C(i := as)) s'"
    and "j < 256 \<Longrightarrow> j \<noteq> i \<Longrightarrow> attached env s j es \<Longrightarrow> attached env s' j es"
proof -
  let ?sl = "slot (handlers env)"
  have agree: "node s' a = node s a" if "j < 256" "j \<noteq> i" "a = ?sl j \<or> a \<in> set (C j)" for a j
  proof (rule same)
    have j: "\<forall>b \<in> set (C j). \<exists>m. heap_live (i_heap s) b m" "\<forall>b \<in> set (C i). \<exists>m. heap_live (i_heap s) b m"
      "\<forall>b \<in> set as. \<exists>m. heap_live (i_heap s') b m"
      using chain_okD(2) [OF isr_invD(2) [OF inv]] that(1) i chain_okD(2) [OF ok] by (blast, blast, simp)
    show "a \<noteq> ?sl i"
      using that(3)
    proof
      assume "a = ?sl j"
      then show ?thesis using slot_facts(3) [OF inv i that(1)] that(2) by auto
    next
      assume "a \<in> set (C j)"
      then show ?thesis using j(1) slot_not_live [OF inv i isr_invD(1) [OF inv]] by metis
    qed
    show "a \<notin> set (C i)"
      using that(3) isr_invD(4) [OF inv that(1) i that(2)] j(2) slot_not_live [OF inv that(1) isr_invD(1) [OF inv]] by blast
    show "a \<notin> set as"
      using that(3) new [OF that(1,2)] j(3) slot_not_live [OF inv that(1) h] by blast
  qed
  have other: "chain_ok env (C(i := as)) s' j" if j: "j < 256" "j \<noteq> i" for j
  proof -
    have "chain_ok env C s j" using isr_invD(2) [OF inv j(1)] .
    moreover have "lseg hnd_next (node s') (?sl j) (?sl j # C j) 0 = lseg hnd_next (node s) (?sl j) (?sl j # C j) 0"
      using agree [OF j] by (intro lseg_cong) auto
    moreover have "\<exists>m. heap_live (i_heap s') a m" if "a \<in> set (C j)" for a
      using that live isr_invD(2) [OF inv j(1)] isr_invD(4) [OF inv j(1) i j(2)] unfolding chain_ok_def by blast
    ultimately show ?thesis using agree [OF j] j(2) by (simp add: chain_ok_def)
  qed
  show "isr_inv env lo hi (C(i := as)) s'"
    using inv h ok other new by (auto simp: isr_inv_def Int_commute)
  show "attached env s' j es" if j: "j < 256" "j \<noteq> i" and at: "attached env s j es"
  proof -
    obtain bs where b: "llist hnd_next (node s) (?sl j) bs"
      "es = (if handler (node s (?sl j)) = 0 then [] else map (entry s) bs)"
      using at by (auto simp: attached_def)
    have "llist hnd_next (node s) (?sl j) (?sl j # C j)"
      using isr_invD(2) [OF inv j(1)] by (simp add: chain_ok_def)
    then have bs: "bs = ?sl j # C j" using llist_unique b(1) by blast
    have "lseg hnd_next (node s') (?sl j) bs 0 = lseg hnd_next (node s) (?sl j) bs 0"
      using agree [OF j] bs by (intro lseg_cong) auto
    moreover have "map (entry s') bs = map (entry s) bs" "node s' (?sl j) = node s (?sl j)"
      using agree [OF j] bs by (auto simp: entry_def)
    ultimately show ?thesis using b by (auto simp: attached_def)
  qed
qed

lemma attachedI:
  assumes "isr_inv env lo hi C s" "i < 256"
  shows "attached env s i (if handler (node s (slot (handlers env) i)) = 0 then [] else map (entry s) (slot (handlers env) i # C i))"
  using isr_invD(2) [OF assms] unfolding attached_def chain_ok_def by blast

lemma attached_unique: "attached env s i es \<Longrightarrow> attached env s i es' \<Longrightarrow> es = es'"
  using llist_unique unfolding attached_def by metis

section \<open>Registration\<close>

lemma upd_node_sel [simp]:
  "i_heap (upd_node f a s) = i_heap s" "node (upd_node f a s) = upd_at f a (node s)" "ports (upd_node f a s) = ports s"
  "idt (upd_node f a s) = idt s"
  by (simp_all add: upd_node_def)

lemma req_ok_handler: "req_ok SIZEOF_HANDLER"
  by (simp add: req_ok_def SIZEOF_HANDLER_def)

lemma request_first:
  assumes inv: "isr_inv env lo hi C s" and i: "i < 256" and f: "f \<noteq> 0" and free: "handler (node s (slot (handlers env) i)) = 0"
  shows "\<exists>s'. request_isr env i k f s = Some (Inr (0, s')) \<and> isr_inv env lo hi C s' \<and> attached env s' i [(k, f)]
    \<and> (\<forall>j < 256. j \<noteq> i \<longrightarrow> (\<forall>es. attached env s j es \<longrightarrow> attached env s' j es)) \<and> ports s' = ports s"
proof -
  let ?a = "slot (handlers env) i"
  let ?s = "upd_node (\<lambda>x. x\<lparr>handler := f\<rparr>) ?a (upd_node (\<lambda>x. x\<lparr>hnd_id := k\<rparr>) ?a s)"
  have ok: "chain_ok env C s i" using isr_invD(2) [OF inv i] .
  have C: "C i = []" using chain_okD(4) [OF ok free] .
  have nx: "hnd_next (node s ?a) = 0" "?a \<noteq> 0" using chain_okD(1) [OF ok] C by auto
  have ok': "chain_ok env (C(i := [])) ?s i" using nx f by (simp add: chain_ok_def upd_at_apply)
  have inv': "isr_inv env lo hi (C(i := [])) ?s"
    by (rule isr_inv_chain(1) [OF inv i _ ok']) (use isr_invD(1) [OF inv] C in \<open>auto simp: upd_at_apply\<close>)
  moreover have "C(i := []) = C" using C by auto
  moreover have "attached env ?s j es" if "j < 256" "j \<noteq> i" "attached env s j es" for j es
    by (rule isr_inv_chain(2) [OF inv i _ ok' _ _ _ that]) (use isr_invD(1) [OF inv] C in \<open>auto simp: upd_at_apply\<close>)
  moreover have "attached env ?s i [(k, f)]"
    using attachedI [OF inv' i] f by (simp add: upd_at_apply entry_def)
  moreover have "request_isr env i k f s = Some (Inr (0, ?s))"
    using i free by (simp add: request_isr_def Let_def not_le order.strict_trans word_less_nat_alt word_le_nat_alt)
  ultimately show ?thesis by auto
qed

lemma request_more:
  assumes inv: "isr_inv env lo hi C s" and i: "i < 256" and f: "f \<noteq> 0" and busy: "handler (node s (slot (handlers env) i)) \<noteq> 0"
    and km: "kmalloc (i_heap s) SIZEOF_HANDLER = Some (Inr (n, hp))" "n \<noteq> 0" "heap_at lo hi hp" "\<forall>k. \<not> heap_live (i_heap s) n k"
      "\<forall>q k. heap_live hp q k \<longleftrightarrow> heap_live (i_heap s) q k \<or> q = n \<and> k = m"
  shows "\<exists>s'. request_isr env i k f s = Some (Inr (0, s')) \<and> isr_inv env lo hi (C(i := C i @ [n])) s'
    \<and> attached env s' i (map (entry s) (slot (handlers env) i # C i) @ [(k, f)])
    \<and> (\<forall>j < 256. j \<noteq> i \<longrightarrow> (\<forall>es. attached env s j es \<longrightarrow> attached env s' j es)) \<and> ports s' = ports s"
proof -
  let ?a = "slot (handlers env) i"
  let ?l = "last (?a # C i)"
  let ?t = "s\<lparr>i_heap := hp\<rparr>"
  let ?n = "upd_node (\<lambda>x. x\<lparr>hnd_next := 0\<rparr>) n (upd_node (\<lambda>x. x\<lparr>handler := f\<rparr>) n (upd_node (\<lambda>x. x\<lparr>hnd_id := k\<rparr>) n ?t))"
  let ?s = "upd_node (\<lambda>x. x\<lparr>hnd_next := n\<rparr>) ?l ?n"
  have ok: "chain_ok env C s j" if "j < 256" for j using isr_invD(2) [OF inv that] .
  have fresh: "n \<notin> set (C j)" if "j < 256" for j using chain_okD(2) [OF ok [OF that]] km(4) by blast
  have na: "n \<noteq> ?a" using slot_not_live [OF inv i km(3)] km(5) by blast
  have "llist hnd_next (node ?n) ?a (?a # C i) = llist hnd_next (node s) ?a (?a # C i)"
    using fresh [OF i] na by (intro lseg_cong) (auto simp: upd_at_apply)
  then have l: "llist hnd_next (node ?n) ?a (?a # C i)" using chain_okD(1) [OF ok [OF i]] by simp
  have w: "walk_tail hnd_next (node ?n) ?a = Some ?l" using walk_tail_last [OF l] by simp
  have "llist hnd_next (hq.link ?l n (node ?n)) ?a ((?a # C i) @ [n])"
    by (rule hq.llist_append [OF l]) (use km(2) na fresh [OF i] in \<open>auto simp: upd_at_apply\<close>)
  then have l': "llist hnd_next (node ?s) ?a (?a # C i @ [n])" by simp
  have ln: "?l \<noteq> n" using fresh [OF i] na last_in_set [of "?a # C i"] by auto
  have ent: "entry ?s b = entry s b" if "b \<noteq> n" for b using that by (simp add: entry_def upd_at_apply)
  have hn: "handler (node ?s b) = (if b = n then f else handler (node s b))" for b by (simp add: upd_at_apply)
  have lv: "\<exists>m. heap_live hp b m" if "b \<in> set (C i @ [n])" for b
    using that km(5) chain_okD(2) [OF ok [OF i]] by (metis Un_iff empty_iff empty_set list.simps(15) set_append insert_iff)
  have ok': "chain_ok env (C(i := C i @ [n])) ?s i"
    unfolding chain_ok_def fun_upd_same
  proof (intro conjI ballI impI)
    show "llist hnd_next (node ?s) ?a (?a # C i @ [n])" by (rule l')
    show "\<exists>m. heap_live (i_heap ?s) b m" if "b \<in> set (C i @ [n])" for b using lv [OF that] by simp
    show "handler (node ?s b) \<noteq> 0" if "b \<in> set (C i @ [n])" for b
      using that f chain_okD(3) [OF ok [OF i]] unfolding hn by auto
    show "C i @ [n] = []" if "handler (node ?s ?a) = 0" using that na busy unfolding hn by auto
  qed
  have step: "\<And>a. a \<noteq> ?a \<Longrightarrow> a \<notin> set (C i) \<Longrightarrow> a \<notin> set (C i @ [n]) \<Longrightarrow> node ?s a = node s a"
    "\<And>a m. heap_live (i_heap s) a m \<Longrightarrow> \<exists>m. heap_live (i_heap ?s) a m"
    using last_in_set [of "?a # C i"] km(5) by (auto simp: upd_at_apply)
  have new: "set (C i @ [n]) \<inter> set (C j) = {}" if "j < 256" "j \<noteq> i" for j
    using isr_invD(4) [OF inv that(1) i that(2)] fresh [OF that(1)] by auto
  have "i_heap ?s = hp" by simp
  then have inv': "isr_inv env lo hi (C(i := C i @ [n])) ?s"
    using isr_inv_chain(1) [OF inv i _ ok' step(1) step(2) new] km(3) by simp
  moreover have "attached env ?s j es" if "j < 256" "j \<noteq> i" "attached env s j es" for j es
    using isr_inv_chain(2) [OF inv i _ ok' step(1) step(2) new that] km(3) by simp
  moreover have "attached env ?s i (map (entry s) (?a # C i) @ [(k, f)])"
  proof -
    have "entry ?s b = entry s b" if "b \<in> set (?a # C i)" for b using that na fresh [OF i] by (intro ent) auto
    then have "map (entry ?s) (?a # C i) = map (entry s) (?a # C i)" by (rule map_cong [OF refl])
    moreover have "entry ?s n = (k, f)" by (simp add: entry_def upd_at_apply)
    ultimately have "map (entry ?s) ((?a # C i) @ [n]) = map (entry s) (?a # C i) @ [(k, f)]"
      unfolding map_append by (simp only: list.map)
    moreover have "handler (node ?s ?a) \<noteq> 0" unfolding hn using na busy by auto
    ultimately show ?thesis using attachedI [OF inv' i] by (simp only: if_False fun_upd_same append_Cons)
  qed
  moreover have "request_isr env i k f s = Some (Inr (0, ?s))"
    using i busy km(1,2) w by (simp add: request_isr_def Let_def not_le order.strict_trans word_less_nat_alt word_le_nat_alt)
  ultimately show ?thesis by auto
qed

section \<open>Release\<close>

fun drop_id :: "u32 \<Rightarrow> (u32 \<times> addr) list \<Rightarrow> (u32 \<times> addr) list" where
  "drop_id k [] = []"
| "drop_id k (e # es) = (if fst e = k then es else e # drop_id k es)"

lemma drop_id_none: "\<forall>e \<in> set es. fst e \<noteq> k \<Longrightarrow> drop_id k es = es"
  by (induction es) auto

lemma drop_id_first: "\<forall>e \<in> set es. fst e \<noteq> k \<Longrightarrow> fst e = k \<Longrightarrow> drop_id k (es @ e # fs) = es @ fs"
  by (induction es) auto

lemma release_loop_none:
  "llist hnd_next (node s) h (h # qs) \<Longrightarrow> \<forall>a \<in> set qs. hnd_id (node s a) \<noteq> k \<Longrightarrow> release_loop h k s = Some (Inr s)"
proof (induction qs arbitrary: h)
  case Nil
  then show ?case by (subst release_loop.simps) simp
next
  case (Cons q qs)
  then show ?case by (subst release_loop.simps) simp
qed

lemma release_loop_first:
  "llist hnd_next (node s) h (h # us @ t # vs) \<Longrightarrow> \<forall>a \<in> set us. hnd_id (node s a) \<noteq> k \<Longrightarrow> hnd_id (node s t) = k \<Longrightarrow>
   release_loop h k s = Some (rbind (kfree (i_heap s) t)
     (\<lambda>hp. Inr (upd_node (\<lambda>x. x\<lparr>hnd_next := hnd_next (node s t)\<rparr>) (last (h # us)) s\<lparr>i_heap := hp\<rparr>)))"
proof (induction us arbitrary: h)
  case Nil
  then show ?case by (subst release_loop.simps) (simp add: Let_def)
next
  case (Cons q qs)
  then show ?case by (subst release_loop.simps) simp
qed

text \<open>
  Giving back one heap node \<open>t\<close> of a chain: the rest of the chain is linked, the node is freed.
\<close>

lemma release_node:
  assumes inv: "isr_inv env lo hi C s" and i: "i < 256" and C: "C i = us @ t # vs"
    and same: "i_heap s' = i_heap s" "\<And>a. a \<noteq> slot (handlers env) i \<Longrightarrow> a \<notin> set (C i) \<Longrightarrow> node s' a = node s a"
    and l: "llist hnd_next (node s') (slot (handlers env) i) (slot (handlers env) i # us @ vs)"
    and hn: "\<And>a. a = slot (handlers env) i \<or> a \<in> set (us @ vs) \<Longrightarrow> handler (node s' a) \<noteq> 0"
  shows "\<exists>hp. kfree (i_heap s') t = Inr hp \<and> isr_inv env lo hi (C(i := us @ vs)) (s'\<lparr>i_heap := hp\<rparr>)
    \<and> (\<forall>j < 256. j \<noteq> i \<longrightarrow> (\<forall>es. attached env s j es \<longrightarrow> attached env (s'\<lparr>i_heap := hp\<rparr>) j es))
    \<and> attached env (s'\<lparr>i_heap := hp\<rparr>) i (map (entry s') (slot (handlers env) i # us @ vs))"
proof -
  let ?a = "slot (handlers env) i"
  have ok: "chain_ok env C s i" using isr_invD(2) [OF inv i] .
  have d: "distinct (us @ t # vs)" using llist_distinct [OF chain_okD(1) [OF ok]] C by simp
  obtain m where "heap_live (i_heap s) t m" using chain_okD(2) [OF ok, of t] C by auto
  from kmr.free_live [OF isr_invD(1) [OF inv] this]
  obtain hp where hp: "kfree (i_heap s) t = Inr hp" "heap_at lo hi hp"
    "\<forall>q k. heap_live hp q k \<longleftrightarrow> heap_live (i_heap s) q k \<and> q \<noteq> t" by blast
  let ?s = "s'\<lparr>i_heap := hp\<rparr>"
  have live: "\<exists>m. heap_live hp a m" if "heap_live (i_heap s) a m" "a \<noteq> t" for a m using hp(3) that by blast
  have liveC: "\<exists>m. heap_live hp a m" if "a \<in> set (us @ vs)" for a
    using live chain_okD(2) [OF ok, of a] that C d by auto
  have "node ?s = node s'" by simp
  then have ok': "chain_ok env (C(i := us @ vs)) ?s i"
    unfolding chain_ok_def fun_upd_same using l hn liveC by simp
  have new: "set (us @ vs) \<inter> set (C j) = {}" if "j < 256" "j \<noteq> i" for j
    using isr_invD(4) [OF inv that(1) i that(2)] C by auto
  have st: "node ?s a = node s a" if "a \<noteq> ?a" "a \<notin> set (C i)" for a using same(2) [OF that] by simp
  have lv: "\<exists>m. heap_live (i_heap ?s) a m" if "heap_live (i_heap s) a m" "a \<notin> set (C i)" for a m
    using live that C by auto
  have inv': "isr_inv env lo hi (C(i := us @ vs)) ?s"
    by (rule isr_inv_chain(1) [OF inv i _ ok' st lv new]) (use hp(2) in auto)
  have "attached env ?s j es" if "j < 256" "j \<noteq> i" "attached env s j es" for j es
    by (rule isr_inv_chain(2) [OF inv i _ ok' st lv new that]) (use hp(2) in auto)
  moreover have "attached env ?s i (map (entry s') (?a # us @ vs))"
    using attachedI [OF inv' i] hn [of ?a] by (simp add: entry_def)
  ultimately show ?thesis using inv' hp(1) same(1) by auto
qed

lemma release_last:
  assumes inv: "isr_inv env lo hi C s" and i: "i < 256" and C: "C i = []"
  defines "s' \<equiv> upd_node (\<lambda>_. \<lparr>hnd_id = 0, handler = 0, hnd_next = 0\<rparr>) (slot (handlers env) i) s"
  shows "isr_inv env lo hi C s'" "attached env s' i []"
    "j < 256 \<Longrightarrow> j \<noteq> i \<Longrightarrow> attached env s j es \<Longrightarrow> attached env s' j es"
proof -
  have ok': "chain_ok env (C(i := [])) s' i"
    using slot_facts(1) [OF inv i] by (simp add: chain_ok_def s'_def)
  have st: "node s' a = node s a" if "a \<noteq> slot (handlers env) i" for a using that by (simp add: s'_def)
  have h: "i_heap s' = i_heap s" by (simp add: s'_def)
  have "C(i := []) = C" using C by auto
  then show "isr_inv env lo hi C s'"
    using isr_inv_chain(1) [OF inv i _ ok' st] isr_invD(1) [OF inv] h by auto
  then show "attached env s' i []" using attachedI [of env lo hi C s' i] i by (simp add: s'_def)
  show "attached env s' j es" if "j < 256" "j \<noteq> i" "attached env s j es"
    by (rule isr_inv_chain(2) [OF inv i _ ok' st _ _ that]) (use isr_invD(1) [OF inv] h in auto)
qed

text \<open>The three ways a release goes: the head of a longer chain, a node behind it, nothing found.\<close>

lemma release_head:
  assumes inv: "isr_inv env lo hi C s" and i: "i < 256" and k: "hnd_id (node s (slot (handlers env) i)) = k" and C: "C i = t # vs"
  shows "\<exists>s' C'. release_isr env i k s = Some (Inr s') \<and> isr_inv env lo hi C' s' \<and> attached env s' i (map (entry s) (C i))
    \<and> (\<forall>j < 256. j \<noteq> i \<longrightarrow> (\<forall>es. attached env s j es \<longrightarrow> attached env s' j es))"
proof -
  let ?a = "slot (handlers env) i"
  have ok: "chain_ok env C s i" using isr_invD(2) [OF inv i] .
  have l: "llist hnd_next (node s) ?a (?a # t # vs)" using chain_okD(1) [OF ok] C by simp
  have d: "distinct (?a # t # vs)" by (rule llist_distinct [OF l])
  have t: "hnd_next (node s ?a) = t" "t \<noteq> 0" "t \<noteq> ?a" using l d by auto
  define s' where "s' = upd_node (\<lambda>x. x\<lparr>hnd_next := hnd_next (node s t)\<rparr>) ?a (upd_node (\<lambda>x. x\<lparr>handler := handler (node s t)\<rparr>) ?a
    (upd_node (\<lambda>x. x\<lparr>hnd_id := hnd_id (node s t)\<rparr>) ?a s))"
  have other: "node s' b = node s b" if "b \<noteq> ?a" for b using that by (simp add: s'_def)
  have tail: "node s' b = node s b" if "b \<in> set vs" for b by (rule other) (use d that in auto)
  have here: "entry s' ?a = entry s t" "handler (node s' ?a) = handler (node s t)" "hnd_next (node s' ?a) = hnd_next (node s t)"
    by (simp_all add: s'_def entry_def)
  have "lseg hnd_next (node s') (hnd_next (node s t)) vs 0 = lseg hnd_next (node s) (hnd_next (node s t)) vs 0"
    using tail by (intro lseg_cong) simp
  then have l': "llist hnd_next (node s') ?a (?a # [] @ vs)" using l here(3) by simp
  have hn: "handler (node s' b) \<noteq> 0" if "b = ?a \<or> b \<in> set ([] @ vs)" for b
    using that chain_okD(3) [OF ok] C here(2) tail by auto
  obtain hp where hp: "kfree (i_heap s') t = Inr hp" "isr_inv env lo hi (C(i := [] @ vs)) (s'\<lparr>i_heap := hp\<rparr>)"
    "\<forall>j < 256. j \<noteq> i \<longrightarrow> (\<forall>es. attached env s j es \<longrightarrow> attached env (s'\<lparr>i_heap := hp\<rparr>) j es)"
    "attached env (s'\<lparr>i_heap := hp\<rparr>) i (map (entry s') (?a # [] @ vs))"
    using release_node [OF inv i, of "[]" t vs s', OF _ _ other l' hn] C by (auto simp: s'_def)
  have "map (entry s') (?a # [] @ vs) = map (entry s) (C i)" using C here(1) tail by (simp add: entry_def)
  moreover have "release_isr env i k s = Some (Inr (s'\<lparr>i_heap := hp\<rparr>))"
    using k i t hp(1) by (simp add: release_isr_def Let_def s'_def)
  ultimately show ?thesis using hp by auto
qed

lemma release_inner:
  assumes inv: "isr_inv env lo hi C s" and i: "i < 256" and k: "hnd_id (node s (slot (handlers env) i)) \<noteq> k"
    and C: "C i = us @ t # vs" "hnd_id (node s t) = k" "\<forall>b \<in> set us. hnd_id (node s b) \<noteq> k"
  shows "\<exists>s' C'. release_isr env i k s = Some (Inr s') \<and> isr_inv env lo hi C' s'
    \<and> attached env s' i (map (entry s) (slot (handlers env) i # us @ vs))
    \<and> (\<forall>j < 256. j \<noteq> i \<longrightarrow> (\<forall>es. attached env s j es \<longrightarrow> attached env s' j es))"
proof -
  let ?a = "slot (handlers env) i"
  have ok: "chain_ok env C s i" using isr_invD(2) [OF inv i] .
  have l: "llist hnd_next (node s) ?a (?a # us @ t # vs)" using chain_okD(1) [OF ok] C(1) by simp
  define s' where "s' = upd_node (\<lambda>x. x\<lparr>hnd_next := hnd_next (node s t)\<rparr>) (last (?a # us)) s"
  have h: "handler (node s ?a) \<noteq> 0" using chain_okD(4) [OF ok] C(1) by auto
  have "llist hnd_next (hq.link (last (?a # us)) (hnd_next (node s t)) (node s)) ?a ((?a # us) @ vs)"
    by (rule hq.llist_unlink) (use l in auto)
  then have l': "llist hnd_next (node s') ?a (?a # us @ vs)" by (simp add: s'_def)
  have ent: "entry s' = entry s" by (simp add: s'_def entry_def upd_at_apply fun_eq_iff)
  have other: "node s' b = node s b" if "b \<noteq> ?a" "b \<notin> set (C i)" for b
    using that last_in_set [of "?a # us"] C(1) by (auto simp: s'_def upd_at_apply)
  have hn: "handler (node s' b) \<noteq> 0" if "b = ?a \<or> b \<in> set (us @ vs)" for b
    using that fun_cong [OF ent, of b] chain_okD(3) [OF ok, of b] h C(1) by (auto simp: entry_def)
  obtain hp where hp: "kfree (i_heap s') t = Inr hp" "isr_inv env lo hi (C(i := us @ vs)) (s'\<lparr>i_heap := hp\<rparr>)"
    "\<forall>j < 256. j \<noteq> i \<longrightarrow> (\<forall>es. attached env s j es \<longrightarrow> attached env (s'\<lparr>i_heap := hp\<rparr>) j es)"
    "attached env (s'\<lparr>i_heap := hp\<rparr>) i (map (entry s') (?a # us @ vs))"
    using release_node [OF inv i C(1) _ other l' hn] by (auto simp: s'_def)
  have "release_isr env i k s = Some (Inr (s'\<lparr>i_heap := hp\<rparr>))"
    using k i release_loop_first [of s ?a us t vs k] l C hp(1) by (simp add: release_isr_def Let_def s'_def)
  then show ?thesis using hp ent by auto
qed

lemma release_drops:
  assumes inv: "isr_inv env lo hi C s" and i: "i < 256" and at: "attached env s i es"
  shows "\<exists>s' C'. release_isr env i k s = Some (Inr s') \<and> isr_inv env lo hi C' s' \<and> attached env s' i (drop_id k es)
    \<and> (\<forall>j < 256. j \<noteq> i \<longrightarrow> (\<forall>es. attached env s j es \<longrightarrow> attached env s' j es))"
proof -
  let ?a = "slot (handlers env) i"
  have ok: "chain_ok env C s i" using isr_invD(2) [OF inv i] .
  note l = chain_okD(1) [OF ok]
  have es: "es = (if handler (node s ?a) = 0 then [] else map (entry s) (?a # C i))"
    using attached_unique [OF at attachedI [OF inv i]] .
  have busy: "handler (node s ?a) \<noteq> 0" if "C i \<noteq> []" using chain_okD(4) [OF ok] that by auto
  consider (last_one) "hnd_id (node s ?a) = k" "C i = []" | (head) t vs where "hnd_id (node s ?a) = k" "C i = t # vs"
    | (inner) us t vs where "hnd_id (node s ?a) \<noteq> k" "C i = us @ t # vs" "hnd_id (node s t) = k" "\<forall>b \<in> set us. hnd_id (node s b) \<noteq> k"
    | (none) "hnd_id (node s ?a) \<noteq> k" "\<forall>b \<in> set (C i). hnd_id (node s b) \<noteq> k"
    using split_list_first_prop [of "C i" "\<lambda>b. hnd_id (node s b) = k"] by (cases "C i") blast+
  then show ?thesis
  proof cases
    case last_one
    then have "release_isr env i k s = Some (Inr (upd_node (\<lambda>_. \<lparr>hnd_id = 0, handler = 0, hnd_next = 0\<rparr>) ?a s))"
      using l i by (simp add: release_isr_def Let_def)
    moreover have "drop_id k es = []" using es last_one by (simp add: entry_def)
    ultimately show ?thesis using release_last [OF inv i last_one(2)] by auto
  next
    case head
    then have "drop_id k es = map (entry s) (C i)" using es busy by (simp add: entry_def)
    then show ?thesis using release_head [OF inv i head] by simp
  next
    case inner
    have "drop_id k (map (entry s) (?a # us) @ entry s t # map (entry s) vs) = map (entry s) (?a # us) @ map (entry s) vs"
      using inner by (intro drop_id_first) (auto simp: entry_def)
    then have "drop_id k es = map (entry s) (?a # us @ vs)" using es busy inner(2) by simp
    then show ?thesis using release_inner [OF inv i inner] by simp
  next
    case none
    then have "drop_id k es = es" using es by (intro drop_id_none) (auto simp: entry_def)
    moreover have "release_isr env i k s = Some (Inr s)"
      using none(1) i release_loop_none [OF l none(2)] by (simp add: release_isr_def Let_def)
    ultimately show ?thesis using inv at by auto
  qed
qed

section \<open>Dispatch\<close>

text \<open>The routines of a list called one after the other on the same registers.\<close>

fun run_all :: "(addr \<Rightarrow> regs_t \<Rightarrow> 's \<Rightarrow> (regs_t \<times> 's) result option) \<Rightarrow> addr list \<Rightarrow> regs_t \<Rightarrow> 's \<Rightarrow> (regs_t \<times> 's) result option" where
  "run_all call [] regs s = Some (Inr (regs, s))"
| "run_all call (f # fs) regs s =
     (case call f regs s of
        None \<Rightarrow> None
      | Some (Inl e) \<Rightarrow> Some (Inl e)
      | Some (Inr (regs, s)) \<Rightarrow> run_all call fs regs s)"

text \<open>Routines that do not register or release handlers leave the nodes alone.\<close>

definition keeps_nodes :: "(addr \<Rightarrow> regs_t \<Rightarrow> 'a interrupts_scheme \<Rightarrow> (regs_t \<times> 'a interrupts_scheme) result option) \<Rightarrow> bool" where
  "keeps_nodes call \<longleftrightarrow> (\<forall>f regs s regs' s'. call f regs s = Some (Inr (regs', s')) \<longrightarrow> node s' = node s)"

lemma isr_loop_runs:
  assumes "keeps_nodes call"
  shows "llist hnd_next (node s) h as \<Longrightarrow> \<forall>a \<in> set as. handler (node s a) \<noteq> 0 \<Longrightarrow>
    isr_loop call h b regs s =
      map_option (\<lambda>r. rbind r (\<lambda>p. Inr (b \<or> as \<noteq> [], p))) (run_all call (map (\<lambda>a. handler (node s a)) as) regs s)"
proof (induction as arbitrary: h b regs s)
  case Nil
  then show ?case by (subst isr_loop.simps) simp
next
  case (Cons a as)
  have h: "h = a" using Cons.prems by simp
  have "isr_loop call h b regs s = (case call (handler (node s a)) regs s of None \<Rightarrow> None | Some (Inl e) \<Rightarrow> Some (Inl e)
      | Some (Inr (regs, s)) \<Rightarrow> isr_loop call (hnd_next (node s a)) True regs s)"
    using Cons.prems unfolding h by (subst isr_loop.simps) simp
  moreover have "isr_loop call (hnd_next (node s' a)) True regs' s' =
      map_option (\<lambda>r. rbind r (\<lambda>p. Inr (True, p))) (run_all call (map (\<lambda>a. handler (node s a)) as) regs' s')"
    if "call (handler (node s a)) regs s = Some (Inr (regs', s'))" for regs' s'
  proof -
    have "node s' = node s" using assms that unfolding keeps_nodes_def by blast
    then show ?thesis using Cons.IH [of s' "hnd_next (node s' a)" True regs'] Cons.prems by simp
  qed
  ultimately show ?case by (auto split: option.splits sum.splits)
qed

text \<open>The acknowledgement an interrupt of the controllers gets before its handlers run.\<close>

definition acknowledge :: "u32 \<Rightarrow> 'a interrupts_scheme \<Rightarrow> 'a interrupts_scheme" where
  "acknowledge n s = (if 32 \<le> n \<and> n < 48 then s\<lparr>ports := pic_send_eoi (ucast (n - 32)) (ports s)\<rparr> else s)"

lemma acknowledge_node [simp]: "node (acknowledge n s) = node s"
  by (simp add: acknowledge_def)

lemma dispatch_runs:
  assumes wf: "isr_wf env lo hi s" and n: "int_no regs < 256" and at: "attached env s (int_no regs) es" and k: "keeps_nodes call"
  shows "isr_dispatch env call regs s =
    (if es = [] then Some (Inl (Panic ''uncaught interrupt''))
     else map_option (\<lambda>r. rbind r (\<lambda>(regs, s). Inr s)) (run_all call (map snd es) regs (acknowledge (int_no regs) s)))"
proof -
  let ?a = "slot (handlers env) (int_no regs)" and ?s = "acknowledge (int_no regs) s"
  obtain C where inv: "isr_inv env lo hi C s" using wf by (auto simp: isr_wf_def)
  have ok: "chain_ok env C s (int_no regs)" by (rule isr_invD(2) [OF inv n])
  have es: "es = (if handler (node s ?a) = 0 then [] else map (entry s) (?a # C (int_no regs)))"
    by (rule attached_unique [OF at attachedI [OF inv n]])
  have "31 < int_no regs \<longleftrightarrow> 32 \<le> int_no regs" by (simp add: word_less_nat_alt word_le_nat_alt) linarith
  then have disp: "isr_dispatch env call regs s =
      map_option (\<lambda>r. rbind r (\<lambda>(i, regs, s). if \<not> i then Inl (Panic ''uncaught interrupt'') else Inr s)) (isr_loop call ?a False regs ?s)"
    using n by (simp add: isr_dispatch_def acknowledge_def not_le [symmetric] Let_def)
  show ?thesis
  proof (cases "handler (node s ?a) = 0")
    case True
    then have "isr_loop call ?a False regs ?s = Some (Inr (False, regs, ?s))" by (subst isr_loop.simps) simp
    then show ?thesis using disp es True by simp
  next
    case False
    have "isr_loop call ?a False regs ?s = map_option (\<lambda>r. rbind r (\<lambda>p. Inr (True, p)))
        (run_all call (map (\<lambda>a. handler (node s a)) (?a # C (int_no regs))) regs ?s)"
      using isr_loop_runs [OF k, of ?s ?a "?a # C (int_no regs)" False regs] chain_okD(1,3) [OF ok] False by auto
    moreover have "map snd es = map (\<lambda>a. handler (node s a)) (?a # C (int_no regs))" using es False by (simp add: entry_def)
    moreover have "rbind (rbind r (\<lambda>p. Inr (True, p))) (\<lambda>(i, regs, s). if \<not> i then Inl (Panic ''uncaught interrupt'') else Inr s)
      = rbind r (\<lambda>(regs, s). Inr s)" for r :: "(regs_t \<times> 'a interrupts_scheme) result"
      by (cases r) auto
    ultimately show ?thesis using disp es False by (simp add: option.map_comp comp_def entry_def)
  qed
qed

section \<open>Start-up\<close>

lemma clear_slots:
  "node (fold (\<lambda>i. upd_node (\<lambda>_. z) (f i)) is s) a = (if a \<in> f ` set is then z else node s a)"
  "i_heap (fold (\<lambda>i. upd_node (\<lambda>_. z) (f i)) is s) = i_heap s"
  "idt (fold (\<lambda>i. upd_node (\<lambda>_. z) (f i)) is s) = idt s"
  by (induction "is" arbitrary: s) (auto simp: upd_at_apply)

lemma register_all:
  "node (fold (\<lambda>v. idt_register_isr v (f v)) vs s) = node s" "i_heap (fold (\<lambda>v. idt_register_isr v (f v)) vs s) = i_heap s"
  by (induction vs arbitrary: s) (auto simp: idt_register_isr_def)

lemma register_all_gates:
  "idt_wf s \<Longrightarrow> gate_of (fold (\<lambda>v. idt_register_isr v (f v)) vs s) w = (if w \<in> set vs then Some (8, f w) else gate_of s w)"
proof (induction vs arbitrary: s)
  case (Cons v vs)
  then show ?case by (auto simp: gate_of_register)
qed simp

lemma isr_init_state:
  "i_heap (isr_init env s) = i_heap s"
  "i < 256 \<Longrightarrow> node (isr_init env s) (slot (handlers env) i) = \<lparr>hnd_id = 0, handler = 0, hnd_next = 0\<rparr>"
proof -
  show "i_heap (isr_init env s) = i_heap s" by (simp add: isr_init_def Let_def clear_slots register_all)
  show "node (isr_init env s) (slot (handlers env) i) = \<lparr>hnd_id = 0, handler = 0, hnd_next = 0\<rparr>" if "i < 256"
  proof -
    have "unat i < 256" "i = of_nat (unat i)" using that by (simp_all add: word_less_nat_alt)
    then have "slot (handlers env) i \<in> (\<lambda>k. slot (handlers env) (of_nat k)) ` set [0..<256]"
      by (metis (no_types, lifting) atLeastLessThan_iff image_eqI le0 set_upt)
    then show ?thesis unfolding isr_init_def Let_def register_all clear_slots by (simp only: if_True)
  qed
qed

lemma isr_init_inv:
  assumes "heap_at lo hi (i_heap s)" "0 < unat (handlers env)" "unat (handlers env) + 3072 \<le> lo"
  shows "isr_inv env lo hi (\<lambda>_. []) (isr_init env s)"
proof -
  have "hi < 4294967296" "lo < hi" using assms(1) by (auto simp: heap_at_def heap_inv_def)
  have "slot (handlers env) i \<noteq> 0" if "i < 256" for i
  proof -
    have i: "unat i < 256" using that by (simp add: word_less_nat_alt)
    have "unat (12 * i) = 12 * unat i" using i unat_mult32 [of 12 i] by simp
    then have "unat (slot (handlers env) i) = unat (handlers env) + 12 * unat i"
      unfolding slot_def SIZEOF_HANDLER_def using assms(3) i \<open>hi < 4294967296\<close> \<open>lo < hi\<close> by (simp add: unat_add32)
    then show ?thesis using assms(2) by (metis gr_implies_not0 add_is_0 unat_0)
  qed
  then show ?thesis using assms by (simp add: isr_inv_def chain_ok_def isr_init_state)
qed

definition isr_env1 :: isr_env where
  "isr_env1 = \<lparr>i_dev = pc, handlers = 0xC0110000, stub = (\<lambda>v. 0xC0101000 + 16 * ucast v)\<rparr>"

definition interrupts0 :: interrupts where
  "interrupts0 = \<lparr>iptr = \<lparr>ip_size = 0, ip_offset = 0\<rparr>, idt = replicate 256 0, idtr = \<lparr>ip_size = 0, ip_offset = 0\<rparr>,
     i_heap = heap1, node = (\<lambda>_. \<lparr>hnd_id = 0, handler = 0, hnd_next = 0\<rparr>), ports = []\<rparr>"

lemma heap1_at: "heap_at 0xC0120000 0xC0130000 heap1"
  using heap1_inv by (auto simp: heap_at_def)

lemma interrupts1_inv: "isr_inv isr_env1 0xC0120000 0xC0130000 (\<lambda>_. []) (isr_init isr_env1 interrupts0)"
  by (rule isr_init_inv) (simp_all add: interrupts0_def isr_env1_def heap1_at)

lemma interrupts1_wf: "isr_wf isr_env1 0xC0120000 0xC0130000 (isr_init isr_env1 interrupts0)"
  using interrupts1_inv isr_wf_def by blast

lemma interrupts1_empty: "i < 256 \<Longrightarrow> attached isr_env1 (isr_init isr_env1 interrupts0) i []"
  using attachedI [OF interrupts1_inv, of i] isr_init_state(2) [of i isr_env1 interrupts0] by simp

section \<open>Theorems\<close>

text \<open>
  \<open>isr_init\<close> leaves a well-formed table without handlers, and the processor enters the right
  stub for every exception and interrupt line that has one.
\<close>

theorem isr_init_ready:
  assumes "heap_at lo hi (i_heap s)" "0 < unat (handlers env)" "unat (handlers env) + 3072 \<le> lo" "idt_wf s"
  shows "isr_wf env lo hi (isr_init env s) \<and> (\<forall>i < 256. attached env (isr_init env s) i []) \<and>
    (\<forall>v. gate_of (isr_init env s) v = (if v \<in> set wrapped then Some (8, stub env v) else gate_of s v))"
proof (intro conjI allI impI)
  note inv = isr_init_inv [OF assms(1-3)]
  show "isr_wf env lo hi (isr_init env s)" using inv isr_wf_def by blast
  show "attached env (isr_init env s) i []" if "i < 256" for i
    using attachedI [OF inv that] isr_init_state(2) [OF that, of env s] by simp
  show "gate_of (isr_init env s) v = (if v \<in> set wrapped then Some (8, stub env v) else gate_of s v)" for v
    using assms(4) unfolding isr_init_def Let_def
    by (subst register_all_gates) (auto simp: idt_wf_def gate_of_def clear_slots)
qed

theorem isr_init_ready_witness: "gate_of (isr_init isr_env1 interrupts0) 14 = Some (8, 0xC01010E0)"
  using isr_init_ready [of "0xC0120000" "0xC0130000" interrupts0 isr_env1] heap1_at
  by (simp add: interrupts0_def isr_env1_def idt_wf_def wrapped_def)

lemma request_isr_cases:
  assumes "isr_wf env lo hi s" "i < 256" "f \<noteq> 0" "attached env s i es"
  shows "\<exists>r s'. request_isr env i k f s = Some (Inr (r, s')) \<and> isr_wf env lo hi s' \<and> ports s' = ports s \<and>
    (r = 1 \<and> s' = s \<or>
     r = 0 \<and> attached env s' i (es @ [(k, f)]) \<and>
       (\<forall>j < 256. j \<noteq> i \<longrightarrow> (\<forall>es. attached env s j es \<longrightarrow> attached env s' j es)))"
proof -
  obtain C where inv: "isr_inv env lo hi C s" using assms(1) by (auto simp: isr_wf_def)
  let ?a = "slot (handlers env) i"
  have es: "es = (if handler (node s ?a) = 0 then [] else map (entry s) (?a # C i))"
    by (rule attached_unique [OF assms(4) attachedI [OF inv assms(2)]])
  show ?thesis
  proof (cases "handler (node s ?a) = 0")
    case True
    then show ?thesis using request_first [OF inv assms(2,3) True, of k] es isr_wf_def by fastforce
  next
    case busy: False
    show ?thesis
    proof (cases rule: kmr.alloc_cases [OF isr_invD(1) [OF inv] req_ok_handler, case_names null block])
      case null
      have "request_isr env i k f s = Some (Inr (1, s))"
        using null busy assms(2)
        by (simp add: request_isr_def Let_def not_le order.strict_trans word_less_nat_alt word_le_nat_alt)
      then show ?thesis using assms(1) by blast
    next
      case (block p h' m)
      then show ?thesis
        using request_more [OF inv assms(2,3) busy block(1,2,3,5,6), of k] es busy isr_wf_def by fastforce
    qed
  qed
qed

lemma ports_irrelevant [simp]:
  "isr_wf env lo hi (s\<lparr>ports := h\<rparr>) = isr_wf env lo hi s" "attached env (s\<lparr>ports := h\<rparr>) i es = attached env s i es"
  by (simp_all add: isr_wf_def isr_inv_def chain_ok_def attached_def)



lemma request_irq_cases:
  assumes "isr_wf env lo hi s" "irq < 16" "f \<noteq> 0" "attached env s (irq + 32) es"
    and "pics (i_dev env) m c" "pics_ready m c (ports s)"
  shows "\<exists>r s'. request_irq env irq k f s = Some (Inr (r, s')) \<and> isr_wf env lo hi s' \<and> (\<exists>e. ports s' = e @ ports s) \<and>
    (r = 1 \<and> s' = s \<or>
     r = 0 \<and> attached env s' (irq + 32) (es @ [(k, f)]) \<and> pics_ready m c (ports s') \<and>
       (\<forall>i < 16. line_masked m c (ports s') i \<longleftrightarrow> line_masked m c (ports s) i \<and> i \<noteq> unat irq))"
proof -
  have u: "unat irq < 16" using assms(2) by (simp add: word_less_nat_alt)
  then have v: "irq + 32 < 256" by (simp add: word_less_nat_alt unat_add32)
  have c8: "unat (ucast irq :: u8) = unat irq" using u by (simp add: unsigned_ucast_eq take_bit_nat_eq_self)
  then have l: "(ucast irq :: u8) < 16" using u by (simp add: word_less_nat_alt)
  obtain r s' where r: "request_isr env (irq + 32) k f s = Some (Inr (r, s'))" "isr_wf env lo hi s'" "ports s' = ports s"
    "r = 1 \<and> s' = s \<or> r = 0 \<and> attached env s' (irq + 32) (es @ [(k, f)])"
    using request_isr_cases [OF assms(1) v assms(3,4)] by blast
  obtain h where "pic_unmask_irq (i_dev env) (ucast irq) (ports s) = Inr h" "pics_ready m c h"
    "\<forall>i < 16. line_masked m c h i \<longleftrightarrow> line_masked m c (ports s) i \<and> i \<noteq> unat irq"
    using pic_unmask_irq_line [OF assms(5,6) l] unfolding c8 by blast
  moreover from this(1) obtain e where "h = e @ ports s" using pic_unmask_extends by blast
  ultimately show ?thesis using r by (auto simp: request_irq_def)
qed

text \<open>
  \<open>request_irq\<close> on one of the sixteen interrupt lines attaches the handler to the vector of the
  line and unmasks exactly that line; when there is no memory it returns 1 and the line stays
  as it was.
\<close>

theorem request_irq_attaches:
  assumes "isr_wf env lo hi s" "irq < 16" "f \<noteq> 0" "attached env s (irq + 32) es"
    and "pics (i_dev env) m c" "pics_ready m c (ports s)"
  shows "\<exists>r s'. request_irq env irq k f s = Some (Inr (r, s')) \<and> isr_wf env lo hi s' \<and>
    (r = 1 \<and> s' = s \<or>
     r = 0 \<and> attached env s' (irq + 32) (es @ [(k, f)]) \<and> pics_ready m c (ports s') \<and>
       (\<forall>i < 16. line_masked m c (ports s') i \<longleftrightarrow> line_masked m c (ports s) i \<and> i \<noteq> unat irq))"
  using request_irq_cases [OF assms] by blast

lemma pics_ready0: "pics_ready chip0 chip0 []"
  by (simp add: pics_ready_def chip0_def)

lemma interrupts1_ports: "ports (isr_init isr_env1 interrupts0) = []"
proof -
  have "ports (fold (\<lambda>v. idt_register_isr v (g v)) vs s) = ports s" for vs g and s :: interrupts
    by (induction vs arbitrary: s) (auto simp: idt_register_isr_def)
  moreover have "ports (fold (\<lambda>i. upd_node (\<lambda>_. z) (g i)) is s) = ports s" for z "is" and g :: "nat \<Rightarrow> addr" and s :: interrupts
    by (induction "is" arbitrary: s) auto
  ultimately show ?thesis by (simp add: isr_init_def Let_def interrupts0_def)
qed

theorem request_irq_attaches_witness:
  "\<exists>r s'. request_irq isr_env1 1 7 0xC0105000 (isr_init isr_env1 interrupts0) = Some (Inr (r, s')) \<and>
     isr_wf isr_env1 0xC0120000 0xC0130000 s'"
proof -
  have "i_dev isr_env1 = pc" by (simp add: isr_env1_def)
  then show ?thesis
    using request_irq_attaches [OF interrupts1_wf, of 1 "0xC0105000" "[]" chip0 chip0 7] interrupts1_empty [of 33]
      pc_pics pics_ready0 by (auto simp: interrupts1_ports)
qed




definition regs1 :: regs_t where
  "regs1 = \<lparr>r_edi = 0, r_esi = 0, r_ebp = 0, r_esp = 0, r_ebx = 0, r_edx = 0, r_ecx = 0, r_eax = 0, int_no = 13, err_code = 0,
     r_eip = 0, r_cs = 8, r_eflags = 0\<rparr>"


lemma not_in_service7:
  assumes "\<not> bit m 7"
  shows "(ucast (push_bit 8 (ucast (s :: u8) :: u32) OR ucast (m :: u8)) :: u16) AND 0x80 = 0"
proof -
  have "(0x80 :: u16) = 2 ^ 7" by simp
  moreover have "\<not> bit (ucast (push_bit 8 (ucast s :: u32) OR ucast m) :: u16) 7" using assms by (simp add: bit_simps)
  ultimately show ?thesis using and_exp_eq_0_iff_not_bit by metis
qed

text \<open>
  While line 7 is not in service, an interrupt on line 15 counts as spurious whatever the slave
  controller reports: no handler runs, and neither controller is told of the end of the
  interrupt.
\<close>

theorem irq15_dropped:
  assumes "int_no regs = 47" "\<forall>h. \<not> bit (dev8 (i_dev env) h 0x20) 7"
  shows "\<exists>a b. isr_handler env call regs s =
    Some (Inr (s\<lparr>ports := [In8 0x20 b, In8 0xA0 a, Out8 0xA0 0x0B, Out8 0x20 0x0B] @ ports s\<rparr>))"
  using assms(1) not_in_service7 assms(2)
  by (auto simp: isr_handler_def pic_is_spurious_def pic_read_reg_def port_defs pic_consts Let_def)

text \<open>A machine whose slave controller has line 15 in service.\<close>

definition pc15 :: device where
  "pc15 = pc\<lparr>dev8 := (\<lambda>h p. if p = 0xA0 then 0x80 else if p = 0x20 then 0x04 else 0)\<rparr>"

theorem irq15_dropped_witness:
  "\<exists>s'. isr_handler (isr_env1\<lparr>i_dev := pc15\<rparr>) (\<lambda>f regs s. None) (regs1\<lparr>int_no := 47\<rparr>) interrupts0 = Some (Inr s')"
  using irq15_dropped [of "regs1\<lparr>int_no := 47\<rparr>" "isr_env1\<lparr>i_dev := pc15\<rparr>" "\<lambda>f regs s. None" interrupts0]
  by (auto simp: pc15_def bit_numeral_rec)

end
