(* ===== verification/Pit.thy ===== *)
theory Pit
  imports Isr_Spec Sched
begin

text \<open>
  The programmable interval timer, \<open>i386/pit.c\<close> and \<open>i386/pit.h\<close>: the scheduler's clock and the
  speaker.
\<close>

section \<open>The C functions\<close>

definition PIT_CH0_DATA :: u16 where "PIT_CH0_DATA = 0x40"
definition PIT_CH2_DATA :: u16 where "PIT_CH2_DATA = 0x42"
definition PIT_CMD :: u16 where "PIT_CMD = 0x43"
definition PIT_BASE_FREQ :: u32 where "PIT_BASE_FREQ = 1193282"
definition PIT_CH0_CFG :: u8 where "PIT_CH0_CFG = 0x36"
definition PIT_CH2_CFG :: u8 where "PIT_CH2_CFG = 0xB6"
definition BEEP_MIN_FREQ :: u32 where "BEEP_MIN_FREQ = 100"
definition BEEP_MAX_FREQ :: u32 where "BEEP_MAX_FREQ = 44100"

lemmas pit_defs = PIT_CH0_DATA_def PIT_CH2_DATA_def PIT_CMD_def PIT_BASE_FREQ_def PIT_CH0_CFG_def PIT_CH2_CFG_def
  BEEP_MIN_FREQ_def BEEP_MAX_FREQ_def

definition tmr_isr :: "cpu_regs \<Rightarrow> sched \<Rightarrow> sched result option" where
  "tmr_isr regs s = do_scheduling regs s"

text \<open>\<open>pit_init_addr\<close> and \<open>tmr_isr_addr\<close> are the addresses of the two functions.\<close>

definition pit_init :: "isr_env \<Rightarrow> u32 \<Rightarrow> addr \<Rightarrow> 'a interrupts_scheme \<Rightarrow> 'a interrupts_scheme result option" where
  "pit_init env pit_init_addr tmr_isr_addr s =
     (let h = outb PIT_CMD PIT_CH0_CFG (ports s);
          reload = PIT_BASE_FREQ div KERNEL_SCHED_HZ;
          h = outb PIT_CH0_DATA (ucast reload) h;
          h = outb PIT_CH0_DATA (ucast (drop_bit 8 reload)) h
      in map_option (\<lambda>r. rbind r (\<lambda>(ret, s).
             if ret \<noteq> 0 then Inl (Panic ''could not register PIT interrupt handler'') else Inr s))
           (request_irq env 0 pit_init_addr tmr_isr_addr (s\<lparr>ports := h\<rparr>)))"

definition pit_beep_start :: "device \<Rightarrow> u32 \<Rightarrow> history \<Rightarrow> history" where
  "pit_beep_start dev freq h =
     (let h = outb PIT_CMD PIT_CH2_CFG h;
          freq = if freq < BEEP_MIN_FREQ then BEEP_MIN_FREQ else freq;
          freq = if freq > BEEP_MAX_FREQ then BEEP_MAX_FREQ else freq;
          reload = PIT_BASE_FREQ div freq;
          h = outb PIT_CH2_DATA (ucast reload) h;
          h = outb PIT_CH2_DATA (ucast (drop_bit 8 reload)) h;
          (v, h) = inb dev 0x61 h
      in outb 0x61 (v OR 0x03) h)"

text \<open>\<open>!0x03\<close> is 0.\<close>

definition pit_beep_stop :: "device \<Rightarrow> history \<Rightarrow> history" where
  "pit_beep_stop dev h = (let (v, h) = inb dev 0x61 h in outb 0x61 (v AND (if (0x03 :: u8) = 0 then 1 else 0)) h)"

text \<open>
  The call of \<open>usleep\<close> gives the processor away; \<open>resume\<close> is what happens until the task runs
  again.
\<close>

definition beep :: "device \<Rightarrow> (history \<times> sched \<Rightarrow> history \<times> sched) \<Rightarrow> u32 \<Rightarrow> u32 \<Rightarrow> cpu_regs \<Rightarrow> history \<times> sched
    \<Rightarrow> (history \<times> sched) result option" where
  "beep dev resume freq millis regs = (\<lambda>(h, s).
     let h = pit_beep_start dev freq h in
     map_option (\<lambda>r. rbind r (\<lambda>s. let (h, s) = resume (h, s) in Inr (pit_beep_stop dev h, s))) (usleep millis regs s))"

section \<open>The timer\<close>

text \<open>
  The divisor of a channel after the data sheet: in the access mode low byte, then high byte,
  the last two writes to the data port after the command.
\<close>

definition divisor :: "u8 \<Rightarrow> u8 \<Rightarrow> nat" where
  "divisor lo hi = unat lo + 256 * unat hi"

lemma divisor_bytes: "unat (r :: u32) < 65536 \<Longrightarrow> divisor (ucast r) (ucast (drop_bit 8 r)) = unat r"
proof -
  assume r: "unat r < 65536"
  have "unat (ucast r :: u8) = unat r mod 256" by (simp add: unsigned_ucast_eq take_bit_eq_mod)
  moreover have "unat (ucast (drop_bit 8 r) :: u8) = unat r div 256 mod 256"
    by (simp add: unsigned_ucast_eq unsigned_drop_bit_eq take_bit_eq_mod drop_bit_eq_div unat_div_distrib)
  moreover have "unat r div 256 < 256" using r by (simp add: less_mult_imp_div_less)
  ultimately show ?thesis by (simp add: divisor_def)
qed


lemma pit_ports_chips:
  "pics_ready m c (Out8 0x40 a # Out8 0x40 b # Out8 0x43 d # h) = pics_ready m c h"
  "line_masked m c (Out8 0x40 a # Out8 0x40 b # Out8 0x43 d # h) i = line_masked m c h i"
  by (simp_all add: pics_ready_def line_masked_def)

section \<open>Theorems\<close>

text \<open>
  Once \<open>pit_init\<close> returns the timer divides its clock by 1193, so that it ticks at the rate of
  the scheduler, the timer routine is attached to vector 32 and line 0 of the controllers is
  unmasked. It fails only by the panic when there is no memory for the handler.
\<close>

theorem pit_init_starts_clock:
  assumes "isr_wf env lo hi s" "isr \<noteq> 0" "attached env s 32 es" "pics (i_dev env) m c" "pics_ready m c (ports s)"
  shows "pit_init env k isr s = Some (Inl (Panic ''could not register PIT interrupt handler'')) \<or>
    (\<exists>s' a b. pit_init env k isr s = Some (Inr s') \<and> isr_wf env lo hi s' \<and> attached env s' 32 (es @ [(k, isr)]) \<and>
       \<not> line_masked m c (ports s') 0 \<and> divisor a b = 1193282 div 1000 \<and>
       {Out8 0x43 0x36, Out8 0x40 a, Out8 0x40 b} \<subseteq> set (ports s'))"
proof -
  let ?a = "ucast (1193 :: u32) :: u8" and ?b = "ucast (drop_bit 8 (1193 :: u32)) :: u8"
  let ?h = "Out8 0x40 ?b # Out8 0x40 ?a # Out8 0x43 0x36 # ports s"
  have init: "pit_init env k isr s = map_option (\<lambda>r. rbind r (\<lambda>(ret, s).
      if ret \<noteq> 0 then Inl (Panic ''could not register PIT interrupt handler'') else Inr s)) (request_irq env 0 k isr (s\<lparr>ports := ?h\<rparr>))"
    by (simp add: pit_init_def port_defs pit_defs KERNEL_SCHED_HZ_def Let_def)
  have "divisor ?a ?b = 1193282 div 1000" using divisor_bytes [of 1193] by simp
  moreover obtain r s' where r: "request_irq env 0 k isr (s\<lparr>ports := ?h\<rparr>) = Some (Inr (r, s'))" "isr_wf env lo hi s'"
    "\<exists>e. ports s' = e @ ?h"
    "r = 1 \<or> r = 0 \<and> attached env s' 32 (es @ [(k, isr)]) \<and> \<not> line_masked m c (ports s') 0"
    using request_irq_cases [of env lo hi "s\<lparr>ports := ?h\<rparr>" 0 isr es m c k] assms by (auto simp: pit_ports_chips)
  moreover have "{Out8 0x43 0x36, Out8 0x40 ?a, Out8 0x40 ?b} \<subseteq> set (ports s')" using r(3) by auto
  ultimately have "\<exists>a b. divisor a b = 1193282 div 1000 \<and> {Out8 0x43 0x36, Out8 0x40 a, Out8 0x40 b} \<subseteq> set (ports s')" by blast
  then show ?thesis unfolding init r(1) using r(2,4) by auto
qed

theorem pit_init_starts_clock_witness:
  "pit_init isr_env1 5 0xC0105000 (isr_init isr_env1 interrupts0) = Some (Inl (Panic ''could not register PIT interrupt handler'')) \<or>
   (\<exists>s'. pit_init isr_env1 5 0xC0105000 (isr_init isr_env1 interrupts0) = Some (Inr s') \<and> attached isr_env1 s' 32 [(5, 0xC0105000)])"
proof -
  have "i_dev isr_env1 = pc" by (simp add: isr_env1_def)
  then show ?thesis
    using pit_init_starts_clock [OF interrupts1_wf, of "0xC0105000" "[]" chip0 chip0 5] interrupts1_empty [of 32] pc_pics pics_ready0
    by (auto simp: interrupts1_ports)
qed

text \<open>
  The divisor of the speaker channel is exact for every frequency: it is the base frequency
  divided by the requested one, forced between 100 and 44100 Hz, and never zero or too big for
  sixteen bits.
\<close>

theorem beep_divisor:
  "\<exists>a b v. pit_beep_start dev freq h = [Out8 0x61 (v OR 3), In8 0x61 v, Out8 0x42 b, Out8 0x42 a, Out8 0x43 0xB6] @ h \<and>
     divisor a b = 1193282 div max 100 (min 44100 (unat freq))"
proof -
  let ?f = "if freq < 100 then 100 else if freq > 44100 then 44100 else freq"
  have f: "unat ?f = max 100 (min 44100 (unat freq))" by (auto simp: word_less_nat_alt)
  have r: "unat (1193282 div ?f :: u32) = 1193282 div max 100 (min 44100 (unat freq))"
    by (simp only: unat_div_distrib f) simp
  have "1193282 div max 100 (min 44100 (unat freq)) \<le> 1193282 div 100" by (rule div_le_mono2) auto
  then have "divisor (ucast (1193282 div ?f :: u32)) (ucast (drop_bit 8 (1193282 div ?f :: u32))) = 1193282 div max 100 (min 44100 (unat freq))"
    using r by (subst divisor_bytes) auto
  moreover have "(let f = if freq < 100 then 100 else freq in if f > 44100 then 44100 else f) = ?f"
    by (simp add: Let_def)
  ultimately show ?thesis by (auto simp: pit_beep_start_def port_defs pit_defs Let_def)
qed

text \<open>
  Stopping the speaker clears every bit of the control port, not only the two that connect the
  speaker, whatever the port held.
\<close>

theorem beep_stop_clears_port: "\<exists>v. pit_beep_stop dev h = [Out8 0x61 0, In8 0x61 v] @ h"
  by (simp add: pit_beep_stop_def port_defs Let_def)

end
