(* ===== verification/Gdt.thy ===== *)
theory Gdt
  imports Prelude
begin

text \<open>
  The global descriptor table, \<open>i386/gdt.c\<close> and \<open>i386/gdt.h\<close>: the packing of a segment's base,
  limit and flags into a 64-bit descriptor, and the five descriptors of the kernel.
\<close>

section \<open>Data\<close>

definition GDT_KERNEL_CODE :: u16 where "GDT_KERNEL_CODE = 0xC09A"
definition GDT_KERNEL_DATA :: u16 where "GDT_KERNEL_DATA = 0xC092"
definition GDT_USER_CODE :: u16 where "GDT_USER_CODE = 0xC0FA"
definition GDT_USER_DATA :: u16 where "GDT_USER_DATA = 0xC0F2"
definition GDT_NUM_ENTRIES :: nat where "GDT_NUM_ENTRIES = 5"

text \<open>
  The union \<open>gdt_entry_t\<close>: the 64 bits, and the little-endian view of them as fields.
\<close>

type_synonym gdt_entry_t = u64

record gdt_fields =
  limit :: u16
  base_low :: u16
  base_mid :: u8
  access :: u8
  granularity :: u8
  base_hi :: u8

definition entry_fields :: "gdt_entry_t \<Rightarrow> gdt_fields" where
  "entry_fields e = \<lparr>limit = ucast e, base_low = ucast (drop_bit 16 e), base_mid = ucast (drop_bit 32 e),
     access = ucast (drop_bit 40 e), granularity = ucast (drop_bit 48 e), base_hi = ucast (drop_bit 56 e)\<rparr>"

record gdt_ptr_t =
  gp_size :: u16
  gp_offset :: u32

text \<open>
  \<open>gptr\<close> and \<open>gdt\<close>, and of the processor the table register, the code selector and the data
  selectors.
\<close>

record gdt_state =
  gptr :: gdt_ptr_t
  gdt :: "gdt_entry_t list"
  gdtr :: gdt_ptr_t
  cs_sel :: u16
  ds_sel :: u16

section \<open>The C functions\<close>

definition gdt_create_entry :: "u32 \<Rightarrow> u32 \<Rightarrow> u16 \<Rightarrow> gdt_entry_t" where
  "gdt_create_entry base lim flags =
     (let desc = 0;
          desc = desc OR ucast (base AND 0xFF000000);
          desc = desc OR ucast (push_bit 8 (ucast flags :: u32) AND 0x00F00000);
          desc = desc OR ucast (lim AND 0x000F0000);
          desc = desc OR ucast (push_bit 8 (ucast flags :: u32) AND 0x0000FF00);
          desc = desc OR ucast (drop_bit 16 base AND 0x000000FF);
          desc = push_bit 32 desc;
          desc = desc OR ucast (push_bit 16 base AND 0xFFFF0000);
          desc = desc OR ucast (lim AND 0x0000FFFF)
      in desc)"

text \<open>The assembly routine \<open>gdt_load\<close>: \<open>lgdt gptr\<close>, then the selectors.\<close>

definition gdt_load :: "gdt_state \<Rightarrow> gdt_state" where
  "gdt_load s = s\<lparr>gdtr := gptr s, ds_sel := 0x10, cs_sel := 0x08\<rparr>"

definition gdt_init :: "addr \<Rightarrow> gdt_state \<Rightarrow> gdt_state" where
  "gdt_init gdt_addr s =
     (let s = s\<lparr>gptr := \<lparr>gp_size = of_nat (GDT_NUM_ENTRIES * 8 - 1), gp_offset = gdt_addr\<rparr>\<rparr>;
          s = s\<lparr>gdt := (gdt s)[0 := gdt_create_entry 0 0 0]\<rparr>;
          s = s\<lparr>gdt := (gdt s)[1 := gdt_create_entry 0 0xFFFFFFFF GDT_KERNEL_CODE]\<rparr>;
          s = s\<lparr>gdt := (gdt s)[2 := gdt_create_entry 0 0xFFFFFFFF GDT_KERNEL_DATA]\<rparr>;
          s = s\<lparr>gdt := (gdt s)[3 := gdt_create_entry 0 0xFFFFFFFF GDT_USER_CODE]\<rparr>;
          s = s\<lparr>gdt := (gdt s)[4 := gdt_create_entry 0 0xFFFFFFFF GDT_USER_DATA]\<rparr>
      in gdt_load s)"

section \<open>What the processor reads\<close>

text \<open>The segment of a descriptor, after the processor manual.\<close>

definition seg_base :: "gdt_entry_t \<Rightarrow> u32" where
  "seg_base e = (let f = entry_fields e in
     ucast (base_low f) OR push_bit 16 (ucast (base_mid f)) OR push_bit 24 (ucast (base_hi f)))"

definition seg_limit :: "gdt_entry_t \<Rightarrow> u32" where
  "seg_limit e = (let f = entry_fields e in ucast (limit f) OR push_bit 16 (ucast (granularity f AND 0x0F)))"

definition seg_flags :: "gdt_entry_t \<Rightarrow> u16" where
  "seg_flags e = (let f = entry_fields e in ucast (access f) OR push_bit 8 (ucast (granularity f AND 0xF0)))"

definition dpl :: "gdt_entry_t \<Rightarrow> u8" where
  "dpl e = drop_bit 5 (access (entry_fields e)) AND 3"

text \<open>The last byte of a segment: with the granularity bit set the limit counts pages.\<close>

definition seg_last :: "gdt_entry_t \<Rightarrow> u32" where
  "seg_last e = (if bit (granularity (entry_fields e)) 7 then push_bit 12 (seg_limit e) OR 0xFFF else seg_limit e)"

section \<open>Lemmas\<close>

lemma bit_entry_terms:
  "bit (gdt_create_entry base lim flags) i \<longleftrightarrow>
     (32 \<le> i \<and> i < 64 \<and>
       (24 \<le> i - 32 \<and> i - 32 < 24 + 8 \<and> bit base (i - 32)
        \<or> 20 \<le> i - 32 \<and> i - 32 < 20 + 4 \<and> 8 \<le> i - 32 \<and> i - 32 < 32 \<and> bit flags (i - 32 - 8)
        \<or> 16 \<le> i - 32 \<and> i - 32 < 16 + 4 \<and> bit lim (i - 32)
        \<or> 8 \<le> i - 32 \<and> i - 32 < 8 + 8 \<and> 8 \<le> i - 32 \<and> i - 32 < 32 \<and> bit flags (i - 32 - 8)
        \<or> i - 32 < 8 \<and> bit base (16 + (i - 32)))
      \<or> 16 \<le> i \<and> i < 16 + 16 \<and> 16 \<le> i \<and> i < 32 \<and> bit base (i - 16)
      \<or> i < 16 \<and> bit lim i)"
  unfolding gdt_create_entry_def Let_def field_masks or.left_neutral
  by (simp only: bit_or_iff bit_part bit_shifted simp_thms disj_assoc)

lemma bit_entry:
  "bit (gdt_create_entry base lim flags) i \<longleftrightarrow>
     (if i < 16 then bit lim i else if i < 40 then bit base (i - 16) else if i < 48 then bit flags (i - 40)
      else if i < 52 then bit lim (i - 32) else if i < 56 then bit flags (i - 40) else i < 64 \<and> bit base (i - 32))"
proof -
  consider "i < 16" | "16 \<le> i" "i < 32" | "32 \<le> i" "i < 40" | "40 \<le> i" "i < 48" | "48 \<le> i" "i < 52"
    | "52 \<le> i" "i < 56" | "56 \<le> i" "i < 64" | "64 \<le> i" by linarith
  then show ?thesis unfolding bit_entry_terms by cases (simp_all add: le_diff_conv2 less_diff_conv2)
qed

lemma seg_base_entry: "seg_base (gdt_create_entry base lim flags) = base"
proof (rule bit_word_eqI)
  fix i assume "i < LENGTH(32)"
  then have "i < 16 \<or> 16 \<le> i \<and> i < 24 \<or> 24 \<le> i \<and> i < 32" by auto
  then show "bit (seg_base (gdt_create_entry base lim flags)) i = bit base i"
    unfolding seg_base_def entry_fields_def Let_def gdt_fields.simps bit_or_iff bit_shifted(1-3) field_bits bit_entry
    by (elim disjE) (simp_all add: less_diff_conv2 bit_drop_bit_eq bit_entry)
qed

lemma seg_limit_entry: "seg_limit (gdt_create_entry base lim flags) = lim AND 0xFFFFF"
proof (rule bit_word_eqI)
  fix i assume "i < LENGTH(32)"
  then have "i < 16 \<or> 16 \<le> i \<and> i < 20 \<or> 20 \<le> i \<and> i < 32" by auto
  then show "bit (seg_limit (gdt_create_entry base lim flags)) i = bit (lim AND 0xFFFFF) i"
    unfolding seg_limit_def entry_fields_def Let_def gdt_fields.simps field_masks bit_or_iff bit_and_iff bit_mask_iff
      bit_shifted(1-3) field_bits bit_entry
    by (elim disjE) (simp_all add: less_diff_conv2)
qed

lemma seg_flags_entry: "seg_flags (gdt_create_entry base lim flags) = flags AND 0xF0FF"
proof (rule bit_word_eqI)
  fix i assume "i < LENGTH(16)"
  then have "i < 8 \<or> 8 \<le> i \<and> i < 12 \<or> 12 \<le> i \<and> i < 16" by auto
  moreover have "(0xF0FF :: u16) = mask 8 OR push_bit 12 (mask 4)" by (simp add: mask_eq_exp_minus_1)
  moreover have "bit (push_bit k (x :: u16)) i \<longleftrightarrow> k \<le> i \<and> i < 16 \<and> bit x (i - k)" for k x
    by (auto simp: bit_simps)
  ultimately show "bit (seg_flags (gdt_create_entry base lim flags)) i = bit (flags AND 0xF0FF) i"
    unfolding seg_flags_def entry_fields_def Let_def gdt_fields.simps field_masks
    by (elim disjE) (simp_all only: bit_or_iff bit_and_iff bit_mask_iff field_bits bit_entry, simp_all add: less_diff_conv2 le_diff_conv2)
qed

section \<open>Theorems\<close>

text \<open>
  A descriptor holds what it was made of: the processor reads back the base, the low twenty
  bits of the limit, the access byte and the flag bits, each from its own field.
\<close>

theorem gdt_entry_roundtrip:
  "seg_base (gdt_create_entry base lim flags) = base \<and>
   seg_limit (gdt_create_entry base lim flags) = lim AND 0xFFFFF \<and>
   seg_flags (gdt_create_entry base lim flags) = flags AND 0xF0FF"
  by (simp add: seg_base_entry seg_limit_entry seg_flags_entry)

text \<open>
  After \<open>gdt_init\<close> the loaded table has a null descriptor and four flat segments: code and
  data of the kernel at privilege level 0, code and data of user programs at level 3, each
  starting at 0 and ending with the last byte of the 4 GiB address space. The selectors the
  processor runs with are those of the kernel segments.
\<close>

theorem gdt_init_flat:
  assumes "length (gdt s) = 5" and t_def: "t = gdt_init a s"
  shows "length (gdt t) = 5 \<and> gdt t ! 0 = 0 \<and>
    (\<forall>i \<in> {1..4}. seg_base (gdt t ! i) = 0 \<and> seg_last (gdt t ! i) = 0xFFFFFFFF) \<and>
    map dpl (gdt t) = [0, 0, 0, 3, 3] \<and>
    gdtr t = \<lparr>gp_size = 39, gp_offset = a\<rparr> \<and> cs_sel t = 8 * 1 \<and> ds_sel t = 8 * 2"
proof -
  obtain e0 e1 e2 e3 e4 where "gdt s = [e0, e1, e2, e3, e4]"
    using assms(1) by (auto simp: numeral_eq_Suc length_Suc_conv)
  moreover have "{1..4} = {1, 2, 3, 4 :: nat}" by auto
  ultimately show ?thesis
    unfolding t_def gdt_init_def
    by (simp add: Let_def gdt_load_def GDT_NUM_ENTRIES_def GDT_KERNEL_CODE_def GDT_KERNEL_DATA_def GDT_USER_CODE_def GDT_USER_DATA_def
        seg_base_def seg_last_def seg_limit_def dpl_def entry_fields_def gdt_create_entry_def bit_numeral_rec)
qed

definition gdt_state0 :: gdt_state where
  "gdt_state0 = \<lparr>gptr = \<lparr>gp_size = 0, gp_offset = 0\<rparr>, gdt = replicate 5 0, gdtr = \<lparr>gp_size = 0, gp_offset = 0\<rparr>, cs_sel = 0, ds_sel = 0\<rparr>"

theorem gdt_init_flat_witness: "seg_last (gdt (gdt_init 0xC0110000 gdt_state0) ! 3) = 0xFFFFFFFF"
  using gdt_init_flat [of gdt_state0 _ "0xC0110000", OF _ refl] by (simp add: gdt_state0_def)

end
