(* ===== verification/Spinlock.thy ===== *)
theory Spinlock
  imports Prelude
begin

text \<open>
  The spin lock, \<open>i386/spinlock.c\<close>, as an interleaving of the steps of any number of threads that
  share one lock. A step is one access to the lock word: the atomic compare and swap, one test
  of the inner loop, the barrier and the store of the unlock.
\<close>

section \<open>The C functions\<close>

record spinlock_t =
  lockval :: u32

text \<open>Where a thread is: outside, before the swap, in the inner loop, holding the lock, past the barrier of the unlock.\<close>

datatype spot = Outside | Swapping | Spinning | Holding | Fenced

definition compare_and_swap :: "u32 \<Rightarrow> u32 \<Rightarrow> spinlock_t \<Rightarrow> bool \<times> spinlock_t" where
  "compare_and_swap old new l = (if lockval l = old then (True, l\<lparr>lockval := new\<rparr>) else (False, l))"

text \<open>
  \<open>while(!compare_and_swap(&lock->lockval, 0, 1)) { while(lock->lockval); }\<close>, one access at a time.
\<close>

fun spin_lock :: "spot \<Rightarrow> spinlock_t \<Rightarrow> spot \<times> spinlock_t" where
  "spin_lock Swapping l = (let (ok, l) = compare_and_swap 0 1 l in (if ok then Holding else Spinning, l))"
| "spin_lock Spinning l = (if lockval l \<noteq> 0 then Spinning else Swapping, l)"
| "spin_lock at l = (at, l)"

fun spin_unlock :: "spot \<Rightarrow> spinlock_t \<Rightarrow> spot \<times> spinlock_t" where
  "spin_unlock Holding l = (Fenced, l)"
| "spin_unlock Fenced l = (Outside, l\<lparr>lockval := 0\<rparr>)"
| "spin_unlock at l = (at, l)"

text \<open>Both only change their own copies of the arguments.\<close>

definition spin_lock_save :: "addr \<Rightarrow> u32 \<Rightarrow> spinlock_t \<Rightarrow> spinlock_t" where
  "spin_lock_save lock flags l = l"

definition spin_unlock_restore :: "addr \<Rightarrow> u32 \<Rightarrow> spinlock_t \<Rightarrow> spinlock_t" where
  "spin_unlock_restore lock flags l = l"

section \<open>Interleavings\<close>

record threads =
  the_lock :: spinlock_t
  spot_of :: "nat \<Rightarrow> spot"

definition moves :: "nat \<Rightarrow> (spot \<Rightarrow> spinlock_t \<Rightarrow> spot \<times> spinlock_t) \<Rightarrow> threads \<Rightarrow> threads" where
  "moves p f s = (let (at, l) = f (spot_of s p) (the_lock s) in s\<lparr>the_lock := l, spot_of := (spot_of s)(p := at)\<rparr>)"

text \<open>
  A thread outside may call \<open>spin_lock\<close>, a thread that holds the lock may call \<open>spin_unlock\<close>; a
  thread inside one of the two goes on.
\<close>

inductive step :: "threads \<Rightarrow> threads \<Rightarrow> bool" where
  enter: "spot_of s p = Outside \<Longrightarrow> step s (s\<lparr>spot_of := (spot_of s)(p := Swapping)\<rparr>)"
| lock: "spot_of s p \<in> {Swapping, Spinning} \<Longrightarrow> step s (moves p spin_lock s)"
| unlock: "spot_of s p \<in> {Holding, Fenced} \<Longrightarrow> step s (moves p spin_unlock s)"

inductive reachable :: "threads \<Rightarrow> bool" where
  start: "lockval (the_lock s) = 0 \<Longrightarrow> (\<forall>p. spot_of s p = Outside) \<Longrightarrow> reachable s"
| more: "reachable s \<Longrightarrow> step s t \<Longrightarrow> reachable t"

inductive_cases step_cases: "step s t"

section \<open>Mutual exclusion\<close>

definition owns :: "spot \<Rightarrow> bool" where
  "owns at \<longleftrightarrow> at = Holding \<or> at = Fenced"

text \<open>The lock word is 1 exactly while some thread owns the lock, and no two threads own it.\<close>

definition lock_inv :: "threads \<Rightarrow> bool" where
  "lock_inv s \<longleftrightarrow> lockval (the_lock s) = (if \<exists>p. owns (spot_of s p) then 1 else 0) \<and>
     (\<forall>p q. owns (spot_of s p) \<longrightarrow> owns (spot_of s q) \<longrightarrow> p = q)"

lemma owns_simps [simp]: "owns Holding" "owns Fenced" "\<not> owns Outside" "\<not> owns Swapping" "\<not> owns Spinning"
  by (simp_all add: owns_def)

lemma lock_inv_step: "step s t \<Longrightarrow> lock_inv s \<Longrightarrow> lock_inv t"
proof (induction rule: step.induct)
  case (enter s p)
  then have "owns (((spot_of s)(p := Swapping)) q) \<longleftrightarrow> owns (spot_of s q)" for q by auto
  with enter show ?case by (simp add: lock_inv_def)
next
  case (lock s p)
  then have "\<not> owns (spot_of s p)" by auto
  show ?case
  proof (cases "spot_of s p = Swapping \<and> lockval (the_lock s) = 0")
    case True
    then have "\<not> owns (spot_of s q)" for q using lock(2) by (auto simp: lock_inv_def split: if_splits)
    then show ?thesis using True by (simp add: lock_inv_def moves_def compare_and_swap_def Let_def)
  next
    case False
    then obtain at where at: "moves p spin_lock s = s\<lparr>spot_of := (spot_of s)(p := at)\<rparr>" "\<not> owns at"
      using lock(1) by (auto simp: moves_def compare_and_swap_def Let_def)
    then have "owns (((spot_of s)(p := at)) q) \<longleftrightarrow> owns (spot_of s q)" for q
      using \<open>\<not> owns (spot_of s p)\<close> by auto
    then show ?thesis using lock(2) at(1) by (simp add: lock_inv_def)
  qed
next
  case (unlock s p)
  then have p: "owns (spot_of s p)" "\<And>q. owns (spot_of s q) \<Longrightarrow> q = p" by (auto simp: lock_inv_def)
  show ?case
  proof (cases "spot_of s p = Holding")
    case True
    then have "owns (((spot_of s)(p := Fenced)) q) \<longleftrightarrow> owns (spot_of s q)" for q by auto
    then show ?thesis using unlock(2) True by (simp add: lock_inv_def moves_def)
  next
    case False
    then have "spot_of s p = Fenced" using unlock(1) by auto
    moreover have "\<not> owns (((spot_of s)(p := Outside)) q)" for q using p(2) by auto
    ultimately show ?thesis by (simp add: lock_inv_def moves_def)
  qed
qed

lemma reachable_lock_inv: "reachable s \<Longrightarrow> lock_inv s"
proof (induction rule: reachable.induct)
  case (start s)
  then show ?case by (simp add: lock_inv_def)
next
  case (more s t)
  then show ?case using lock_inv_step by blast
qed

section \<open>Theorems\<close>

text \<open>
  C30. Mutual exclusion: in every reachable state of any number of threads at most one of them holds
  the lock, and the lock word is 0 exactly when none does.
\<close>

theorem spin_lock_exclusive:
  assumes "reachable s"
  shows "(spot_of s p = Holding \<longrightarrow> spot_of s q = Holding \<longrightarrow> p = q) \<and>
    (lockval (the_lock s) = 0 \<longleftrightarrow> (\<forall>p. spot_of s p \<notin> {Holding, Fenced}))"
  using reachable_lock_inv [OF assms] by (auto simp: lock_inv_def owns_def split: if_splits)

definition threads0 :: threads where
  "threads0 = \<lparr>the_lock = \<lparr>lockval = 0\<rparr>, spot_of = (\<lambda>_. Outside)\<rparr>"

lemma threads1_reachable: "reachable (moves 3 spin_lock (threads0\<lparr>spot_of := (\<lambda>_. Outside)(3 := Swapping)\<rparr>))"
proof -
  have "reachable threads0" by (rule reachable.start) (simp_all add: threads0_def)
  moreover have "step threads0 (threads0\<lparr>spot_of := (\<lambda>_. Outside)(3 := Swapping)\<rparr>)"
    using step.enter [of threads0 3] by (simp add: threads0_def)
  ultimately show ?thesis using reachable.more step.lock by (metis fun_upd_same insertI1 threads.select_convs(2) threads.surjective threads.update_convs(2))
qed

theorem spin_lock_exclusive_witness:
  "lockval (the_lock (moves 3 spin_lock (threads0\<lparr>spot_of := (\<lambda>_. Outside)(3 := Swapping)\<rparr>))) \<noteq> 0"
proof -
  let ?s = "moves 3 spin_lock (threads0\<lparr>spot_of := (\<lambda>_. Outside)(3 := Swapping)\<rparr>)"
  have "spot_of ?s 3 = Holding" by (simp add: moves_def compare_and_swap_def threads0_def)
  then show ?thesis using spin_lock_exclusive [OF threads1_reachable, of 3 3] by auto
qed

text \<open>
  No thread waits for a free lock: when the lock word is 0, a waiting thread holds the lock after
  at most two of its own steps.
\<close>

lemma spin_lock_progress:
  assumes "spot_of s p \<in> {Swapping, Spinning}" "lockval (the_lock s) = 0"
  shows "spot_of (moves p spin_lock s) p = Holding \<or> spot_of (moves p spin_lock (moves p spin_lock s)) p = Holding"
  using assms by (auto simp: moves_def compare_and_swap_def Let_def)

end
