(* ===== verification/Pci.thy ===== *)
theory Pci
  imports Ports Kalloc_Spec Linked
begin

text \<open>
  The PCI bus, \<open>i386/pci.c\<close> and \<open>kernel/pci.h\<close>: access to the configuration space through its
  address and data ports, and the enumeration of all functions into a linked list.
\<close>

section \<open>Data\<close>

definition CFG_ADDRESS :: u16 where "CFG_ADDRESS = 0xCF8"
definition CFG_DATA :: u16 where "CFG_DATA = 0xCFC"
definition CFG_W_VENDORID :: u8 where "CFG_W_VENDORID = 0x00"
definition CFG_W_DEVICEID :: u8 where "CFG_W_DEVICEID = 0x02"
definition CFG_B_SUBCLASSID :: u8 where "CFG_B_SUBCLASSID = 0x0A"
definition CFG_B_CLASSID :: u8 where "CFG_B_CLASSID = 0x0B"
definition CFG_B_HEADERTYPE :: u8 where "CFG_B_HEADERTYPE = 0x0E"
definition CFG0_B_INTLINE :: u8 where "CFG0_B_INTLINE = 0x3C"

lemmas pci_consts = CFG_ADDRESS_def CFG_DATA_def CFG_W_VENDORID_def CFG_W_DEVICEID_def CFG_B_SUBCLASSID_def
  CFG_B_CLASSID_def CFG_B_HEADERTYPE_def CFG0_B_INTLINE_def

record pci_dev_t =
  bus :: u8
  devn :: u8
  func :: u8
  vendorid :: u16
  deviceid :: u16
  dev_class :: u8
  sub_class :: u8
  headertype :: u8
  intline :: u8
  pci_next :: addr

text \<open>\<open>sizeof(pci_dev_t)\<close>, with the byte of padding before \<open>vendorid\<close>.\<close>

definition SIZEOF_PCI_DEV :: u32 where "SIZEOF_PCI_DEV = 16"

record pci =
  pci_heap :: heap
  pdevs :: "addr \<Rightarrow> pci_dev_t"
  pci_dev_list :: addr
  pci_ports :: history

section \<open>The C functions\<close>

definition calc_pci_addr :: "pci_dev_t \<Rightarrow> u8 \<Rightarrow> u32" where
  "calc_pci_addr pdev offset =
     0x80000000 OR
     (push_bit 16 (ucast (bus pdev)) AND 0x00FF0000) OR
     (push_bit 11 (ucast (devn pdev)) AND 0x0000F800) OR
     (push_bit 8 (ucast (func pdev)) AND 0x00000700) OR
     (ucast offset AND 0x000000FC)"

definition pci_readl :: "device \<Rightarrow> pci_dev_t \<Rightarrow> u8 \<Rightarrow> history \<Rightarrow> u32 \<times> history" where
  "pci_readl dev pdev offset h = inl dev CFG_DATA (outl CFG_ADDRESS (calc_pci_addr pdev offset) h)"

definition pci_readw :: "device \<Rightarrow> pci_dev_t \<Rightarrow> u8 \<Rightarrow> history \<Rightarrow> u16 \<times> history" where
  "pci_readw dev pdev offset h =
     (let (v, h) = pci_readl dev pdev offset h in (ucast (drop_bit (unat (offset AND 2) * 8) v AND 0xFFFF), h))"

definition pci_readb :: "device \<Rightarrow> pci_dev_t \<Rightarrow> u8 \<Rightarrow> history \<Rightarrow> u8 \<times> history" where
  "pci_readb dev pdev offset h =
     (let (v, h) = pci_readl dev pdev offset h in (ucast (drop_bit (unat (offset AND 3) * 8) v AND 0xFF), h))"

definition pci_writel :: "pci_dev_t \<Rightarrow> u8 \<Rightarrow> u32 \<Rightarrow> history \<Rightarrow> history" where
  "pci_writel pdev offset v h = outl CFG_DATA v (outl CFG_ADDRESS (calc_pci_addr pdev offset) h)"

definition pci_writew :: "device \<Rightarrow> pci_dev_t \<Rightarrow> u8 \<Rightarrow> u16 \<Rightarrow> history \<Rightarrow> history" where
  "pci_writew dev pdev offset v h =
     (let (t, h) = pci_readl dev pdev offset h;
          m = NOT (push_bit (unat (offset AND 2) * 8) (0xFFFF :: u32));
          s = push_bit (unat (offset AND 2) * 8) (ucast v);
          t = t AND m OR s
      in pci_writel pdev offset t h)"

definition pci_writeb :: "device \<Rightarrow> pci_dev_t \<Rightarrow> u8 \<Rightarrow> u8 \<Rightarrow> history \<Rightarrow> history" where
  "pci_writeb dev pdev offset v h =
     (let (t, h) = pci_readl dev pdev offset h;
          m = NOT (push_bit (unat (offset AND 3) * 8) (0xFF :: u32));
          s = push_bit (unat (offset AND 3) * 8) (ucast v);
          t = t AND m OR s
      in pci_writel pdev offset t h)"

definition pci_dev0 :: pci_dev_t where
  "pci_dev0 = \<lparr>bus = 0, devn = 0, func = 0, vendorid = 0, deviceid = 0, dev_class = 0, sub_class = 0, headertype = 0, intline = 0, pci_next = 0\<rparr>"

text \<open>The assignments of \<open>add_pci_dev\<close> to the new structure.\<close>

definition fill_pci_dev :: "device \<Rightarrow> u8 \<Rightarrow> u8 \<Rightarrow> u8 \<Rightarrow> pci_dev_t \<Rightarrow> history \<Rightarrow> pci_dev_t \<times> history" where
  "fill_pci_dev dev b d f p h =
     (let p = p\<lparr>pci_next := 0\<rparr>;
          p = p\<lparr>bus := b\<rparr>;
          p = p\<lparr>devn := d\<rparr>;
          p = p\<lparr>func := f\<rparr>;
          (v, h) = pci_readw dev p CFG_W_VENDORID h; p = p\<lparr>vendorid := v\<rparr>;
          (v, h) = pci_readw dev p CFG_W_DEVICEID h; p = p\<lparr>deviceid := v\<rparr>;
          (v, h) = pci_readb dev p CFG_B_CLASSID h; p = p\<lparr>dev_class := v\<rparr>;
          (v, h) = pci_readb dev p CFG_B_SUBCLASSID h; p = p\<lparr>sub_class := v\<rparr>;
          (v, h) = pci_readb dev p CFG_B_HEADERTYPE h; p = p\<lparr>headertype := v\<rparr>
      in if headertype p = 0 then let (v, h) = pci_readb dev p CFG0_B_INTLINE h in (p\<lparr>intline := v\<rparr>, h)
         else (p, h))"

definition add_pci_dev :: "device \<Rightarrow> u8 \<Rightarrow> u8 \<Rightarrow> u8 \<Rightarrow> pci \<Rightarrow> pci result option" where
  "add_pci_dev dev b d f s =
     (case kmalloc (pci_heap s) SIZEOF_PCI_DEV of
        None \<Rightarrow> None
      | Some (Inl e) \<Rightarrow> Some (Inl e)
      | Some (Inr (p, hp)) \<Rightarrow>
          let s = s\<lparr>pci_heap := hp\<rparr> in
          if p = 0 then Some (Inr s)
          else
            let (x, h) = fill_pci_dev dev b d f pci_dev0 (pci_ports s);
                s = s\<lparr>pdevs := (pdevs s)(p := x), pci_ports := h\<rparr>
            in map_option (\<lambda>(l, m). Inr (s\<lparr>pci_dev_list := l, pdevs := m\<rparr>))
                 (list_link pci_next (\<lambda>v. pci_next_update (\<lambda>_. v)) p (pci_dev_list s) (pdevs s)))"

text \<open>
  The loops of \<open>pci_init\<close>; \<open>dummy\<close> is the local structure, of which only the three numbers are set.
\<close>

definition dummy :: "u8 \<Rightarrow> u8 \<Rightarrow> u8 \<Rightarrow> pci_dev_t" where
  "dummy b d f = pci_dev0\<lparr>bus := b, devn := d, func := f\<rparr>"

definition scan_func :: "device \<Rightarrow> u8 \<Rightarrow> u8 \<Rightarrow> u8 \<Rightarrow> pci \<Rightarrow> pci result option" where
  "scan_func dev b d f s =
     (let (v, h) = pci_readw dev (dummy b d f) CFG_W_VENDORID (pci_ports s); s = s\<lparr>pci_ports := h\<rparr> in
      if v = 0xFFFF then Some (Inr s) else add_pci_dev dev b d f s)"

definition scan_dev :: "device \<Rightarrow> u8 \<Rightarrow> u8 \<Rightarrow> pci \<Rightarrow> pci result option" where
  "scan_dev dev b d s =
     (let (v, h) = pci_readw dev (dummy b d 0) CFG_W_VENDORID (pci_ports s); s = s\<lparr>pci_ports := h\<rparr> in
      if v = 0xFFFF then Some (Inr s)
      else case add_pci_dev dev b d 0 s of
          None \<Rightarrow> None
        | Some (Inl e) \<Rightarrow> Some (Inl e)
        | Some (Inr s) \<Rightarrow>
            let (ht, h) = pci_readb dev (dummy b d 0) CFG_B_HEADERTYPE (pci_ports s); s = s\<lparr>pci_ports := h\<rparr> in
            if ht AND 0x80 \<noteq> 0 then each_opt (\<lambda>f. scan_func dev b d (of_nat f)) [1..<8] s else Some (Inr s))"

definition pci_init :: "device \<Rightarrow> pci \<Rightarrow> pci result option" where
  "pci_init dev s =
     each_opt (\<lambda>b. each_opt (\<lambda>d. scan_dev dev (of_nat b) (of_nat d)) [0..<32]) [0..<256] s"

text \<open>The values \<open>pci_print_info\<close> prints for each function.\<close>

partial_function (option) pci_print_loop :: "addr \<Rightarrow> pci \<Rightarrow> (u8 \<times> u8 \<times> u8 \<times> u16 \<times> u16 \<times> u8 \<times> u8) list
    \<Rightarrow> (u8 \<times> u8 \<times> u8 \<times> u16 \<times> u16 \<times> u8 \<times> u8) list option" where
  "pci_print_loop p s out =
     (if p \<noteq> 0
      then let x = pdevs s p in
           pci_print_loop (pci_next x) s
             (out @ [(bus x, devn x, func x, vendorid x, deviceid x, dev_class x, sub_class x)])
      else Some out)"

definition pci_print_info :: "pci \<Rightarrow> (u8 \<times> u8 \<times> u8 \<times> u16 \<times> u16 \<times> u8 \<times> u8) list option" where
  "pci_print_info s = pci_print_loop (pci_dev_list s) s []"

definition pci_search :: "u16 \<Rightarrow> u16 \<Rightarrow> pci \<Rightarrow> addr option" where
  "pci_search vid did s = walk_find pci_next (\<lambda>p. vendorid p = vid \<and> deviceid p = did) (pdevs s) (pci_dev_list s)"

section \<open>The bus\<close>

interpretation pq: linked pci_next "\<lambda>v. pci_next_update (\<lambda>_. v)"
  by unfold_locales simp_all

text \<open>
  \<open>pci_host dev cfg\<close>: reading the data port right after an address was written returns the
  double word of the configuration space at that address, which does not change meanwhile.
\<close>

definition pci_host :: "device \<Rightarrow> (u32 \<Rightarrow> u32) \<Rightarrow> bool" where
  "pci_host dev cfg \<longleftrightarrow> (\<forall>a h. dev32 dev (Out32 0xCF8 a # h) 0xCFC = cfg a)"

definition cfg_w :: "(u32 \<Rightarrow> u32) \<Rightarrow> pci_dev_t \<Rightarrow> u8 \<Rightarrow> u16" where
  "cfg_w cfg p off = ucast (drop_bit (unat (off AND 2) * 8) (cfg (calc_pci_addr p off)) AND 0xFFFF)"

definition cfg_b :: "(u32 \<Rightarrow> u32) \<Rightarrow> pci_dev_t \<Rightarrow> u8 \<Rightarrow> u8" where
  "cfg_b cfg p off = ucast (drop_bit (unat (off AND 3) * 8) (cfg (calc_pci_addr p off)) AND 0xFF)"

lemma pci_reads:
  assumes "pci_host dev cfg"
  shows "pci_readw dev p off h = (cfg_w cfg p off, In32 0xCFC (cfg (calc_pci_addr p off)) # Out32 0xCF8 (calc_pci_addr p off) # h)"
    "pci_readb dev p off h = (cfg_b cfg p off, In32 0xCFC (cfg (calc_pci_addr p off)) # Out32 0xCF8 (calc_pci_addr p off) # h)"
  using assms by (simp_all add: pci_host_def pci_readw_def pci_readb_def pci_readl_def cfg_w_def cfg_b_def port_defs pci_consts Let_def)

lemma cfg_fields:
  "cfg_w cfg (p\<lparr>vendorid := v\<rparr>) = cfg_w cfg p" "cfg_b cfg (p\<lparr>vendorid := v\<rparr>) = cfg_b cfg p"
  "cfg_w cfg (p\<lparr>deviceid := v\<rparr>) = cfg_w cfg p" "cfg_b cfg (p\<lparr>deviceid := v\<rparr>) = cfg_b cfg p"
  "cfg_b cfg (p\<lparr>dev_class := c\<rparr>) = cfg_b cfg p" "cfg_b cfg (p\<lparr>sub_class := c\<rparr>) = cfg_b cfg p"
  "cfg_b cfg (p\<lparr>headertype := c\<rparr>) = cfg_b cfg p" "cfg_b cfg (p\<lparr>intline := c\<rparr>) = cfg_b cfg p"
  by (simp_all add: fun_eq_iff cfg_w_def cfg_b_def calc_pci_addr_def)

lemma cfg_same:
  "bus p = bus q \<Longrightarrow> devn p = devn q \<Longrightarrow> func p = func q \<Longrightarrow> cfg_w cfg p off = cfg_w cfg q off \<and> cfg_b cfg p off = cfg_b cfg q off"
  by (simp add: cfg_w_def cfg_b_def calc_pci_addr_def)

text \<open>The number of a function, and that a structure holds what the bus says of it.\<close>

definition bdf :: "pci_dev_t \<Rightarrow> u8 \<times> u8 \<times> u8" where
  "bdf x = (bus x, devn x, func x)"

definition describes :: "(u32 \<Rightarrow> u32) \<Rightarrow> pci_dev_t \<Rightarrow> bool" where
  "describes cfg x \<longleftrightarrow> vendorid x = cfg_w cfg x 0x00 \<and> deviceid x = cfg_w cfg x 0x02 \<and> dev_class x = cfg_b cfg x 0x0B \<and>
     sub_class x = cfg_b cfg x 0x0A \<and> headertype x = cfg_b cfg x 0x0E \<and>
     intline x = (if headertype x = 0 then cfg_b cfg x 0x3C else 0)"

lemma fill_describes:
  assumes "pci_host dev cfg" "fill_pci_dev dev b d f pci_dev0 h = (x, h')"
  shows "describes cfg x \<and> bdf x = (b, d, f) \<and> pci_next x = 0"
proof -
  define p where "p = pci_dev0\<lparr>pci_next := 0, bus := b, devn := d, func := f\<rparr>"
  let ?y = "p\<lparr>vendorid := cfg_w cfg p 0x00, deviceid := cfg_w cfg p 0x02, dev_class := cfg_b cfg p 0x0B,
      sub_class := cfg_b cfg p 0x0A, headertype := cfg_b cfg p 0x0E\<rparr>"
  have x: "x = (if headertype ?y = 0 then ?y\<lparr>intline := cfg_b cfg p 0x3C\<rparr> else ?y)"
    using assms(2) unfolding fill_pci_dev_def Let_def pci_reads [OF assms(1)] prod.case cfg_fields pci_consts p_def [symmetric]
    by (simp split: if_splits)
  have b: "bdf x = (b, d, f)" "pci_next x = 0" unfolding x by (simp_all add: bdf_def p_def)
  then have "cfg_w cfg x off = cfg_w cfg p off" "cfg_b cfg x off = cfg_b cfg p off" for off
    using cfg_same [of x p] by (simp_all add: p_def bdf_def)
  moreover have "intline p = 0" by (simp add: p_def pci_dev0_def)
  then have "vendorid x = cfg_w cfg p 0x00" "deviceid x = cfg_w cfg p 0x02" "dev_class x = cfg_b cfg p 0x0B"
    "sub_class x = cfg_b cfg p 0x0A" "headertype x = cfg_b cfg p 0x0E" "intline x = (if headertype x = 0 then cfg_b cfg p 0x3C else 0)"
    unfolding x by simp_all
  ultimately show ?thesis using b unfolding describes_def by simp
qed


section \<open>Enumeration\<close>

text \<open>The functions the bus has, in the order of the search.\<close>

definition found_dev :: "(u32 \<Rightarrow> u32) \<Rightarrow> u8 \<Rightarrow> u8 \<Rightarrow> (u8 \<times> u8 \<times> u8) list" where
  "found_dev cfg b d =
     (if cfg_w cfg (dummy b d 0) 0 = 0xFFFF then []
      else (b, d, 0) # (if cfg_b cfg (dummy b d 0) 0x0E AND 0x80 \<noteq> 0
        then concat (map (\<lambda>f. if cfg_w cfg (dummy b d (of_nat f)) 0 = 0xFFFF then [] else [(b, d, of_nat f)]) [1..<8]) else []))"

definition found :: "(u32 \<Rightarrow> u32) \<Rightarrow> (u8 \<times> u8 \<times> u8) list" where
  "found cfg = concat (map (\<lambda>b. concat (map (\<lambda>d. found_dev cfg (of_nat b) (of_nat d)) [0..<32])) [0..<256])"

text \<open>
  \<open>listed cfg fs s as\<close>: the list holds, in order, the functions \<open>fs\<close> or as many of them as there was
  memory for.
\<close>

definition listed :: "(u32 \<Rightarrow> u32) \<Rightarrow> (u8 \<times> u8 \<times> u8) list \<Rightarrow> pci \<Rightarrow> addr list \<Rightarrow> bool" where
  "listed cfg fs s as \<longleftrightarrow> heap_wf (pci_heap s) \<and> llist pci_next (pdevs s) (pci_dev_list s) as \<and>
     (\<forall>a \<in> set as. (\<exists>m. heap_live (pci_heap s) a m) \<and> describes cfg (pdevs s a)) \<and>
     length as \<le> length fs \<and> map (\<lambda>a. bdf (pdevs s a)) as = take (length as) fs \<and>
     (length as < length fs \<longrightarrow> kmalloc (pci_heap s) SIZEOF_PCI_DEV = Some (Inr (0, pci_heap s)))"

definition pci_inv :: "(u32 \<Rightarrow> u32) \<Rightarrow> (u8 \<times> u8 \<times> u8) list \<Rightarrow> pci \<Rightarrow> bool" where
  "pci_inv cfg fs s \<longleftrightarrow> (\<exists>as. listed cfg fs s as)"

lemma pci_inv_ports [simp]: "pci_inv cfg fs (s\<lparr>pci_ports := h\<rparr>) = pci_inv cfg fs s"
  by (simp add: pci_inv_def listed_def)

lemma req_ok_pci: "req_ok SIZEOF_PCI_DEV"
  by (simp add: req_ok_def SIZEOF_PCI_DEV_def)

lemma linked_same:
  assumes "only_links (\<lambda>v. pci_next_update (\<lambda>_. v)) A m m'"
  shows "describes cfg (m' a) = describes cfg (m a)" "bdf (m' a) = bdf (m a)"
proof -
  obtain v where "m' a = m a\<lparr>pci_next := v\<rparr>" using assms by (auto simp: only_links_def)
  then show "describes cfg (m' a) = describes cfg (m a)" "bdf (m' a) = bdf (m a)"
    by (simp_all add: describes_def bdf_def cfg_w_def cfg_b_def calc_pci_addr_def)
qed

lemma add_pci_dev_listed:
  assumes host: "pci_host dev cfg" and l: "listed cfg fs s as"
  shows "\<exists>s'. add_pci_dev dev b d f s = Some (Inr s') \<and> pci_inv cfg (fs @ [(b, d, f)]) s'"
proof -
  have wf: "heap_wf (pci_heap s)" and ll: "llist pci_next (pdevs s) (pci_dev_list s) as"
    and le: "length as \<le> length fs" and mp: "map (\<lambda>a. bdf (pdevs s a)) as = take (length as) fs"
    using l by (auto simp: listed_def)
  show ?thesis
  proof (cases rule: km.alloc_cases [OF wf req_ok_pci, case_names null block])
    case null
    then have "listed cfg (fs @ [(b, d, f)]) s as" using l le by (auto simp: listed_def)
    moreover have "s\<lparr>pci_heap := pci_heap s\<rparr> = s" by simp
    ultimately show ?thesis using null by (auto simp: add_pci_dev_def pci_inv_def)
  next
    case (block p hp m)
    obtain x h where x: "fill_pci_dev dev b d f pci_dev0 (pci_ports s) = (x, h)" by force
    note fx = fill_describes [OF host x]
    let ?m = "(pdevs s)(p := x)"
    have len: "length as = length fs" using l le block(1,2) by (auto simp: listed_def)
    have p: "p \<notin> set as" using l block(5) by (auto simp: listed_def)
    have "llist pci_next ?m (pci_dev_list s) as = llist pci_next (pdevs s) (pci_dev_list s) as"
      by (rule lseg_cong) (use p in auto)
    then obtain hd' m' where hm: "list_link pci_next (\<lambda>v. pci_next_update (\<lambda>_. v)) p (pci_dev_list s) ?m = Some (hd', m')"
      "llist pci_next m' hd' (as @ [p])" "only_links (\<lambda>v. pci_next_update (\<lambda>_. v)) (set as) ?m m'"
      using pq.list_link_ok [of ?m "pci_dev_list s" as p] ll p block(2) fx by auto
    let ?s = "s\<lparr>pci_heap := hp, pdevs := m', pci_dev_list := hd', pci_ports := h\<rparr>"
    have "map (\<lambda>a. bdf (m' a)) as = map (\<lambda>a. bdf (pdevs s a)) as"
      by (rule map_cong [OF refl]) (use p linked_same(2) [OF hm(3)] in auto)
    then have "map (\<lambda>a. bdf (m' a)) as = fs" using mp len by simp
    moreover have "bdf (m' p) = (b, d, f)" using linked_same(2) [OF hm(3)] fx by simp
    moreover have "describes cfg (m' a)" if "a \<in> set (as @ [p])" for a
      using that l p fx linked_same(1) [OF hm(3)] by (auto simp: listed_def)
    moreover have "\<exists>m. heap_live hp a m" if "a \<in> set (as @ [p])" for a
      using that l block(6) by (auto simp: listed_def)
    ultimately have "listed cfg (fs @ [(b, d, f)]) ?s (as @ [p])"
      using block(3) hm(2) len by (simp add: listed_def)
    moreover have "add_pci_dev dev b d f s = Some (Inr ?s)"
      using block(1,2) x hm(1) by (simp add: add_pci_dev_def)
    ultimately show ?thesis by (auto simp: pci_inv_def)
  qed
qed

lemma add_pci_dev_inv:
  "pci_host dev cfg \<Longrightarrow> pci_inv cfg fs s \<Longrightarrow> \<exists>s'. add_pci_dev dev b d f s = Some (Inr s') \<and> pci_inv cfg (fs @ [(b, d, f)]) s'"
  using add_pci_dev_listed unfolding pci_inv_def by blast

lemma scan_func_inv:
  assumes "pci_host dev cfg" "pci_inv cfg fs s"
  shows "\<exists>s'. scan_func dev b d f s = Some (Inr s') \<and>
    pci_inv cfg (fs @ (if cfg_w cfg (dummy b d f) 0 = 0xFFFF then [] else [(b, d, f)])) s'"
  using assms add_pci_dev_inv [OF assms(1)]
  by (simp add: scan_func_def pci_reads [OF assms(1)] CFG_W_VENDORID_def)

lemma scan_dev_inv:
  assumes host: "pci_host dev cfg" and inv: "pci_inv cfg fs s"
  shows "\<exists>s'. scan_dev dev b d s = Some (Inr s') \<and> pci_inv cfg (fs @ found_dev cfg b d) s'"
proof (cases "cfg_w cfg (dummy b d 0) 0 = 0xFFFF")
  case True
  then show ?thesis using inv by (simp add: scan_dev_def pci_reads [OF host] CFG_W_VENDORID_def found_dev_def)
next
  case False
  let ?c = "calc_pci_addr (dummy b d 0) 0"
  obtain s1 where s1: "add_pci_dev dev b d 0 (s\<lparr>pci_ports := In32 0xCFC (cfg ?c) # Out32 0xCF8 ?c # pci_ports s\<rparr>) = Some (Inr s1)"
    "pci_inv cfg (fs @ [(b, d, 0)]) s1"
    using add_pci_dev_inv [OF host, of fs] inv by (metis pci_inv_ports)
  let ?e = "calc_pci_addr (dummy b d 0) 0x0E"
  let ?s = "s1\<lparr>pci_ports := In32 0xCFC (cfg ?e) # Out32 0xCF8 ?e # pci_ports s1\<rparr>"
  have "\<exists>s'. each_opt (\<lambda>f. scan_func dev b d (of_nat f)) [1..<8] ?s = Some (Inr s') \<and>
      pci_inv cfg ((fs @ [(b, d, 0)]) @ concat (map (\<lambda>f. if cfg_w cfg (dummy b d (of_nat f)) 0 = 0xFFFF then [] else [(b, d, of_nat f)]) [1..<8])) s'"
    by (rule each_opt_collects [where I = "pci_inv cfg"]) (use scan_func_inv [OF host] s1(2) in simp_all)
  then show ?thesis using False s1
    by (simp add: scan_dev_def pci_reads [OF host] CFG_W_VENDORID_def CFG_B_HEADERTYPE_def found_dev_def)
qed

lemma pci_init_inv:
  assumes host: "pci_host dev cfg" and inv: "pci_inv cfg [] s"
  shows "\<exists>s'. pci_init dev s = Some (Inr s') \<and> pci_inv cfg (found cfg) s'"
proof -
  have row: "\<exists>s'. each_opt (\<lambda>d. scan_dev dev b (of_nat d)) [0..<32] s = Some (Inr s') \<and>
      pci_inv cfg (fs @ concat (map (\<lambda>d. found_dev cfg b (of_nat d)) [0..<32])) s'" if "pci_inv cfg fs s" for b fs s
    by (rule each_opt_collects [where I = "pci_inv cfg"]) (use scan_dev_inv [OF host] that in simp_all)
  have "\<exists>s'. each_opt (\<lambda>b. each_opt (\<lambda>d. scan_dev dev (of_nat b) (of_nat d)) [0..<32]) [0..<256] s = Some (Inr s') \<and>
      pci_inv cfg ([] @ concat (map (\<lambda>b. concat (map (\<lambda>d. found_dev cfg (of_nat b) (of_nat d)) [0..<32])) [0..<256])) s'"
    by (rule each_opt_collects [where I = "pci_inv cfg"]) (use row inv in blast)+
  then show ?thesis unfolding pci_init_def found_def by simp
qed


section \<open>Theorems\<close>

text \<open>
  C28. \<open>pci_init\<close> always returns, with the list of the functions of the bus in the order of bus,
  device and function number, each described by what its configuration space holds. The list is
  cut short only when there is no memory for one more entry.
\<close>

theorem pci_init_finds:
  assumes "pci_host dev cfg" "heap_wf (pci_heap s)" "pci_dev_list s = 0"
  shows "\<exists>s' as. pci_init dev s = Some (Inr s') \<and> heap_wf (pci_heap s') \<and>
    llist pci_next (pdevs s') (pci_dev_list s') as \<and> (\<forall>a \<in> set as. describes cfg (pdevs s' a)) \<and>
    map (\<lambda>a. bdf (pdevs s' a)) as = take (length as) (found cfg) \<and>
    (length as = length (found cfg) \<or> kmalloc (pci_heap s') SIZEOF_PCI_DEV = Some (Inr (0, pci_heap s')))"
proof -
  have "pci_inv cfg [] s" unfolding pci_inv_def listed_def using assms(2,3) by (intro exI [of _ "[]"]) simp
  from pci_init_inv [OF assms(1) this] show ?thesis unfolding pci_inv_def listed_def by (metis le_neq_implies_less)
qed

text \<open>A bus without any function, and one with a network card at 0:3.0.\<close>

definition bus0 :: "u32 \<Rightarrow> u32" where
  "bus0 a = (if a = 0x80001800 then 0x813910EC else if a AND 0xFFFFFF00 = 0x80001800 then 0 else 0xFFFFFFFF)"

definition pci_machine :: device where
  "pci_machine = \<lparr>dev8 = (\<lambda>h p. 0), dev16 = (\<lambda>h p. 0), dev32 = (\<lambda>h p. case h of Out32 _ a # _ \<Rightarrow> bus0 a | _ \<Rightarrow> 0)\<rparr>"

definition pci0 :: pci where
  "pci0 = \<lparr>pci_heap = heap1, pdevs = (\<lambda>_. pci_dev0), pci_dev_list = 0, pci_ports = []\<rparr>"

theorem pci_init_finds_witness:
  "\<exists>s' as. pci_init pci_machine pci0 = Some (Inr s') \<and> llist pci_next (pdevs s') (pci_dev_list s') as \<and>
     map (\<lambda>a. bdf (pdevs s' a)) as = take (length as) (found bus0)"
  using pci_init_finds [of pci_machine bus0 pci0] heap1_wf
  by (auto simp: pci_host_def pci_machine_def pci0_def)

text \<open>
  \<open>pci_search\<close> returns the first function of the list with the given ids, or null.
\<close>

lemma pci_search_first:
  "llist pci_next (pdevs s) (pci_dev_list s) as \<Longrightarrow>
   pci_search vid did s = Some (case find (\<lambda>a. vendorid (pdevs s a) = vid \<and> deviceid (pdevs s a) = did) as of None \<Rightarrow> 0 | Some a \<Rightarrow> a)"
  unfolding pci_search_def by (rule walk_find_first)


lemma lane_bits:
  fixes t :: u32
  assumes "k + n \<le> 32"
  shows "bit (t AND NOT (push_bit k (mask n)) OR push_bit k (take_bit n w)) i \<longleftrightarrow> (if k \<le> i \<and> i < k + n then bit w (i - k) else bit t i)"
proof (cases "i < 32")
  case True
  then show ?thesis using assms by (auto simp: bit_simps)
next
  case False
  then have "\<not> bit x i" for x :: u32 using bit_imp_le_length [of x i] by auto
  then show ?thesis using False assms by auto
qed

lemma lane_index: "unat (off AND 3 :: u8) < 4" "unat (off AND 2 :: u8) \<le> 2"
proof -
  have "off AND 3 \<le> 3" "off AND 2 \<le> 2" by (rule word_and_le1)+
  then show "unat (off AND 3) < 4" "unat (off AND 2) \<le> 2" by (simp_all add: word_le_nat_alt)
qed

text \<open>
  Writing a byte of the configuration space reads the double word around it and writes it back
  with exactly that byte replaced, all other bits as the device returned them.
\<close>

theorem pci_writeb_exact:
  "\<exists>t t'. pci_writeb dev p off v h =
      [Out32 0xCFC t', Out32 0xCF8 (calc_pci_addr p off), In32 0xCFC t, Out32 0xCF8 (calc_pci_addr p off)] @ h \<and>
    (\<forall>i. bit t' i \<longleftrightarrow> (let k = 8 * unat (off AND 3) in if k \<le> i \<and> i < k + 8 then bit v (i - k) else bit t i))"
proof -
  let ?k = "unat (off AND 3) * 8"
  have m: "(0xFF :: u32) = mask 8" by (simp add: mask_eq_exp_minus_1)
  have v: "(ucast v :: u32) = take_bit 8 (ucast v)"
    by (rule bit_word_eqI) (auto simp: bit_simps dest: bit_imp_le_length)
  have le: "?k + 8 \<le> 32" using lane_index(1) [of off] by simp
  have "bit (t AND NOT (push_bit ?k (0xFF :: u32)) OR push_bit ?k (ucast v)) i \<longleftrightarrow> (if ?k \<le> i \<and> i < ?k + 8 then bit v (i - ?k) else bit t i)"
    for t :: u32 and i
    unfolding m by (subst v, subst lane_bits [OF le]) (auto simp: bit_simps)
  then show ?thesis by (simp add: pci_writeb_def pci_writel_def pci_readl_def port_defs pci_consts Let_def mult.commute)
qed

end
