(* ===== verification/Arp.thy ===== *)
theory Arp
  imports Kalloc_Spec Linked Cstring
begin

text \<open>
  The link and network layers, \<open>kernel/ether.c\<close>, \<open>kernel/ip.c\<close>, \<open>kernel/arp.c\<close> and
  \<open>kernel/endian.h\<close>: reception of Ethernet frames, the byte order of their fields, and the cache
  of address resolutions.
\<close>

section \<open>Byte order\<close>

definition ENDIANSWAP16 :: "u16 \<Rightarrow> u16" where
  "ENDIANSWAP16 x = push_bit 8 (x AND 0x00FF) OR drop_bit 8 (x AND 0xFF00)"

definition ENDIANSWAP32 :: "u32 \<Rightarrow> u32" where
  "ENDIANSWAP32 x = push_bit 24 (x AND 0x000000FF) OR push_bit 8 (x AND 0x0000FF00) OR
     drop_bit 8 (x AND 0x00FF0000) OR drop_bit 24 (x AND 0xFF000000)"

section \<open>Addresses\<close>

text \<open>The octet arrays, six and four bytes.\<close>

type_synonym ether_addr_t = "u8 list"
type_synonym ip_addr_t = "u8 list"

definition ether_get_local :: ether_addr_t where
  "ether_get_local = [0x01, 0x23, 0x45, 0x67, 0x89, 0xAB]"

definition ether_get_broadcast :: ether_addr_t where
  "ether_get_broadcast = [0xFF, 0xFF, 0xFF, 0xFF, 0xFF, 0xFF]"

definition ether_cmp :: "ether_addr_t \<Rightarrow> ether_addr_t \<Rightarrow> bool" where
  "ether_cmp a b \<longleftrightarrow> a ! 0 = b ! 0 \<and> a ! 1 = b ! 1 \<and> a ! 2 = b ! 2 \<and> a ! 3 = b ! 3 \<and> a ! 4 = b ! 4 \<and> a ! 5 = b ! 5"

definition ip_get_local :: ip_addr_t where
  "ip_get_local = [12, 34, 56, 78]"

definition ip_cmp :: "ip_addr_t \<Rightarrow> ip_addr_t \<Rightarrow> bool" where
  "ip_cmp a b \<longleftrightarrow> a ! 0 = b ! 0 \<and> a ! 1 = b ! 1 \<and> a ! 2 = b ! 2 \<and> a ! 3 = b ! 3"

section \<open>Packets in memory\<close>

definition ETHERTYPE_IP4 :: u16 where "ETHERTYPE_IP4 = 0x0800"
definition ETHERTYPE_ARP :: u16 where "ETHERTYPE_ARP = 0x0806"
definition HTYPE_ETHERNET :: u16 where "HTYPE_ETHERNET = 1"
definition PTYPE_IP4 :: u16 where "PTYPE_IP4 = ETHERTYPE_IP4"
definition HLEN_ETHERNET :: u8 where "HLEN_ETHERNET = 6"
definition PLEN_IP4 :: u8 where "PLEN_IP4 = 4"
definition OPER_REQUEST :: u16 where "OPER_REQUEST = 1"
definition OPER_REPLY :: u16 where "OPER_REPLY = 2"

lemmas arp_consts = ETHERTYPE_IP4_def ETHERTYPE_ARP_def HTYPE_ETHERNET_def PTYPE_IP4_def HLEN_ETHERNET_def PLEN_IP4_def
  OPER_REQUEST_def OPER_REPLY_def

text \<open>A \<open>uint16_t\<close> field of a packed structure, as the processor loads it, and an array of octets.\<close>

definition load16 :: "mem \<Rightarrow> addr \<Rightarrow> u16" where
  "load16 m a = ucast (m a) OR push_bit 8 (ucast (m (a + 1)))"

definition load_octets :: "mem \<Rightarrow> addr \<Rightarrow> nat \<Rightarrow> u8 list" where
  "load_octets m a n = map (\<lambda>i. m (a + of_nat i)) [0..<n]"

record arp_pkt_t =
  htype :: u16
  ptype :: u16
  hlen :: u8
  plen :: u8
  oper :: u16
  sha :: ether_addr_t
  spa :: ip_addr_t
  tha :: ether_addr_t
  tpa :: ip_addr_t

definition load_arp :: "mem \<Rightarrow> addr \<Rightarrow> arp_pkt_t" where
  "load_arp m a = \<lparr>htype = load16 m a, ptype = load16 m (a + 2), hlen = m (a + 4), plen = m (a + 5), oper = load16 m (a + 6),
     sha = load_octets m (a + 8) 6, spa = load_octets m (a + 14) 4, tha = load_octets m (a + 18) 6, tpa = load_octets m (a + 24) 4\<rparr>"

section \<open>The cache\<close>

record arp_cache_entry_t =
  e_ether :: ether_addr_t
  e_ip :: ip_addr_t
  e_next :: addr

record arp =
  arp_heap :: heap
  entries :: "addr \<Rightarrow> arp_cache_entry_t"
  arp_cache :: addr

definition arp_cache_search :: "ip_addr_t \<Rightarrow> arp \<Rightarrow> addr option" where
  "arp_cache_search ip s = walk_find e_next (\<lambda>e. ip_cmp (e_ip e) ip) (entries s) (arp_cache s)"

text \<open>
  \<open>arp_rx\<close>; the lines that create an entry and that send a reply are commented out. The second
  result tells that the reply is announced.
\<close>

definition arp_rx :: "arp_pkt_t \<Rightarrow> arp \<Rightarrow> (bool \<times> arp) option" where
  "arp_rx a s =
     (if ENDIANSWAP16 (htype a) \<noteq> HTYPE_ETHERNET \<or> ENDIANSWAP16 (ptype a) \<noteq> PTYPE_IP4 \<or>
         hlen a \<noteq> HLEN_ETHERNET \<or> plen a \<noteq> PLEN_IP4 \<or>
         (ENDIANSWAP16 (oper a) \<noteq> OPER_REQUEST \<and> ENDIANSWAP16 (oper a) \<noteq> OPER_REPLY)
      then Some (False, s)
      else map_option (\<lambda>e.
             let s = if e \<noteq> 0 then s\<lparr>entries := upd_at (\<lambda>x. x\<lparr>e_ether := sha a\<rparr>) e (entries s)\<rparr> else s
             in (ip_cmp (tpa a) ip_get_local \<and> ENDIANSWAP16 (oper a) = OPER_REQUEST, s))
           (arp_cache_search (spa a) s))"

definition arp_tx :: "arp_pkt_t \<Rightarrow> arp \<Rightarrow> arp" where
  "arp_tx a s = s"

text \<open>The result and, on success, the hardware address stored for the caller.\<close>

definition arp_resolve :: "ip_addr_t \<Rightarrow> arp \<Rightarrow> (u32 \<times> ether_addr_t option) option" where
  "arp_resolve ip s =
     map_option (\<lambda>e. if e \<noteq> 0 then (0, Some (e_ether (entries s e))) else (1, None)) (arp_cache_search ip s)"

partial_function (option) flush_loop :: "addr \<Rightarrow> arp \<Rightarrow> arp result option" where
  "flush_loop e s =
     (if e \<noteq> 0
      then let tmp = e; e = e_next (entries s e); s = s\<lparr>arp_cache := e\<rparr> in
           case kfree (arp_heap s) tmp of
             Inl x \<Rightarrow> Some (Inl x)
           | Inr h \<Rightarrow> flush_loop e (s\<lparr>arp_heap := h\<rparr>)
      else Some (Inr s))"

definition arp_flush :: "arp \<Rightarrow> arp result option" where
  "arp_flush s = flush_loop (arp_cache s) s"

partial_function (option) arp_print_loop :: "addr \<Rightarrow> arp \<Rightarrow> (addr \<times> ether_addr_t \<times> ip_addr_t \<times> addr) list
    \<Rightarrow> (addr \<times> ether_addr_t \<times> ip_addr_t \<times> addr) list option" where
  "arp_print_loop e s out =
     (if e \<noteq> 0 then let x = entries s e in arp_print_loop (e_next x) s (out @ [(e, e_ether x, e_ip x, e_next x)]) else Some out)"

definition arp_print_info :: "arp \<Rightarrow> (addr \<times> ether_addr_t \<times> ip_addr_t \<times> addr) list option" where
  "arp_print_info s = arp_print_loop (arp_cache s) s []"

section \<open>Frames\<close>

definition ip_rx :: "addr \<Rightarrow> arp \<Rightarrow> arp" where
  "ip_rx ip s = s"

text \<open>\<open>&(ether->payload)\<close> is the address of the field, 14 bytes into the frame.\<close>

definition ether_rx :: "mem \<Rightarrow> addr \<Rightarrow> arp \<Rightarrow> arp option" where
  "ether_rx m ether s =
     (let t = ENDIANSWAP16 (load16 m (ether + 12)) in
      if t = ETHERTYPE_ARP then map_option snd (arp_rx (load_arp m (ether + 14)) s)
      else if t = ETHERTYPE_IP4 then Some (ip_rx (ether + 14) s)
      else Some s)"

section \<open>Lemmas\<close>

interpretation aq: linked e_next "\<lambda>v. e_next_update (\<lambda>_. v)"
  by unfold_locales simp_all

lemma swap16_bits: "bit (ENDIANSWAP16 x) i \<longleftrightarrow> (if i < 8 then bit x (i + 8) else i < 16 \<and> bit x (i - 8))"
proof -
  have m: "(0x00FF :: u16) = mask 8" "(0xFF00 :: u16) = push_bit 8 (mask 8)" by (simp_all add: mask_eq_exp_minus_1)
  have h: "bit (x AND mask 8) j \<longleftrightarrow> j < 8 \<and> bit x j" "bit (x AND push_bit 8 (mask 8)) j \<longleftrightarrow> 8 \<le> j \<and> bit x j" for j
    using bit_imp_le_length [of x j] by (auto simp: bit_and_iff bit_mask_iff bit_push_bit_iff)
  show ?thesis unfolding ENDIANSWAP16_def m bit_or_iff bit_push_bit_iff bit_drop_bit_eq h
    by (auto simp: add.commute dest: bit_imp_le_length)
qed

text \<open>A field in network byte order is swapped to its value: the first byte is the high one.\<close>

lemma swap16_load: "ENDIANSWAP16 (load16 m a) = push_bit 8 (ucast (m a)) OR ucast (m (a + 1))"
proof (rule bit_word_eqI)
  fix i assume "i < LENGTH(16)"
  then show "bit (ENDIANSWAP16 (load16 m a)) i = bit (push_bit 8 (ucast (m a)) OR ucast (m (a + 1)) :: u16) i"
    unfolding swap16_bits load16_def
    by (cases "i < 8") (auto simp: bit_or_iff bit_push_bit_iff bit_unsigned_iff dest: bit_imp_le_length)
qed

lemma swap16_twice: "ENDIANSWAP16 (ENDIANSWAP16 x) = x"
  by (rule bit_word_eqI) (auto simp: swap16_bits)

lemma ip_cmp_iff: "length a = 4 \<Longrightarrow> length b = 4 \<Longrightarrow> ip_cmp a b \<longleftrightarrow> a = b"
  by (auto simp: ip_cmp_def numeral_eq_Suc length_Suc_conv)

lemma ether_cmp_iff: "length a = 6 \<Longrightarrow> length b = 6 \<Longrightarrow> ether_cmp a b \<longleftrightarrow> a = b"
  by (auto simp: ether_cmp_def numeral_eq_Suc length_Suc_conv)

text \<open>The cache as a table from protocol to hardware addresses, earlier entries first.\<close>

definition table :: "arp \<Rightarrow> addr list \<Rightarrow> ip_addr_t \<Rightarrow> ether_addr_t option" where
  "table s as = map_of (map (\<lambda>a. (e_ip (entries s a), e_ether (entries s a))) as)"

definition cache :: "arp \<Rightarrow> addr list \<Rightarrow> bool" where
  "cache s as \<longleftrightarrow> llist e_next (entries s) (arp_cache s) as \<and> heap_wf (arp_heap s) \<and>
     (\<forall>a \<in> set as. length (e_ip (entries s a)) = 4 \<and> (\<exists>m. heap_live (arp_heap s) a m))"

lemma cache_facts:
  assumes "cache s as"
  shows "distinct as" "0 \<notin> set as"
proof -
  have "llist e_next (entries s) (arp_cache s) as" using assms by (simp add: cache_def)
  then show "distinct as" "0 \<notin> set as" by (rule llist_distinct, rule lseg_nonnull)
qed

lemma search_first:
  assumes "cache s as" "length ip = 4"
  shows "arp_cache_search ip s = Some (case find (\<lambda>a. e_ip (entries s a) = ip) as of None \<Rightarrow> 0 | Some a \<Rightarrow> a)"
proof -
  have "find (\<lambda>a. ip_cmp (e_ip (entries s a)) ip) as = find (\<lambda>a. e_ip (entries s a) = ip) as"
    by (rule find_cong [OF refl]) (use assms ip_cmp_iff in \<open>auto simp: cache_def\<close>)
  then show ?thesis using walk_find_first [of e_next "entries s" "arp_cache s" as] assms(1)
    by (simp add: arp_cache_search_def cache_def)
qed

lemma map_of_find: "map_of (map (\<lambda>a. (f a, g a)) as) k = map_option g (find (\<lambda>a. f a = k) as)"
  by (induction as) auto

lemma table_Cons: "table s (a # as) = (table s as)(e_ip (entries s a) \<mapsto> e_ether (entries s a))"
  by (simp add: table_def)

lemma table_cong: "(\<And>a. a \<in> set as \<Longrightarrow> entries s' a = entries s a) \<Longrightarrow> table s' as = table s as"
  unfolding table_def by (rule arg_cong [where f = map_of]) simp

lemma table_update:
  assumes "find (\<lambda>a. e_ip (entries s a) = ip) as = Some e" "distinct as"
  shows "table (s\<lparr>entries := upd_at (\<lambda>x. x\<lparr>e_ether := v\<rparr>) e (entries s)\<rparr>) as = (table s as)(ip \<mapsto> v)"
    (is "table ?s as = _")
  using assms
proof (induction as)
  case (Cons a as)
  show ?case
  proof (cases "e_ip (entries s a) = ip")
    case True
    then have "a = e" using Cons.prems by simp
    moreover have "table ?s as = table s as"
      by (rule table_cong) (use Cons.prems(2) \<open>a = e\<close> in \<open>auto simp: upd_at_apply\<close>)
    ultimately show ?thesis using True by (simp add: table_Cons fun_eq_iff)
  next
    case False
    then have f: "find (\<lambda>a. e_ip (entries s a) = ip) as = Some e" using Cons.prems by simp
    then have "e \<in> set as" by (auto simp: find_Some_iff)
    then have "a \<noteq> e" using Cons.prems(2) by auto
    then show ?thesis using Cons.IH [OF f] Cons.prems(2) False by (auto simp: table_Cons fun_eq_iff)
  qed
qed simp

definition valid_arp :: "arp_pkt_t \<Rightarrow> bool" where
  "valid_arp a \<longleftrightarrow> ENDIANSWAP16 (htype a) = 1 \<and> ENDIANSWAP16 (ptype a) = 0x0800 \<and> hlen a = 6 \<and> plen a = 4 \<and>
     ENDIANSWAP16 (oper a) \<in> {1, 2}"

lemma arp_rx_table:
  assumes c: "cache s as" and l: "length (spa a) = 4"
  shows "\<exists>r s'. arp_rx a s = Some (r, s') \<and> cache s' as \<and>
    table s' as = (if valid_arp a \<and> spa a \<in> dom (table s as) then (table s as)(spa a \<mapsto> sha a) else table s as)"
proof (cases "valid_arp a")
  case False
  then have "arp_rx a s = Some (False, s)" by (auto simp: arp_rx_def valid_arp_def arp_consts)
  then show ?thesis using False c by auto
next
  case True
  let ?f = "find (\<lambda>b. e_ip (entries s b) = spa a) as"
  have rx: "arp_rx a s = map_option (\<lambda>e. (ip_cmp (tpa a) ip_get_local \<and> ENDIANSWAP16 (oper a) = OPER_REQUEST,
      if e \<noteq> 0 then s\<lparr>entries := upd_at (\<lambda>x. x\<lparr>e_ether := sha a\<rparr>) e (entries s)\<rparr> else s)) (arp_cache_search (spa a) s)"
    using True by (auto simp: arp_rx_def valid_arp_def arp_consts Let_def)
  have d: "distinct as" "0 \<notin> set as" using cache_facts [OF c] by auto
  show ?thesis
  proof (cases ?f)
    case None
    then have "spa a \<notin> dom (table s as)" by (simp add: table_def map_of_find domIff)
    then show ?thesis using None c rx search_first [OF c l] by simp
  next
    case (Some e)
    then have e: "e \<noteq> 0" using d(2) by (metis find_Some_iff nth_mem)
    let ?s = "s\<lparr>entries := upd_at (\<lambda>x. x\<lparr>e_ether := sha a\<rparr>) e (entries s)\<rparr>"
    have "llist e_next (entries ?s) (arp_cache s) as = llist e_next (entries s) (arp_cache s) as"
      by (rule lseg_cong) (simp add: upd_at_apply)
    then have "cache ?s as" using c by (auto simp: cache_def upd_at_apply)
    moreover have "spa a \<in> dom (table s as)" using Some by (simp add: table_def map_of_find domIff)
    ultimately show ?thesis using True Some e rx search_first [OF c l] table_update [OF Some d(1)] by simp
  qed
qed

lemma resolve_table:
  assumes "cache s as" "length ip = 4"
  shows "arp_resolve ip s = Some (case table s as ip of None \<Rightarrow> (1, None) | Some e \<Rightarrow> (0, Some e))"
proof (cases "find (\<lambda>a. e_ip (entries s a) = ip) as")
  case None
  then show ?thesis using search_first [OF assms] by (simp add: arp_resolve_def table_def map_of_find)
next
  case (Some e)
  then have "e \<in> set as" by (auto simp: find_Some_iff)
  then have "e \<noteq> 0" using cache_facts(2) [OF assms(1)] by auto
  then show ?thesis using Some search_first [OF assms] by (simp add: arp_resolve_def table_def map_of_find)
qed

lemma flush_loop_frees:
  "llist e_next (entries s) e as \<Longrightarrow> heap_wf (arp_heap s) \<Longrightarrow> \<forall>a \<in> set as. \<exists>m. heap_live (arp_heap s) a m \<Longrightarrow> arp_cache s = e \<Longrightarrow>
   \<exists>s'. flush_loop e s = Some (Inr s') \<and> arp_cache s' = 0 \<and> heap_wf (arp_heap s') \<and>
     (\<forall>q k. heap_live (arp_heap s') q k \<longleftrightarrow> heap_live (arp_heap s) q k \<and> q \<notin> set as)"
proof (induction as arbitrary: e s)
  case Nil
  then show ?case by (subst flush_loop.simps) simp
next
  case (Cons a as)
  have d: "a \<notin> set as" using llist_distinct [OF Cons.prems(1)] by simp
  obtain m where "heap_live (arp_heap s) a m" using Cons.prems(3) by auto
  from km.free_live [OF Cons.prems(2) this] obtain h where h: "kfree (arp_heap s) a = Inr h" "heap_wf h"
    "\<forall>q k. heap_live h q k \<longleftrightarrow> heap_live (arp_heap s) q k \<and> q \<noteq> a" by blast
  let ?s = "s\<lparr>arp_cache := e_next (entries s a), arp_heap := h\<rparr>"
  have "\<forall>b \<in> set as. \<exists>m. heap_live h b m" using Cons.prems(3) h(3) d by (metis list.set_intros(2))
  then obtain s' where "flush_loop (e_next (entries s a)) ?s = Some (Inr s')" "arp_cache s' = 0" "heap_wf (arp_heap s')"
    "\<forall>q k. heap_live (arp_heap s') q k \<longleftrightarrow> heap_live h q k \<and> q \<notin> set as"
    using Cons.IH [of ?s "e_next (entries s a)"] Cons.prems(1) h(2) by auto
  then show ?case using Cons.prems(1) h by (subst flush_loop.simps) auto
qed

section \<open>Theorems\<close>



definition arp0 :: arp where
  "arp0 = \<lparr>arp_heap = heap1, entries = (\<lambda>_. \<lparr>e_ether = [], e_ip = [], e_next = 0\<rparr>), arp_cache = 0\<rparr>"

definition arp_pkt1 :: arp_pkt_t where
  "arp_pkt1 = \<lparr>htype = 0x0100, ptype = 0x0008, hlen = 6, plen = 4, oper = 0x0100, sha = [1, 2, 3, 4, 5, 6], spa = [10, 0, 0, 1],
     tha = [0, 0, 0, 0, 0, 0], tpa = [12, 34, 56, 78]\<rparr>"

lemma arp0_cache: "cache arp0 []"
  by (simp add: cache_def arp0_def heap1_wf)


text \<open>
  \<open>arp_flush\<close> always returns, leaves an empty cache and frees exactly the entries it had.
\<close>

theorem arp_flush_frees:
  assumes "cache s as"
  shows "\<exists>s'. arp_flush s = Some (Inr s') \<and> cache s' [] \<and>
    (\<forall>q k. heap_live (arp_heap s') q k \<longleftrightarrow> heap_live (arp_heap s) q k \<and> q \<notin> set as)"
  using flush_loop_frees [of s "arp_cache s" as] assms by (auto simp: arp_flush_def cache_def)

theorem arp_flush_frees_witness: "\<exists>s'. arp_flush arp0 = Some (Inr s') \<and> cache s' []"
  using arp_flush_frees [OF arp0_cache] by blast

text \<open>
  Since no code creates an entry, nothing is ever learned: starting from the empty cache, after
  any sequence of received frames every resolution fails.
\<close>

theorem arp_never_learns:
  assumes "length ip = 4"
  shows "\<exists>s'. fold (\<lambda>(m, e) r. Option.bind r (ether_rx m e)) fs (Some arp0) = Some s' \<and> arp_resolve ip s' = Some (1, None)"
proof -
  have "\<exists>s'. fold (\<lambda>(m, e) r. Option.bind r (ether_rx m e)) fs (Some s) = Some s' \<and> cache s' []" if "cache s []" for s
    using that
  proof (induction fs arbitrary: s)
    case (Cons f fs)
    have "length (spa (load_arp m a)) = 4" for m a by (simp add: load_arp_def load_octets_def)
    then have "\<exists>s'. ether_rx (fst f) (snd f) s = Some s' \<and> cache s' []"
      using arp_rx_table [OF Cons.prems, of "load_arp (fst f) (snd f + 14)"] Cons.prems
      by (auto simp: ether_rx_def Let_def ip_rx_def)
    then show ?case using Cons.IH by (auto simp: case_prod_beta)
  qed simp
  then obtain s' where s': "fold (\<lambda>(m, e) r. Option.bind r (ether_rx m e)) fs (Some arp0) = Some s'" "cache s' []"
    using arp0_cache by blast
  then show ?thesis using search_first [OF s'(2) assms] by (simp add: arp_resolve_def)
qed

theorem arp_never_learns_witness:
  "\<exists>s'. fold (\<lambda>(m, e) r. Option.bind r (ether_rx m e)) [(\<lambda>_. 0, 0x1000)] (Some arp0) = Some s' \<and>
     arp_resolve [10, 0, 0, 1] s' = Some (1, None)"
  by (rule arp_never_learns) simp

end
