(* ===== verification/Disk.thy ===== *)
theory Disk
  imports Kalloc_Spec Linked
begin

text \<open>
  The disk and volume manager, \<open>kernel/disk.c\<close> and \<open>kernel/disk.h\<close>: the list of drives, the
  reading of a drive's master boot record and the volumes made from its partition table.
\<close>

section \<open>Data\<close>

record lba_t =
  high :: u32
  low :: u32

type_synonym blkcnt_t = lba_t

record drive_t =
  priv :: addr
  d_block_size :: u32
  d_num_blocks :: blkcnt_t
  drive_id :: u32
  readcallback :: addr
  writecallback :: addr
  child_volumes :: addr
  d_next :: addr

record volume_t =
  mounted :: u32
  v_block_size :: u32
  offset_lba :: lba_t
  v_num_blocks :: blkcnt_t
  volume_id :: u32
  parent_drive :: addr
  v_next :: addr

text \<open>\<open>sizeof(volume_t)\<close>: nine 32-bit words.\<close>

definition SIZEOF_VOLUME :: u32 where "SIZEOF_VOLUME = 36"

record disk =
  disk_heap :: heap
  drives :: "addr \<Rightarrow> drive_t"
  vols :: "addr \<Rightarrow> volume_t"
  drive_list :: addr
  next_drive_id :: u32

definition upd_drive :: "(drive_t \<Rightarrow> drive_t) \<Rightarrow> addr \<Rightarrow> 'a disk_scheme \<Rightarrow> 'a disk_scheme" where
  "upd_drive f d s = s\<lparr>drives := upd_at f d (drives s)\<rparr>"

definition upd_vol :: "(volume_t \<Rightarrow> volume_t) \<Rightarrow> addr \<Rightarrow> 'a disk_scheme \<Rightarrow> 'a disk_scheme" where
  "upd_vol f v s = s\<lparr>vols := upd_at f v (vols s)\<rparr>"

section \<open>The boot record\<close>

text \<open>The packed structures are read from the bytes of the sector, little endian.\<close>

definition le16 :: "u8 list \<Rightarrow> nat \<Rightarrow> u16" where
  "le16 bs i = ucast (bs ! i) OR push_bit 8 (ucast (bs ! (i + 1)))"

definition le32 :: "u8 list \<Rightarrow> nat \<Rightarrow> u32" where
  "le32 bs i = ucast (bs ! i) OR push_bit 8 (ucast (bs ! (i + 1))) OR push_bit 16 (ucast (bs ! (i + 2))) OR push_bit 24 (ucast (bs ! (i + 3)))"

record partition_entry_t =
  boot_indicator :: u8
  starting_head :: u8
  starting_sector_cylinder :: u16
  system_id :: u8
  ending_head :: u8
  ending_sector_cylinder :: u16
  relative_sector :: u32
  total_sectors :: u32

definition partition :: "u8 list \<Rightarrow> nat \<Rightarrow> partition_entry_t" where
  "partition bs i = (let o0 = 446 + 16 * i in
     \<lparr>boot_indicator = bs ! o0, starting_head = bs ! (o0 + 1), starting_sector_cylinder = le16 bs (o0 + 2), system_id = bs ! (o0 + 4),
       ending_head = bs ! (o0 + 5), ending_sector_cylinder = le16 bs (o0 + 6), relative_sector = le32 bs (o0 + 8), total_sectors = le32 bs (o0 + 12)\<rparr>)"

definition mbr_signature :: "u8 list \<Rightarrow> u16" where
  "mbr_signature bs = le16 bs 510"

section \<open>The C functions\<close>

definition volume0 :: volume_t where
  "volume0 = \<lparr>mounted = 0, v_block_size = 0, offset_lba = \<lparr>high = 0, low = 0\<rparr>, v_num_blocks = \<lparr>high = 0, low = 0\<rparr>, volume_id = 0,
     parent_drive = 0, v_next = 0\<rparr>"

text \<open>The structure \<open>parse_mbr\<close> fills for entry \<open>i\<close> of the table, after clearing it.\<close>

definition new_volume :: "addr \<Rightarrow> drive_t \<Rightarrow> u8 list \<Rightarrow> nat \<Rightarrow> volume_t" where
  "new_volume d dr bs i =
     (let v = volume0;
          v = v\<lparr>volume_id := of_nat i\<rparr>;
          v = v\<lparr>parent_drive := d\<rparr>;
          v = v\<lparr>v_block_size := d_block_size dr\<rparr>;
          v = v\<lparr>offset_lba := \<lparr>high = 0, low = relative_sector (partition bs i)\<rparr>\<rparr>;
          v = v\<lparr>v_num_blocks := \<lparr>high = 0, low = total_sectors (partition bs i)\<rparr>\<rparr>
      in v)"

text \<open>The loop over the table; the first result is the return value of \<open>parse_mbr\<close>.\<close>

primrec partition_loop :: "addr \<Rightarrow> u8 list \<Rightarrow> nat list \<Rightarrow> 'a disk_scheme \<Rightarrow> (u32 \<times> 'a disk_scheme) result option" where
  "partition_loop d bs [] s = Some (Inr (0, s))"
| "partition_loop d bs (i # is) s =
     (if system_id (partition bs i) = 0 then partition_loop d bs is s
      else case kmalloc (disk_heap s) SIZEOF_VOLUME of
          None \<Rightarrow> None
        | Some (Inl e) \<Rightarrow> Some (Inl e)
        | Some (Inr (v, h)) \<Rightarrow>
            let s = s\<lparr>disk_heap := h\<rparr> in
            if v = 0 then Some (Inr (1, s))
            else
              let s = upd_vol (\<lambda>_. new_volume d (drives s d) bs i) v s in
              case list_link v_next (\<lambda>x. v_next_update (\<lambda>_. x)) v (child_volumes (drives s d)) (vols s) of
                None \<Rightarrow> None
              | Some (l, m) \<Rightarrow>
                  partition_loop d bs is (upd_drive (\<lambda>x. x\<lparr>child_volumes := l\<rparr>) d (s\<lparr>vols := m\<rparr>)))"

text \<open>
  \<open>readcb\<close> stands for the calls through \<open>readcallback\<close>, from the address of the routine: the
  return value, the contents of the buffer of \<open>block_size\<close> bytes and the state after the call,
  which a driver extends with its own variables. The boot record needs 512 bytes.
\<close>

definition parse_mbr ::
  "(addr \<Rightarrow> addr \<Rightarrow> lba_t \<Rightarrow> blkcnt_t \<Rightarrow> 'a disk_scheme \<Rightarrow> (u32 \<times> u8 list \<times> 'a disk_scheme) result option) \<Rightarrow> addr
    \<Rightarrow> 'a disk_scheme \<Rightarrow> (u32 \<times> 'a disk_scheme) result option" where
  "parse_mbr readcb d s =
     (case readcb (readcallback (drives s d)) d \<lparr>high = 0, low = 0\<rparr> \<lparr>high = 0, low = 1\<rparr> s of
        None \<Rightarrow> None
      | Some (Inl e) \<Rightarrow> Some (Inl e)
      | Some (Inr (ret, buf, s)) \<Rightarrow>
          if ret \<noteq> 0 then Some (Inr (1, s))
          else if length buf < 512 then Some (Inl (Fault ''mbr''))
          else if mbr_signature buf \<noteq> 0xAA55 then Some (Inr (1, s))
          else
            let s = upd_drive (\<lambda>x. x\<lparr>drive_id := next_drive_id s\<rparr>) d s;
                s = s\<lparr>next_drive_id := next_drive_id s + 1\<rparr>
            in partition_loop d buf [0..<4] s)"

partial_function (option) free_volumes :: "addr \<Rightarrow> 'a disk_scheme \<Rightarrow> 'a disk_scheme result option" where
  "free_volumes v s =
     (if v \<noteq> 0
      then let t = v_next (vols s v) in
           case kfree (disk_heap s) v of Inl e \<Rightarrow> Some (Inl e) | Inr h \<Rightarrow> free_volumes t (s\<lparr>disk_heap := h\<rparr>)
      else Some (Inr s))"

definition register_drive ::
  "(addr \<Rightarrow> addr \<Rightarrow> lba_t \<Rightarrow> blkcnt_t \<Rightarrow> 'a disk_scheme \<Rightarrow> (u32 \<times> u8 list \<times> 'a disk_scheme) result option) \<Rightarrow> addr
    \<Rightarrow> 'a disk_scheme \<Rightarrow> (u32 \<times> 'a disk_scheme) result option" where
  "register_drive readcb d s =
     (case parse_mbr readcb d s of
        None \<Rightarrow> None
      | Some (Inl e) \<Rightarrow> Some (Inl e)
      | Some (Inr (ret, s)) \<Rightarrow>
          if ret \<noteq> 0
          then map_option (\<lambda>r. rbind r (\<lambda>s. Inr (1, s))) (free_volumes (child_volumes (drives s d)) s)
          else map_option (\<lambda>(l, m). Inr (0, s\<lparr>drive_list := l, drives := m\<rparr>))
                 (list_append d_next (\<lambda>x. d_next_update (\<lambda>_. x)) d (drive_list s) (drives s)))"

text \<open>The loop that frees the volumes up to a mounted one; \<open>True\<close> tells that one was found.\<close>

partial_function (option) remove_volumes :: "addr \<Rightarrow> 'a disk_scheme \<Rightarrow> (bool \<times> 'a disk_scheme) result option" where
  "remove_volumes v s =
     (if v \<noteq> 0
      then if mounted (vols s v) \<noteq> 0 then Some (Inr (True, s))
           else let t = v_next (vols s v) in
             case kfree (disk_heap s) v of Inl e \<Rightarrow> Some (Inl e) | Inr h \<Rightarrow> remove_volumes t (s\<lparr>disk_heap := h\<rparr>)
      else Some (Inr (False, s)))"

definition remove_drive :: "addr \<Rightarrow> 'a disk_scheme \<Rightarrow> (u32 \<times> 'a disk_scheme) result option" where
  "remove_drive d s =
     (case remove_volumes (child_volumes (drives s d)) s of
        None \<Rightarrow> None
      | Some (Inl e) \<Rightarrow> Some (Inl e)
      | Some (Inr (busy, s)) \<Rightarrow>
          if busy then Some (Inr (1, s))
          else if drive_list s = 0 then Some (Inr (1, s))
          else map_option (\<lambda>(found, l, m). Inr (if found then 0 else 1, s\<lparr>drive_list := l, drives := m\<rparr>))
                 (list_remove d_next (\<lambda>x. d_next_update (\<lambda>_. x)) d (drive_list s) (drives s)))"

text \<open>Reading and writing volumes are not written yet: both only fail.\<close>

definition read_volume :: "addr \<Rightarrow> lba_t \<Rightarrow> blkcnt_t \<Rightarrow> addr \<Rightarrow> 'a disk_scheme \<Rightarrow> u32 \<times> 'a disk_scheme" where
  "read_volume v relative_lba num_blocks dest s = (1, s)"

definition write_volume :: "addr \<Rightarrow> lba_t \<Rightarrow> blkcnt_t \<Rightarrow> addr \<Rightarrow> 'a disk_scheme \<Rightarrow> u32 \<times> 'a disk_scheme" where
  "write_volume v relative_lba num_blocks src s = (1, s)"

text \<open>The numbers \<open>disk_print_info\<close> prints: of a drive its id and size, of a volume also its offset.\<close>

partial_function (option) print_volumes :: "addr \<Rightarrow> 'a disk_scheme \<Rightarrow> u32 list list \<Rightarrow> u32 list list option" where
  "print_volumes v s out =
     (if v \<noteq> 0
      then let x = vols s v in
           print_volumes (v_next x) s
             (out @ [[drive_id (drives s (parent_drive x)), volume_id x, high (offset_lba x), low (offset_lba x),
                high (v_num_blocks x), low (v_num_blocks x)]])
      else Some out)"

partial_function (option) print_drives :: "addr \<Rightarrow> 'a disk_scheme \<Rightarrow> u32 list list \<Rightarrow> u32 list list option" where
  "print_drives d s out =
     (if d \<noteq> 0
      then let x = drives s d in
           case print_volumes (child_volumes x) s (out @ [[drive_id x, high (d_num_blocks x), low (d_num_blocks x)]]) of
             None \<Rightarrow> None
           | Some out \<Rightarrow> print_drives (d_next x) s out
      else Some out)"

definition disk_print_info :: "'a disk_scheme \<Rightarrow> u32 list list option" where
  "disk_print_info s = print_drives (drive_list s) s []"

section \<open>Lists of volumes\<close>

interpretation vq: linked v_next "\<lambda>x. v_next_update (\<lambda>_. x)"
  by unfold_locales simp_all

interpretation dq: linked d_next "\<lambda>x. d_next_update (\<lambda>_. x)"
  by unfold_locales simp_all

lemma upd_disk_sel [simp]:
  "disk_heap (upd_vol f v s) = disk_heap s" "drives (upd_vol f v s) = drives s" "vols (upd_vol f v s) = upd_at f v (vols s)"
  "drive_list (upd_vol f v s) = drive_list s" "disk_heap (upd_drive g d s) = disk_heap s" "vols (upd_drive g d s) = vols s"
  "drives (upd_drive g d s) = upd_at g d (drives s)" "drive_list (upd_drive g d s) = drive_list s"
  "next_drive_id (upd_vol f v s) = next_drive_id s" "next_drive_id (upd_drive g d s) = next_drive_id s"
  "disk.more (upd_vol f v s) = disk.more s" "disk.more (upd_drive g d s) = disk.more s"
  by (simp_all add: upd_vol_def upd_drive_def)

text \<open>A volume without its link, and the volumes of a drive, all of them live blocks.\<close>

definition body :: "'a disk_scheme \<Rightarrow> addr \<Rightarrow> volume_t" where
  "body s v = (vols s v)\<lparr>v_next := 0\<rparr>"

definition volumes :: "'a disk_scheme \<Rightarrow> addr \<Rightarrow> addr list \<Rightarrow> bool" where
  "volumes s d vs \<longleftrightarrow> heap_wf (disk_heap s) \<and> llist v_next (vols s) (child_volumes (drives s d)) vs \<and>
     (\<forall>v \<in> set vs. \<exists>m. heap_live (disk_heap s) v m)"

lemma links_body: "only_links (\<lambda>x. v_next_update (\<lambda>_. x)) A m m' \<Longrightarrow> (m' a)\<lparr>v_next := 0\<rparr> = (m a)\<lparr>v_next := 0\<rparr>"
proof -
  assume "only_links (\<lambda>x. v_next_update (\<lambda>_. x)) A m m'"
  then obtain x where "m' a = (m a)\<lparr>v_next := x\<rparr>" unfolding only_links_def by blast
  then show ?thesis by simp
qed

lemma req_ok_volume: "req_ok SIZEOF_VOLUME"
  by (simp add: req_ok_def SIZEOF_VOLUME_def)

lemma new_volume_child [simp]: "new_volume d (dr\<lparr>child_volumes := l\<rparr>) bs i = new_volume d dr bs i"
  by (simp add: new_volume_def Let_def)

text \<open>The blocks that became live are exactly \<open>ws\<close>.\<close>

definition gained :: "heap \<Rightarrow> heap \<Rightarrow> addr list \<Rightarrow> bool" where
  "gained h h' ws \<longleftrightarrow> (\<forall>q \<in> set ws. (\<forall>k. \<not> heap_live h q k) \<and> (\<exists>m. heap_live h' q m)) \<and>
     (\<forall>q k. q \<notin> set ws \<longrightarrow> heap_live h' q k = heap_live h q k)"

lemma gained_Cons:
  assumes "\<forall>k. \<not> heap_live h v k" "\<forall>q k. heap_live h1 q k \<longleftrightarrow> heap_live h q k \<or> q = v \<and> k = m" "gained h1 h2 ws"
  shows "gained h h2 (v # ws)"
proof -
  have "v \<notin> set ws" using assms(2,3) unfolding gained_def by blast
  then show ?thesis using assms unfolding gained_def by (metis set_ConsD list.set_intros)
qed

text \<open>One entry: a fresh volume at the end of the list.\<close>

lemma volume_added:
  assumes vs: "volumes s d vs" and v: "v \<noteq> 0" "heap_wf h" "\<forall>k. \<not> heap_live (disk_heap s) v k"
      "\<forall>q k. heap_live h q k \<longleftrightarrow> heap_live (disk_heap s) q k \<or> q = v \<and> k = m"
    and x: "v_next x = 0" and s1: "s1 = upd_vol (\<lambda>_. x) v (s\<lparr>disk_heap := h\<rparr>)"
  shows "\<exists>l mm. list_link v_next (\<lambda>x. v_next_update (\<lambda>_. x)) v (child_volumes (drives s1 d)) (vols s1) = Some (l, mm) \<and>
    volumes (upd_drive (\<lambda>x. x\<lparr>child_volumes := l\<rparr>) d (s1\<lparr>vols := mm\<rparr>)) d (vs @ [v]) \<and>
    (\<forall>a. (mm a)\<lparr>v_next := 0\<rparr> = (if a = v then x else body s a))"
proof -
  have vn: "v \<notin> set vs" using vs v(3) by (auto simp: volumes_def)
  have "llist v_next (vols s1) (child_volumes (drives s1 d)) vs = llist v_next (vols s) (child_volumes (drives s d)) vs"
    using vn unfolding s1 by (simp, intro lseg_cong) (auto simp: upd_at_apply)
  then have "llist v_next (vols s1) (child_volumes (drives s1 d)) vs" using vs by (simp add: volumes_def)
  from vq.list_link_ok [OF this v(1) vn] obtain l mm where lm:
    "list_link v_next (\<lambda>x. v_next_update (\<lambda>_. x)) v (child_volumes (drives s1 d)) (vols s1) = Some (l, mm)"
    "llist v_next mm l (vs @ [v])" "only_links (\<lambda>x. v_next_update (\<lambda>_. x)) (set vs) (vols s1) mm"
    using x s1 by auto
  have "\<exists>k. heap_live h a k" if "a \<in> set (vs @ [v])" for a using that vs v(4) by (auto simp: volumes_def)
  then have "volumes (upd_drive (\<lambda>x. x\<lparr>child_volumes := l\<rparr>) d (s1\<lparr>vols := mm\<rparr>)) d (vs @ [v])"
    using lm(2) v(2) s1 by (simp add: volumes_def)
  moreover have "(mm a)\<lparr>v_next := 0\<rparr> = (if a = v then x else body s a)" for a
  proof -
    have "x\<lparr>v_next := 0\<rparr> = x" using x by (metis volume_t.surjective volume_t.update_convs(7) volume_t.select_convs(7))
    then show ?thesis using links_body [OF lm(3), of a] s1 by (simp add: body_def upd_at_apply)
  qed
  ultimately show ?thesis using lm(1) by blast
qed

definition used_parts :: "u8 list \<Rightarrow> nat list \<Rightarrow> nat list" where
  "used_parts bs is = filter (\<lambda>i. system_id (partition bs i) \<noteq> 0) is"

lemma partition_loop_ok:
  "volumes s d vs \<Longrightarrow> \<exists>r s' ws l. partition_loop d bs is s = Some (Inr (r, s')) \<and> volumes s' d (vs @ ws) \<and>
    gained (disk_heap s) (disk_heap s') ws \<and> (\<forall>a. a \<notin> set ws \<longrightarrow> body s' a = body s a) \<and>
    (r = 0 \<and> map (body s') ws = map (new_volume d (drives s d) bs) (used_parts bs is) \<or> r = 1) \<and>
    drives s' = upd_at (\<lambda>x. x\<lparr>child_volumes := l\<rparr>) d (drives s) \<and> drive_list s' = drive_list s \<and> next_drive_id s' = next_drive_id s \<and>
    disk.more s' = disk.more s"
proof (induction "is" arbitrary: s vs)
  case Nil
  have "drives s = upd_at (\<lambda>x. x\<lparr>child_volumes := child_volumes (drives s d)\<rparr>) d (drives s)" by (auto simp: upd_at_def)
  then show ?case using Nil
    by (intro exI [of _ 0] exI [of _ s] exI [of _ "[]"] exI [of _ "child_volumes (drives s d)"]) (simp add: gained_def used_parts_def)
next
  case (Cons i "is")
  have wf: "heap_wf (disk_heap s)" using Cons.prems by (simp add: volumes_def)
  show ?case
  proof (cases "system_id (partition bs i) = 0")
    case True
    then show ?thesis using Cons.IH [OF Cons.prems] by (simp add: used_parts_def)
  next
    case False
    show ?thesis
    proof (cases rule: km.alloc_cases [OF wf req_ok_volume, case_names null block])
      case null
      have "drives s = upd_at (\<lambda>x. x\<lparr>child_volumes := child_volumes (drives s d)\<rparr>) d (drives s)" by (auto simp: upd_at_def)
      then show ?thesis using null False Cons.prems
        by (intro exI [of _ 1] exI [of _ s] exI [of _ "[]"] exI [of _ "child_volumes (drives s d)"]) (simp add: gained_def)
    next
      case (block v h m)
      let ?x = "new_volume d (drives s d) bs i"
      define s1 where "s1 = upd_vol (\<lambda>_. ?x) v (s\<lparr>disk_heap := h\<rparr>)"
      have x0: "v_next ?x = 0" by (simp add: new_volume_def Let_def volume0_def)
      obtain l mm where lm: "list_link v_next (\<lambda>x. v_next_update (\<lambda>_. x)) v (child_volumes (drives s1 d)) (vols s1) = Some (l, mm)"
        "volumes (upd_drive (\<lambda>x. x\<lparr>child_volumes := l\<rparr>) d (s1\<lparr>vols := mm\<rparr>)) d (vs @ [v])"
        "\<forall>a. (mm a)\<lparr>v_next := 0\<rparr> = (if a = v then ?x else body s a)"
        using volume_added [OF Cons.prems block(2,3,5,6) x0 s1_def] by blast
      define s2 where "s2 = upd_drive (\<lambda>x. x\<lparr>child_volumes := l\<rparr>) d (s1\<lparr>vols := mm\<rparr>)"
      have body2: "body s2 a = (if a = v then ?x else body s a)" for a using lm(3) by (simp add: body_def s2_def)
      have sel: "disk_heap s2 = h" "drives s2 = upd_at (\<lambda>x. x\<lparr>child_volumes := l\<rparr>) d (drives s)" "drive_list s2 = drive_list s"
        "next_drive_id s2 = next_drive_id s" "disk.more s2 = disk.more s" by (simp_all add: s2_def s1_def)
      obtain r s' ws l' where IH: "partition_loop d bs is s2 = Some (Inr (r, s'))" "volumes s' d ((vs @ [v]) @ ws)"
        "gained (disk_heap s2) (disk_heap s') ws" "\<forall>a. a \<notin> set ws \<longrightarrow> body s' a = body s2 a"
        "r = 0 \<and> map (body s') ws = map (new_volume d (drives s2 d) bs) (used_parts bs is) \<or> r = 1"
        "drives s' = upd_at (\<lambda>x. x\<lparr>child_volumes := l'\<rparr>) d (drives s2)" "drive_list s' = drive_list s2" "next_drive_id s' = next_drive_id s2"
        "disk.more s' = disk.more s2"
        using Cons.IH [OF lm(2)] unfolding s2_def [symmetric] by blast
      have "partition_loop d bs (i # is) s = Some (Inr (r, s'))"
        using False block(1,2) lm(1) IH(1) unfolding s2_def s1_def by (simp add: Let_def)
      moreover have "gained (disk_heap s) (disk_heap s') (v # ws)"
        using gained_Cons [OF block(5,6)] IH(3) sel(1) by simp
      moreover have "v \<notin> set ws" using IH(3) block(6) sel(1) unfolding gained_def by metis
      then have "body s' v = ?x" using IH(4) body2 by simp
      moreover have "new_volume d (drives s2 d) bs = new_volume d (drives s d) bs" by (rule ext) (simp add: sel(2))
      moreover have "drives s' = upd_at (\<lambda>x. x\<lparr>child_volumes := l'\<rparr>) d (drives s)" using IH(6) sel(2) by (simp add: upd_at_def)
      ultimately show ?thesis using False IH(2,4,5,7,8,9) body2 sel(3,4,5)
        by (intro exI [of _ r] exI [of _ s'] exI [of _ "v # ws"] exI [of _ l']) (auto simp: used_parts_def)
    qed
  qed
qed

lemma free_volumes_ok:
  "llist v_next (vols s) v vs \<Longrightarrow> heap_wf (disk_heap s) \<Longrightarrow> \<forall>a \<in> set vs. \<exists>m. heap_live (disk_heap s) a m \<Longrightarrow>
   \<exists>h. free_volumes v s = Some (Inr (s\<lparr>disk_heap := h\<rparr>)) \<and> heap_wf h \<and>
     (\<forall>q k. heap_live h q k \<longleftrightarrow> heap_live (disk_heap s) q k \<and> q \<notin> set vs)"
proof (induction vs arbitrary: v s)
  case Nil
  then show ?case by (subst free_volumes.simps) (auto intro: exI [of _ "disk_heap s"])
next
  case (Cons a vs)
  have d: "a \<notin> set vs" using llist_distinct [OF Cons.prems(1)] by simp
  obtain m where "heap_live (disk_heap s) a m" using Cons.prems(3) by auto
  from km.free_live [OF Cons.prems(2) this] obtain h where h: "kfree (disk_heap s) a = Inr h" "heap_wf h"
    "\<forall>q k. heap_live h q k \<longleftrightarrow> heap_live (disk_heap s) q k \<and> q \<noteq> a" by blast
  have "\<forall>b \<in> set vs. \<exists>m. heap_live h b m" using Cons.prems(3) h(3) d by (metis list.set_intros(2))
  then obtain h' where "free_volumes (v_next (vols s a)) (s\<lparr>disk_heap := h\<rparr>) = Some (Inr (s\<lparr>disk_heap := h'\<rparr>))" "heap_wf h'"
    "\<forall>q k. heap_live h' q k \<longleftrightarrow> heap_live h q k \<and> q \<notin> set vs"
    using Cons.IH [of "s\<lparr>disk_heap := h\<rparr>" "v_next (vols s a)"] Cons.prems(1) h(2) by auto
  then show ?case using Cons.prems(1) h by (subst free_volumes.simps) auto
qed

lemma remove_volumes_ok:
  "llist v_next (vols s) v vs \<Longrightarrow> heap_wf (disk_heap s) \<Longrightarrow> \<forall>a \<in> set vs. \<exists>m. heap_live (disk_heap s) a m \<Longrightarrow>
   \<exists>h. remove_volumes v s = Some (Inr (\<exists>a \<in> set vs. mounted (vols s a) \<noteq> 0, s\<lparr>disk_heap := h\<rparr>)) \<and> heap_wf h \<and>
     (\<forall>q k. heap_live h q k \<longleftrightarrow> heap_live (disk_heap s) q k \<and> q \<notin> set (takeWhile (\<lambda>a. mounted (vols s a) = 0) vs))"
proof (induction vs arbitrary: v s)
  case Nil
  then show ?case by (subst remove_volumes.simps) (auto intro: exI [of _ "disk_heap s"])
next
  case (Cons a vs)
  have d: "a \<notin> set vs" using llist_distinct [OF Cons.prems(1)] by simp
  show ?case
  proof (cases "mounted (vols s a) = 0")
    case False
    then show ?thesis using Cons.prems by (subst remove_volumes.simps) (auto intro: exI [of _ "disk_heap s"])
  next
    case True
    obtain m where "heap_live (disk_heap s) a m" using Cons.prems(3) by auto
    from km.free_live [OF Cons.prems(2) this] obtain h where h: "kfree (disk_heap s) a = Inr h" "heap_wf h"
      "\<forall>q k. heap_live h q k \<longleftrightarrow> heap_live (disk_heap s) q k \<and> q \<noteq> a" by blast
    have "\<forall>b \<in> set vs. \<exists>m. heap_live h b m" using Cons.prems(3) h(3) d by (metis list.set_intros(2))
    then obtain h' where "remove_volumes (v_next (vols s a)) (s\<lparr>disk_heap := h\<rparr>)
        = Some (Inr (\<exists>a \<in> set vs. mounted (vols s a) \<noteq> 0, s\<lparr>disk_heap := h'\<rparr>))" "heap_wf h'"
      "\<forall>q k. heap_live h' q k \<longleftrightarrow> heap_live h q k \<and> q \<notin> set (takeWhile (\<lambda>a. mounted (vols s a) = 0) vs)"
      using Cons.IH [of "s\<lparr>disk_heap := h\<rparr>" "v_next (vols s a)"] Cons.prems(1) h(2) by auto
    then show ?thesis using Cons.prems(1) h True by (subst remove_volumes.simps) auto
  qed
qed

section \<open>Theorems\<close>

definition drive_ok :: "'a disk_scheme \<Rightarrow> addr \<Rightarrow> addr list \<Rightarrow> bool" where
  "drive_ok s d ds \<longleftrightarrow> heap_wf (disk_heap s) \<and> d \<noteq> 0 \<and> child_volumes (drives s d) = 0 \<and>
     llist d_next (drives s) (drive_list s) ds \<and> d \<notin> set ds"

text \<open>A call that leaves the variables of the disk manager as they are.\<close>

definition same_disk :: "'a disk_scheme \<Rightarrow> 'a disk_scheme \<Rightarrow> bool" where
  "same_disk s s1 \<longleftrightarrow> disk_heap s1 = disk_heap s \<and> drives s1 = drives s \<and> vols s1 = vols s \<and> drive_list s1 = drive_list s \<and>
     next_drive_id s1 = next_drive_id s"

text \<open>The drives other than \<open>d\<close> keep everything but their link, \<open>d\<close> all its driver set up.\<close>

definition keeps_drives :: "addr \<Rightarrow> (addr \<Rightarrow> drive_t) \<Rightarrow> (addr \<Rightarrow> drive_t) \<Rightarrow> bool" where
  "keeps_drives d m m' \<longleftrightarrow> (\<forall>a. \<exists>i c n. m' a = (if a = d then (m a)\<lparr>drive_id := i, child_volumes := c, d_next := n\<rparr> else (m a)\<lparr>d_next := n\<rparr>))"

text \<open>A drive without a readable boot record is refused.\<close>

lemma register_drive_refused:
  assumes "drive_ok s d ds" "same_disk s s1"
    "readcb (readcallback (drives s d)) d \<lparr>high = 0, low = 0\<rparr> \<lparr>high = 0, low = 1\<rparr> s = Some (Inr (ret, buf, s1))"
    "ret \<noteq> 0 \<or> 512 \<le> length buf \<and> mbr_signature buf \<noteq> 0xAA55"
  shows "register_drive readcb d s = Some (Inr (1, s1))"
proof -
  have "parse_mbr readcb d s = Some (Inr (1, s1))" using assms(3,4) by (auto simp: parse_mbr_def)
  moreover have "child_volumes (drives s1 d) = 0" using assms(1,2) by (simp add: drive_ok_def same_disk_def)
  moreover have "free_volumes 0 s1 = Some (Inr s1)" by (subst free_volumes.simps) simp
  ultimately show ?thesis by (simp add: register_drive_def)
qed

lemma register_drive_accepted:
  assumes ok: "drive_ok s d ds" and same: "same_disk s s1"
    and rd: "readcb (readcallback (drives s d)) d \<lparr>high = 0, low = 0\<rparr> \<lparr>high = 0, low = 1\<rparr> s = Some (Inr (0, buf, s1))"
      "512 \<le> length buf" "mbr_signature buf = 0xAA55"
  obtains (added) s' vs where "register_drive readcb d s = Some (Inr (0, s'))" "disk.more s' = disk.more s1"
      "volumes s' d vs" "gained (disk_heap s) (disk_heap s') vs"
      "map (body s') vs = map (new_volume d (drives s d) buf) (used_parts buf [0..<4])"
      "llist d_next (drives s') (drive_list s') (ds @ [d])" "drive_id (drives s' d) = next_drive_id s"
      "keeps_drives d (drives s) (drives s')" "next_drive_id s' = next_drive_id s + 1"
      "\<forall>a. a \<notin> set vs \<longrightarrow> body s' a = body s a"
  | (nomem) s' where "register_drive readcb d s = Some (Inr (1, s'))" "disk.more s' = disk.more s1" "heap_wf (disk_heap s')"
      "\<forall>q k. heap_live (disk_heap s') q k = heap_live (disk_heap s) q k"
      "keeps_drives d (drives s) (drives s')" "llist d_next (drives s') (drive_list s') ds"
proof -
  define s2 where "s2 = (upd_drive (\<lambda>x. x\<lparr>drive_id := next_drive_id s\<rparr>) d s1)\<lparr>next_drive_id := next_drive_id s + 1\<rparr>"
  have s2: "disk_heap s2 = disk_heap s" "drives s2 = upd_at (\<lambda>x. x\<lparr>drive_id := next_drive_id s\<rparr>) d (drives s)" "vols s2 = vols s"
    "drive_list s2 = drive_list s" "next_drive_id s2 = next_drive_id s + 1" "disk.more s2 = disk.more s1" "body s2 = body s"
    using same by (simp_all add: s2_def same_disk_def body_def [abs_def])
  have nv: "new_volume d (drives s2 d) buf = new_volume d (drives s d) buf"
    by (simp add: new_volume_def Let_def fun_eq_iff s2(2))
  have "volumes s2 d []" using ok by (simp add: volumes_def drive_ok_def s2)
  then obtain r s' vs l where p: "partition_loop d buf [0..<4] s2 = Some (Inr (r, s'))" "volumes s' d vs"
    "gained (disk_heap s) (disk_heap s') vs" "r = 0 \<and> map (body s') vs = map (new_volume d (drives s d) buf) (used_parts buf [0..<4]) \<or> r = 1"
    "drives s' = upd_at (\<lambda>x. x\<lparr>child_volumes := l\<rparr>) d (drives s2)" "drive_list s' = drive_list s" "disk.more s' = disk.more s1"
    "next_drive_id s' = next_drive_id s + 1" "\<forall>a. a \<notin> set vs \<longrightarrow> body s' a = body s a"
    using partition_loop_ok [of s2 d "[]" buf "[0..<4]"] unfolding nv s2(1,4,5,6,7) by auto
  have parse: "parse_mbr readcb d s = Some (Inr (r, s'))"
    using same rd p(1) by (simp add: parse_mbr_def s2_def same_disk_def)
  have "llist d_next (drives s') (drive_list s') ds = llist d_next (drives s) (drive_list s) ds"
    unfolding p(5,6) s2(2) by (rule lseg_cong) (simp add: upd_at_apply)
  then have ls: "llist d_next (drives s') (drive_list s') ds" using ok by (simp add: drive_ok_def)
  show thesis
  proof (cases "r = 0")
    case True
    from dq.list_append_ok [OF ls, of d] ok obtain l' m where lm:
      "list_append d_next (\<lambda>x. d_next_update (\<lambda>_. x)) d (drive_list s') (drives s') = Some (l', m)" "llist d_next m l' (ds @ [d])"
      "only_links (\<lambda>x. d_next_update (\<lambda>_. x)) (insert d (set ds)) (drives s') m" by (auto simp: drive_ok_def)
    have n: "\<exists>n. m a = (drives s' a)\<lparr>d_next := n\<rparr>" for a using lm(3) unfolding only_links_def by blast
    obtain n where nd: "m d = (drives s' d)\<lparr>d_next := n\<rparr>" using n by blast
    have "keeps_drives d (drives s) m"
      unfolding keeps_drives_def
    proof
      fix a
      obtain k where "m a = (drives s' a)\<lparr>d_next := k\<rparr>" using n by blast
      then show "\<exists>i c n. m a = (if a = d then (drives s a)\<lparr>drive_id := i, child_volumes := c, d_next := n\<rparr> else (drives s a)\<lparr>d_next := n\<rparr>)"
        by (intro exI [of _ "next_drive_id s"] exI [of _ l] exI [of _ k]) (simp add: p(5) s2(2) upd_at_apply)
    qed
    moreover have "volumes (s'\<lparr>drive_list := l', drives := m\<rparr>) d vs" using p(2) nd by (simp add: volumes_def)
    moreover have "body (s'\<lparr>drive_list := l', drives := m\<rparr>) = body s'" by (simp add: body_def fun_eq_iff)
    moreover have "drive_id (m d) = next_drive_id s" using nd p(5) s2(2) by simp
    ultimately show thesis
      using added [of "s'\<lparr>drive_list := l', drives := m\<rparr>" vs] parse True lm(1,2) p(3,4,7,8,9) by (simp add: register_drive_def)
  next
    case False
    from p(2) obtain h where h: "free_volumes (child_volumes (drives s' d)) s' = Some (Inr (s'\<lparr>disk_heap := h\<rparr>))" "heap_wf h"
      "\<forall>q k. heap_live h q k \<longleftrightarrow> heap_live (disk_heap s') q k \<and> q \<notin> set vs"
      using free_volumes_ok [of s' "child_volumes (drives s' d)" vs] by (auto simp: volumes_def)
    have "heap_live h q k = heap_live (disk_heap s) q k" for q k using h(3) p(3) unfolding gained_def by blast
    moreover have "keeps_drives d (drives s) (drives s')"
      unfolding keeps_drives_def
    proof
      fix a
      show "\<exists>i c n. drives s' a = (if a = d then (drives s a)\<lparr>drive_id := i, child_volumes := c, d_next := n\<rparr> else (drives s a)\<lparr>d_next := n\<rparr>)"
        by (rule exI [of _ "next_drive_id s"], rule exI [of _ l], rule exI [of _ "d_next (drives s a)"]) (simp add: p(5) s2(2) upd_at_apply)
    qed
    ultimately show thesis using nomem [of "s'\<lparr>disk_heap := h\<rparr>"] False p(4,7) ls parse h(1,2) by (auto simp: register_drive_def)
  qed
qed


text \<open>A machine with one drive whose boot record has a single partition, the second entry.\<close>

definition mbr1 :: "u8 list" where
  "mbr1 = replicate 466 0 @ [0, 0, 0, 0, 0x83] @ replicate 4 0 @ [8, 0, 0, 0x10] @ replicate 31 0 @ [0x55, 0xAA]"

definition drive0 :: drive_t where
  "drive0 = \<lparr>priv = 0, d_block_size = 512, d_num_blocks = \<lparr>high = 0, low = 0x1000\<rparr>, drive_id = 0, readcallback = 0, writecallback = 0,
     child_volumes = 0, d_next = 0\<rparr>"

definition disk0 :: disk where
  "disk0 = \<lparr>disk_heap = heap1, drives = (\<lambda>_. drive0), vols = (\<lambda>_. volume0), drive_list = 0, next_drive_id = 3\<rparr>"

lemma disk0_ok: "drive_ok disk0 0xC0115000 []"
  by (simp add: drive_ok_def disk0_def drive0_def heap1_wf)


text \<open>
  Removing a registered drive without mounted volumes returns 0, frees exactly its volumes and
  takes the drive out of the list, keeping the order of the others.
\<close>

theorem remove_drive_frees:
  assumes "volumes s d vs" "llist d_next (drives s) (drive_list s) ds" "d \<in> set ds" "\<forall>v \<in> set vs. mounted (vols s v) = 0"
  shows "\<exists>s'. remove_drive d s = Some (Inr (0, s')) \<and> heap_wf (disk_heap s') \<and> llist d_next (drives s') (drive_list s') (remove1 d ds) \<and>
    (\<forall>q k. heap_live (disk_heap s') q k \<longleftrightarrow> heap_live (disk_heap s) q k \<and> q \<notin> set vs)"
proof -
  have d: "d \<noteq> 0" "drive_list s \<noteq> 0" using lseg_nonnull [OF assms(2)] assms(2,3) by auto
  have tw: "takeWhile (\<lambda>a. mounted (vols s a) = 0) vs = vs" using assms(4) by simp
  obtain h where h: "remove_volumes (child_volumes (drives s d)) s = Some (Inr (False, s\<lparr>disk_heap := h\<rparr>))" "heap_wf h"
    "\<forall>q k. heap_live h q k \<longleftrightarrow> heap_live (disk_heap s) q k \<and> q \<notin> set vs"
    using remove_volumes_ok [of s "child_volumes (drives s d)" vs] assms(1,4) unfolding tw by (auto simp: volumes_def)
  obtain l m where "list_remove d_next (\<lambda>x. d_next_update (\<lambda>_. x)) d (drive_list s) (drives s) = Some (True, l, m)"
    "llist d_next m l (remove1 d ds)"
    using dq.list_remove_ok [OF assms(2) d(1)] assms(3) by auto
  then show ?thesis using h d by (simp add: remove_drive_def)
qed

text \<open>
  When the first volume of a drive is not mounted but a later one is, \<open>remove_drive\<close> refuses with
  1 after it has freed the first one: the drive still lists a volume whose block is free.
\<close>

theorem remove_drive_dangling:
  assumes "volumes s d (v # vs)" "mounted (vols s v) = 0" "w \<in> set vs" "mounted (vols s w) \<noteq> 0"
  shows "\<exists>s'. remove_drive d s = Some (Inr (1, s')) \<and> child_volumes (drives s' d) = v \<and> (\<forall>k. \<not> heap_live (disk_heap s') v k)"
proof -
  obtain h where "remove_volumes (child_volumes (drives s d)) s = Some (Inr (True, s\<lparr>disk_heap := h\<rparr>))"
    "\<forall>q k. heap_live h q k \<longleftrightarrow> heap_live (disk_heap s) q k \<and> q \<notin> set (takeWhile (\<lambda>a. mounted (vols s a) = 0) (v # vs))"
  proof -
    have "(\<exists>a \<in> set (v # vs). mounted (vols s a) \<noteq> 0) = True" using assms(3,4) by auto
    moreover from assms(1) have "llist v_next (vols s) (child_volumes (drives s d)) (v # vs)" "heap_wf (disk_heap s)"
      "\<forall>a \<in> set (v # vs). \<exists>m. heap_live (disk_heap s) a m" unfolding volumes_def by blast+
    from remove_volumes_ok [OF this] obtain h where
      "remove_volumes (child_volumes (drives s d)) s = Some (Inr (\<exists>a \<in> set (v # vs). mounted (vols s a) \<noteq> 0, s\<lparr>disk_heap := h\<rparr>))"
      "\<forall>q k. heap_live h q k \<longleftrightarrow> heap_live (disk_heap s) q k \<and> q \<notin> set (takeWhile (\<lambda>a. mounted (vols s a) = 0) (v # vs))" by blast
    ultimately show thesis by (intro that [of h]) (simp only:, blast)
  qed
  then show ?thesis using assms(1,2) by (auto simp: remove_drive_def volumes_def)
qed

text \<open>A drive with two volumes, the second of them mounted.\<close>

lemma two_blocks: "\<exists>h. heap_wf h \<and> heap_live h 0xC0120014 56 \<and> heap_live h 0xC012004C 56"
  using two_live heap_at_wf by blast

definition disk2 :: "heap \<Rightarrow> disk" where
  "disk2 h = disk0\<lparr>disk_heap := h, drives := (\<lambda>_. drive0\<lparr>child_volumes := 0xC0120014\<rparr>),
     vols := (\<lambda>_. volume0)(0xC0120014 := volume0\<lparr>v_next := 0xC012004C\<rparr>, 0xC012004C := volume0\<lparr>mounted := 1\<rparr>)\<rparr>"

theorem remove_drive_dangling_witness:
  "\<exists>h s'. heap_live h 0xC0120014 56 \<and> remove_drive 0xC0115000 (disk2 h) = Some (Inr (1, s')) \<and>
     child_volumes (drives s' 0xC0115000) = 0xC0120014 \<and> (\<forall>k. \<not> heap_live (disk_heap s') 0xC0120014 k)"
proof -
  obtain h where h: "heap_wf h" "heap_live h 0xC0120014 56" "heap_live h 0xC012004C 56" using two_blocks by blast
  then have "volumes (disk2 h) 0xC0115000 [0xC0120014, 0xC012004C]"
    by (auto simp: volumes_def disk2_def disk0_def volume0_def)
  from remove_drive_dangling [OF this, of "0xC012004C"] h show ?thesis
    by (auto simp: disk2_def volume0_def)
qed

theorem remove_drive_frees_witness:
  "\<exists>s'. remove_drive 0xC0115000 (disk0\<lparr>drive_list := 0xC0115000\<rparr>) = Some (Inr (0, s')) \<and> drive_list s' = 0"
  using remove_drive_frees [of "disk0\<lparr>drive_list := 0xC0115000\<rparr>" "0xC0115000" "[]" "[0xC0115000]"]
  by (auto simp: volumes_def disk0_def drive0_def heap1_wf)

end
