(* ===== verification/Ata.thy ===== *)
theory Ata
  imports Disk Ports "HOL-Library.Sublist"
begin

text \<open>
  The ATA driver, \<open>drivers/ata_pio.c\<close>: programmed input and output through the ports of the two
  channels, the identification of the drives, the 48-bit read and the start and stop of the
  module. The state extends the one of the disk manager, which calls back into the driver to
  read a boot record.
\<close>

section \<open>Registers and commands\<close>

definition BUS0 :: u32 where "BUS0 = 0x01F0"
definition BUS1 :: u32 where "BUS1 = 0x0170"
definition BUS0_CTRL :: u32 where "BUS0_CTRL = 0x03F6"
definition BUS1_CTRL :: u32 where "BUS1_CTRL = 0x0376"
definition BUS0_STATUS :: u32 where "BUS0_STATUS = BUS0_CTRL"
definition BUS1_STATUS :: u32 where "BUS1_STATUS = BUS1_CTRL"

definition DATA :: u16 where "DATA = 0"
definition SECTORCOUNT :: u16 where "SECTORCOUNT = 2"
definition LBALOW :: u16 where "LBALOW = 3"
definition LBAMID :: u16 where "LBAMID = 4"
definition LBAHIGH :: u16 where "LBAHIGH = 5"
definition DRIVESELECT :: u16 where "DRIVESELECT = 6"
definition COMMAND :: u16 where "COMMAND = 7"

definition ERR :: u8 where "ERR = 0x01"
definition DRQ :: u8 where "DRQ = 0x08"
definition BSY :: u8 where "BSY = 0x80"

definition IDENTIFY :: u8 where "IDENTIFY = 0xEC"
definition READ_SECTORS_EXT :: u8 where "READ_SECTORS_EXT = 0x24"

definition I_SERIAL :: nat where "I_SERIAL = 10"
definition I_LBA48SECTORS :: nat where "I_LBA48SECTORS = 100"

definition MASTERCHS :: u32 where "MASTERCHS = 0xA0"
definition SLAVECHS :: u32 where "SLAVECHS = 0xB0"
definition MASTERLBA48 :: u16 where "MASTERLBA48 = 0x40"
definition SLAVELBA48 :: u16 where "SLAVELBA48 = 0x50"

definition CHS_MODE :: u32 where "CHS_MODE = 0x1"
definition LBA48_MODE :: u32 where "LBA48_MODE = 0x3"

lemmas ata_regs = DATA_def SECTORCOUNT_def LBALOW_def LBAMID_def LBAHIGH_def DRIVESELECT_def COMMAND_def

section \<open>State\<close>

record ata_priv_t =
  mode :: u32
  bus :: u16
  drive :: u16
  status_reg :: u16

text \<open>\<open>sizeof(ata_priv_t)\<close> is ten bytes and two of padding, \<open>sizeof(drive_t)\<close> nine words.\<close>

definition SIZEOF_PRIV :: u32 where "SIZEOF_PRIV = 12"
definition SIZEOF_DRIVE :: u32 where "SIZEOF_DRIVE = 36"

record ata = disk +
  ata_ports :: history
  privs :: "addr \<Rightarrow> ata_priv_t"
  ata_started :: bool
  ata_drives :: "addr list"

text \<open>The hardware, and the addresses of the driver's routines.\<close>

record ata_env =
  ata_dev :: device
  at_lba48_read :: addr
  at_lba48_write :: addr
  at_chs_read :: addr
  at_chs_write :: addr

definition upd_priv :: "(ata_priv_t \<Rightarrow> ata_priv_t) \<Rightarrow> addr \<Rightarrow> ata \<Rightarrow> ata" where
  "upd_priv f p s = s\<lparr>privs := upd_at f p (privs s)\<rparr>"

definition ata_kmalloc :: "u32 \<Rightarrow> ata \<Rightarrow> (addr \<times> ata) result option" where
  "ata_kmalloc sz s = obind (kmalloc (disk_heap s) sz) (\<lambda>(a, h). Some (Inr (a, s\<lparr>disk_heap := h\<rparr>)))"

definition ata_kfree :: "addr \<Rightarrow> ata \<Rightarrow> ata result option" where
  "ata_kfree a s = Some (rbind (kfree (disk_heap s) a) (\<lambda>h. Inr (s\<lparr>disk_heap := h\<rparr>)))"

section \<open>Reading\<close>

text \<open>Four reads of the status register, about 400 nanoseconds.\<close>

definition ata_delay :: "device \<Rightarrow> u16 \<Rightarrow> history \<Rightarrow> history" where
  "ata_delay dev reg h =
     (let (_, h) = inb dev reg h; (_, h) = inb dev reg h; (_, h) = inb dev reg h; (_, h) = inb dev reg h in h)"

text \<open>The two waiting loops: for the drive to have data, and for it not to be busy.\<close>

partial_function (option) wait_drq :: "device \<Rightarrow> u16 \<Rightarrow> history \<Rightarrow> history option" where
  "wait_drq dev reg h =
     (let (a, h) = inb dev reg h; (b, h) = inb dev reg h in
      if a AND BSY \<noteq> 0 \<or> b AND DRQ = 0 then wait_drq dev reg h else Some h)"

partial_function (option) wait_bsy :: "device \<Rightarrow> u16 \<Rightarrow> history \<Rightarrow> history option" where
  "wait_bsy dev reg h = (let (a, h) = inb dev reg h in if a AND BSY \<noteq> 0 then wait_bsy dev reg h else Some h)"

text \<open>\<open>n\<close> words from the data port.\<close>

primrec read_words :: "device \<Rightarrow> u16 \<Rightarrow> nat \<Rightarrow> history \<Rightarrow> u16 list \<times> history" where
  "read_words dev port 0 h = ([], h)"
| "read_words dev port (Suc n) h =
     (let (w, h) = inw dev port h; (ws, h) = read_words dev port n h in (w # ws, h))"

text \<open>The loop over the sectors: wait, then 256 words.\<close>

primrec read_sectors :: "device \<Rightarrow> u16 \<Rightarrow> u16 \<Rightarrow> nat \<Rightarrow> history \<Rightarrow> (u16 list \<times> history) option" where
  "read_sectors dev reg port 0 h = Some ([], h)"
| "read_sectors dev reg port (Suc n) h =
     (case wait_drq dev reg (ata_delay dev reg h) of
        None \<Rightarrow> None
      | Some h \<Rightarrow>
          let (ws, h) = read_words dev port 256 h in
          case read_sectors dev reg port n h of None \<Rightarrow> None | Some (vs, h) \<Rightarrow> Some (ws @ vs, h))"

text \<open>A word is stored through a \<open>uint16_t\<close> pointer, the low byte first.\<close>

definition word_bytes :: "u16 \<Rightarrow> u8 list" where
  "word_bytes w = [ucast w, ucast (drop_bit 8 w)]"

text \<open>The ten writes that select the drive, the sectors and the command.\<close>

definition lba48_command :: "u16 \<Rightarrow> u16 \<Rightarrow> u32 \<Rightarrow> lba_t \<Rightarrow> history \<Rightarrow> history" where
  "lba48_command b dr sectors start h =
     (let h = outb (b + DRIVESELECT) (ucast dr) h;
          h = outb (b + SECTORCOUNT) (ucast (drop_bit 8 sectors)) h;
          h = outb (b + LBALOW) (ucast (drop_bit 24 (low start))) h;
          h = outb (b + LBAMID) (ucast (high start)) h;
          h = outb (b + LBAHIGH) (ucast (drop_bit 8 (high start))) h;
          h = outb (b + SECTORCOUNT) (ucast sectors) h;
          h = outb (b + LBALOW) (ucast (low start)) h;
          h = outb (b + LBAMID) (ucast (drop_bit 8 (low start))) h;
          h = outb (b + LBAHIGH) (ucast (drop_bit 16 (low start))) h
      in outb (b + COMMAND) READ_SECTORS_EXT h)"

text \<open>The number of sectors to transfer; 65536 is written to the drive as 0.\<close>

definition lba48_sectors :: "drive_t \<Rightarrow> blkcnt_t \<Rightarrow> u32" where
  "lba48_sectors d num = (let sectors = d_block_size d div 512 * low num in if sectors = 65536 then 0 else sectors)"

text \<open>The results are the return value and the bytes written at \<open>dest\<close>.\<close>

definition ata_lba48_read :: "ata_env \<Rightarrow> addr \<Rightarrow> lba_t \<Rightarrow> blkcnt_t \<Rightarrow> ata \<Rightarrow> (u32 \<times> u8 list \<times> ata) result option" where
  "ata_lba48_read env d start_block num_blocks s =
     (if high num_blocks \<noteq> 0 \<or> low num_blocks > 65536 then Some (Inr (1, [], s))
      else
        let sectors = lba48_sectors (drives s d) num_blocks;
            p = privs s (priv (drives s d));
            h = lba48_command (bus p) (drive p) sectors start_block (ata_ports s)
        in case read_sectors (ata_dev env) (status_reg p) (bus p + DATA) (unat sectors) h of
             None \<Rightarrow> None
           | Some (ws, h) \<Rightarrow> Some (Inr (0, concat (map word_bytes ws), s\<lparr>ata_ports := h\<rparr>)))"

text \<open>The routines that are not written yet only fail.\<close>

definition ata_chs_read :: "ata_env \<Rightarrow> addr \<Rightarrow> lba_t \<Rightarrow> blkcnt_t \<Rightarrow> ata \<Rightarrow> (u32 \<times> u8 list \<times> ata) result option" where
  "ata_chs_read env d start_block num_blocks s = Some (Inr (1, [], s))"

definition ata_lba28_read :: "ata_env \<Rightarrow> addr \<Rightarrow> lba_t \<Rightarrow> blkcnt_t \<Rightarrow> ata \<Rightarrow> (u32 \<times> u8 list \<times> ata) result option" where
  "ata_lba28_read env d start_block num_blocks s = Some (Inr (1, [], s))"

definition ata_lba48_write :: "addr \<Rightarrow> lba_t \<Rightarrow> blkcnt_t \<Rightarrow> u8 list \<Rightarrow> ata \<Rightarrow> u32 \<times> ata" where
  "ata_lba48_write d start_block num_blocks src s = (1, s)"

definition ata_lba28_write :: "addr \<Rightarrow> lba_t \<Rightarrow> blkcnt_t \<Rightarrow> u8 list \<Rightarrow> ata \<Rightarrow> u32 \<times> ata" where
  "ata_lba28_write d start_block num_blocks src s = (1, s)"

definition ata_chs_write :: "addr \<Rightarrow> lba_t \<Rightarrow> blkcnt_t \<Rightarrow> u8 list \<Rightarrow> ata \<Rightarrow> u32 \<times> ata" where
  "ata_chs_write d start_block num_blocks src s = (1, s)"

text \<open>A call through the \<open>readcallback\<close> of a drive of this driver.\<close>

definition ata_call :: "ata_env \<Rightarrow> addr \<Rightarrow> addr \<Rightarrow> lba_t \<Rightarrow> blkcnt_t \<Rightarrow> ata \<Rightarrow> (u32 \<times> u8 list \<times> ata) result option" where
  "ata_call env f d start num s =
     (if f = at_lba48_read env then ata_lba48_read env d start num s
      else if f = at_chs_read env then ata_chs_read env d start num s
      else Some (Inl (Fault ''readcallback'')))"

section \<open>Identification\<close>

text \<open>The command and the tests that a drive is there and is an ATA drive.\<close>

definition identify_probe :: "device \<Rightarrow> u16 \<Rightarrow> u8 \<Rightarrow> u16 \<Rightarrow> history \<Rightarrow> (bool \<times> history) option" where
  "identify_probe dev b dr reg h =
     (let h = outb (b + DRIVESELECT) dr h;
          h = outb (b + SECTORCOUNT) 0 h;
          h = outb (b + LBALOW) 0 h;
          h = outb (b + LBAMID) 0 h;
          h = outb (b + LBAHIGH) 0 h;
          h = outb (b + COMMAND) IDENTIFY h;
          h = ata_delay dev reg h;
          (st, h) = inb dev reg h
      in if st = 0 then Some (False, h)
         else case wait_bsy dev reg h of
             None \<Rightarrow> None
           | Some h \<Rightarrow>
               let (st, h) = inb dev reg h in
               if st AND ERR \<noteq> 0 then Some (False, h)
               else let (mid, h) = inb dev (b + LBAMID) h in
                 if mid \<noteq> 0 then Some (False, h)
                 else let (hi, h) = inb dev (b + LBAHIGH) h in Some (hi = 0, h))"

text \<open>
  The two structures. A drive without LBA48 gets the routines that fail; its \<open>bus\<close>, \<open>drive\<close> and
  \<open>status_reg\<close> stay as the allocator left them. The branch for LBA28 is disabled by
  \<open>if(0)\<close> in the code.
\<close>

definition fill_drive :: "ata_env \<Rightarrow> u16 list \<Rightarrow> u32 \<Rightarrow> u32 \<Rightarrow> u32 \<Rightarrow> addr \<Rightarrow> addr \<Rightarrow> ata \<Rightarrow> ata" where
  "fill_drive env info b dr reg d p s =
     (let s = (if info ! 83 AND 0x0400 \<noteq> 0
        then let s = upd_priv (\<lambda>x. x\<lparr>mode := LBA48_MODE\<rparr>) p s;
                 s = upd_priv (\<lambda>x. x\<lparr>bus := ucast b\<rparr>) p s;
                 s = upd_priv (\<lambda>x. x\<lparr>drive := if dr AND 0x10 \<noteq> 0 then SLAVELBA48 else MASTERLBA48\<rparr>) p s;
                 s = upd_priv (\<lambda>x. x\<lparr>status_reg := ucast reg\<rparr>) p s;
                 s = upd_drive (\<lambda>x. x\<lparr>d_num_blocks :=
                       \<lparr>high = push_bit 16 (ucast (info ! (I_LBA48SECTORS + 3))) OR ucast (info ! (I_LBA48SECTORS + 2)),
                        low = push_bit 16 (ucast (info ! (I_LBA48SECTORS + 1))) OR ucast (info ! I_LBA48SECTORS)\<rparr>\<rparr>) d s;
                 s = upd_drive (\<lambda>x. x\<lparr>readcallback := at_lba48_read env\<rparr>) d s
             in upd_drive (\<lambda>x. x\<lparr>writecallback := at_lba48_write env\<rparr>) d s
        else let s = upd_priv (\<lambda>x. x\<lparr>mode := CHS_MODE\<rparr>) p s;
                 s = upd_drive (\<lambda>x. x\<lparr>d_num_blocks := \<lparr>high = 0, low = 0\<rparr>\<rparr>) d s;
                 s = upd_drive (\<lambda>x. x\<lparr>readcallback := at_chs_read env\<rparr>) d s
             in upd_drive (\<lambda>x. x\<lparr>writecallback := at_chs_write env\<rparr>) d s);
          s = upd_drive (\<lambda>x. x\<lparr>d_block_size := 512\<rparr>) d s;
          s = upd_drive (\<lambda>x. x\<lparr>child_volumes := 0\<rparr>) d s;
          s = upd_drive (\<lambda>x. x\<lparr>d_next := 0\<rparr>) d s
      in upd_drive (\<lambda>x. x\<lparr>priv := p\<rparr>) d s)"

text \<open>The second half of \<open>identify\<close>, from the allocation of the buffer for the 256 words.\<close>

definition identify_alloc :: "ata_env \<Rightarrow> u32 \<Rightarrow> u32 \<Rightarrow> u32 \<Rightarrow> ata \<Rightarrow> (addr \<times> ata) result option" where
  "identify_alloc env b dr reg s =
     obind (ata_kmalloc (2 * 256) s) (\<lambda>(buf, s).
       if buf = 0 then Some (Inr (0, s))
       else let (info, h) = read_words (ata_dev env) (ucast b + DATA) 256 (ata_ports s); s = s\<lparr>ata_ports := h\<rparr> in
         if info ! I_SERIAL = 0 then obind (ata_kfree buf s) (\<lambda>s. Some (Inr (0, s)))
         else obind (ata_kmalloc SIZEOF_DRIVE s) (\<lambda>(d, s).
           obind (ata_kmalloc SIZEOF_PRIV s) (\<lambda>(p, s).
             if d = 0 \<or> p = 0
             then obind (ata_kfree d s) (\<lambda>s. obind (ata_kfree p s) (\<lambda>s. obind (ata_kfree buf s) (\<lambda>s. Some (Inr (0, s)))))
             else obind (ata_kfree buf (fill_drive env info b dr reg d p s)) (\<lambda>s. Some (Inr (d, s))))))"

definition identify :: "ata_env \<Rightarrow> u32 \<Rightarrow> u32 \<Rightarrow> u32 \<Rightarrow> ata \<Rightarrow> (addr \<times> ata) result option" where
  "identify env b dr reg s =
     (case identify_probe (ata_dev env) (ucast b) (ucast dr) (ucast reg) (ata_ports s) of
        None \<Rightarrow> None
      | Some (found, h) \<Rightarrow>
          let s = s\<lparr>ata_ports := h\<rparr> in
          if \<not> found then Some (Inr (0, s)) else identify_alloc env b dr reg s)"

section \<open>The module\<close>

definition identify_all :: "ata_env \<Rightarrow> ata \<Rightarrow> ata result option" where
  "identify_all env s =
     obind (identify env BUS0 MASTERCHS BUS0_STATUS s) (\<lambda>(d0, s).
     obind (identify env BUS0 SLAVECHS BUS0_STATUS s) (\<lambda>(d1, s).
     obind (identify env BUS1 MASTERCHS BUS1_STATUS s) (\<lambda>(d2, s).
     obind (identify env BUS1 SLAVECHS BUS1_STATUS s) (\<lambda>(d3, s).
       Some (Inr (s\<lparr>ata_drives := [d0, d1, d2, d3, 0, 0, 0, 0]\<rparr>))))))"

primrec register_loop :: "ata_env \<Rightarrow> nat list \<Rightarrow> bool \<Rightarrow> ata \<Rightarrow> (bool \<times> ata) result option" where
  "register_loop env [] good s = Some (Inr (good, s))"
| "register_loop env (i # is) good s =
     (let d = ata_drives s ! i in
      if d \<noteq> 0
      then obind (register_drive (ata_call env) d s) (\<lambda>(ret, s).
             if ret \<noteq> 0 then obind (ata_kfree d s) (\<lambda>s. register_loop env is good s)
             else register_loop env is True s)
      else register_loop env is good s)"

definition ata_module_init :: "ata_env \<Rightarrow> ata \<Rightarrow> (u32 \<times> ata) result option" where
  "ata_module_init env s =
     (if ata_started s then Some (Inr (1, s))
      else obind (identify_all env s) (\<lambda>s.
           obind (register_loop env [0..<8] False s) (\<lambda>(good, s).
             if \<not> good then Some (Inr (1, s)) else Some (Inr (0, s\<lparr>ata_started := True\<rparr>)))))"

primrec kill_loop :: "nat list \<Rightarrow> bool \<Rightarrow> ata \<Rightarrow> (bool \<times> ata) result option" where
  "kill_loop [] fail s = Some (Inr (fail, s))"
| "kill_loop (i # is) fail s =
     (let d = ata_drives s ! i in
      if d \<noteq> 0
      then obind (remove_drive d s) (\<lambda>(ret, s).
             if ret \<noteq> 0 then kill_loop is True s
             else obind (ata_kfree (priv (drives s d)) s) (\<lambda>s.
                  obind (ata_kfree d s) (\<lambda>s.
                    kill_loop is fail (s\<lparr>ata_drives := (ata_drives s)[i := 0]\<rparr>))))
      else kill_loop is fail s)"

definition ata_module_kill :: "ata \<Rightarrow> (u32 \<times> ata) result option" where
  "ata_module_kill s =
     (if \<not> ata_started s then Some (Inr (1, s))
      else obind (kill_loop [0..<8] False s) (\<lambda>(fail, s).
             if fail then Some (Inr (1, s)) else Some (Inr (0, s\<lparr>ata_started := False\<rparr>))))"

section \<open>The read\<close>

text \<open>
  What a drive sees of an LBA48 command: each of its registers keeps the last two bytes written,
  the first of them being the high half.
\<close>

fun outs :: "u16 \<Rightarrow> history \<Rightarrow> u8 list" where
  "outs port [] = []"
| "outs port (Out8 p v # h) = (if p = port then v # outs port h else outs port h)"
| "outs port (e # h) = outs port h"

definition two_deep :: "u16 \<Rightarrow> history \<Rightarrow> nat \<times> nat" where
  "two_deep port h = (case outs port h of x # y # _ \<Rightarrow> (unat y, unat x) | _ \<Rightarrow> (0, 0))"

definition seen_lba :: "u16 \<Rightarrow> history \<Rightarrow> nat" where
  "seen_lba b h =
     (let (l3, l0) = two_deep (b + 3) h; (l4, l1) = two_deep (b + 4) h; (l5, l2) = two_deep (b + 5) h
      in l0 + 256 * (l1 + 256 * (l2 + 256 * (l3 + 256 * (l4 + 256 * l5)))))"

definition seen_count :: "u16 \<Rightarrow> history \<Rightarrow> nat" where
  "seen_count b h = (let (c1, c0) = two_deep (b + 2) h in c0 + 256 * c1)"

lemma unat_byte: "unat (ucast (x :: u32) :: u8) = unat x mod 256"
  by (simp add: unsigned_ucast_eq take_bit_eq_mod)

lemma unat_drop_bit32: "unat (drop_bit k (x :: u32)) = unat x div 2 ^ k"
  unfolding unsigned_drop_bit_eq by (simp add: drop_bit_eq_div take_bit_eq_mod)

lemma two_bytes: "x mod 256 + 256 * (x div 256 mod 256) = x mod 65536" for x :: nat
  using mod_mult2_eq [of x 256 256] by simp

lemma digits_256:
  "r0 + 256 * a = x \<Longrightarrow> r1 + 256 * b = a \<Longrightarrow> r2 + 256 * c = b \<Longrightarrow>
    r0 + 256 * (r1 + 256 * (r2 + 256 * (c + 256 * y))) = x + 4294967296 * (y :: nat)"
  by auto

lemma four_bytes:
  assumes "x < 4294967296"
  shows "x mod 256 + 256 * (x div 256 mod 256 + 256 * (x div 65536 mod 256 + 256 * (x div 16777216 mod 256 + 256 * y)))
    = x + 4294967296 * (y :: nat)"
proof -
  have "x div 65536 = x div 256 div 256" "x div 16777216 = x div 256 div 256 div 256" by (simp_all add: div_mult2_eq [symmetric])
  moreover have "x div 256 div 256 div 256 mod 256 = x div 256 div 256 div 256" using assms by (simp add: div_mult2_eq [symmetric])
  ultimately show ?thesis
    using digits_256 [OF mod_mult_div_eq mod_mult_div_eq mod_mult_div_eq, of x y] by (simp only:)
qed

lemma two_deep_command:
  "two_deep (b + 2) (lba48_command b dr sectors start h) = (unat sectors div 256 mod 256, unat sectors mod 256)"
  "two_deep (b + 3) (lba48_command b dr sectors start h) = (unat (low start) div 16777216 mod 256, unat (low start) mod 256)"
  "two_deep (b + 4) (lba48_command b dr sectors start h) = (unat (high start) mod 256, unat (low start) div 256 mod 256)"
  "two_deep (b + 5) (lba48_command b dr sectors start h) = (unat (high start) div 256 mod 256, unat (low start) div 65536 mod 256)"
  by (simp_all add: two_deep_def lba48_command_def outb_def ata_regs unat_byte unat_drop_bit32)

lemma lba48_command_seen:
  assumes "unat sectors < 65536"
  shows "seen_lba b (lba48_command b dr sectors start h) = unat (low start) + 2 ^ 32 * (unat (high start) mod 2 ^ 16)"
    "seen_count b (lba48_command b dr sectors start h) = unat sectors"
    "hd (outs (b + 6) (lba48_command b dr sectors start h)) = ucast dr"
    "hd (lba48_command b dr sectors start h) = Out8 (b + 7) 0x24"
proof -
  show "seen_lba b (lba48_command b dr sectors start h) = unat (low start) + 2 ^ 32 * (unat (high start) mod 2 ^ 16)"
  proof -
    have "(2 :: nat) ^ 32 = 4294967296" "(2 :: nat) ^ 16 = 65536" by simp_all
    then show ?thesis unfolding seen_lba_def two_deep_command case_prod_conv Let_def two_bytes
      using four_bytes [OF unat_less_2p32] by presburger
  qed
  show "seen_count b (lba48_command b dr sectors start h) = unat sectors"
    using two_bytes [of "unat sectors"] assms unfolding seen_count_def two_deep_command by simp
  show "hd (outs (b + 6) (lba48_command b dr sectors start h)) = ucast dr"
    by (simp add: lba48_command_def outb_def ata_regs)
  show "hd (lba48_command b dr sectors start h) = Out8 (b + 7) 0x24"
    by (simp add: lba48_command_def outb_def ata_regs READ_SECTORS_EXT_def)
qed

text \<open>
  A drive that serves reads: whenever the last command it was sent is a read, some number of
  further polls finds it not busy and with data.
\<close>

primrec polls :: "device \<Rightarrow> u16 \<Rightarrow> nat \<Rightarrow> history \<Rightarrow> history" where
  "polls dev reg 0 h = h"
| "polls dev reg (Suc n) h = polls dev reg n (snd (inb dev reg (snd (inb dev reg h))))"

definition drq_ready :: "device \<Rightarrow> u16 \<Rightarrow> history \<Rightarrow> bool" where
  "drq_ready dev reg h \<longleftrightarrow> (let (a, h) = inb dev reg h; (b, h) = inb dev reg h in a AND BSY = 0 \<and> b AND DRQ \<noteq> 0)"

definition becomes_ready :: "device \<Rightarrow> u16 \<Rightarrow> u16 \<Rightarrow> bool" where
  "becomes_ready dev b reg \<longleftrightarrow> (\<forall>h. take 1 (outs (b + 7) h) = [0x24] \<longrightarrow> (\<exists>n. drq_ready dev reg (polls dev reg n h)))"

text \<open>Accesses that are reads of the status register or of the data port, and the words read.\<close>

fun reads_of :: "u16 \<Rightarrow> u16 \<Rightarrow> event \<Rightarrow> bool" where
  "reads_of reg port (In8 p v) = (p = reg)"
| "reads_of reg port (In16 p v) = (p = port)"
| "reads_of reg port _ = False"

fun words_of :: "event list \<Rightarrow> u16 list" where
  "words_of [] = []"
| "words_of (In16 p v # es) = v # words_of es"
| "words_of (_ # es) = words_of es"

lemma words_of_append [simp]: "words_of (xs @ ys) = words_of xs @ words_of ys"
  by (induction xs rule: words_of.induct) simp_all

text \<open>From \<open>h\<close> to \<open>h'\<close> only reads were made, and they gave the words \<open>ws\<close>.\<close>

definition reads :: "u16 \<Rightarrow> u16 \<Rightarrow> history \<Rightarrow> u16 list \<Rightarrow> history \<Rightarrow> bool" where
  "reads reg port h ws h' \<longleftrightarrow> (\<exists>es. h' = es @ h \<and> list_all (reads_of reg port) es \<and> words_of (rev es) = ws)"

lemma reads_refl [simp]: "reads reg port h [] h"
  by (auto simp: reads_def)

lemma reads_trans: "reads reg port h ws h' \<Longrightarrow> reads reg port h' vs h'' \<Longrightarrow> reads reg port h (ws @ vs) h''"
proof -
  assume "reads reg port h ws h'" "reads reg port h' vs h''"
  then obtain es fs where "h' = es @ h" "h'' = fs @ h'" "list_all (reads_of reg port) (fs @ es)" "words_of (rev (fs @ es)) = ws @ vs"
    unfolding reads_def by auto
  then show ?thesis unfolding reads_def by (intro exI [of _ "fs @ es"]) simp
qed

lemma reads_inb: "reads reg port h [] (snd (inb dev reg h))"
  unfolding reads_def by (intro exI [of _ "[In8 reg (dev8 dev h reg)]"]) (simp add: inb_def Let_def)

lemma reads_inw: "reads reg port h [fst (inw dev port h)] (snd (inw dev port h))"
  unfolding reads_def by (intro exI [of _ "[In16 port (dev16 dev h port)]"]) (simp add: inw_def Let_def)

lemmas reads_inb_trans = reads_trans [OF _ reads_inb, simplified]

lemma reads_delay: "reads reg port h [] (ata_delay dev reg h)"
  by (simp add: ata_delay_def case_prod_beta reads_inb_trans reads_inb)

lemma reads_words: "reads reg port h (fst (read_words dev port n h)) (snd (read_words dev port n h))"
  using reads_trans [OF reads_inw] by (induction n arbitrary: h) (fastforce simp: case_prod_beta)+

lemma length_read_words [simp]: "length (fst (read_words dev port n h)) = n"
  by (induction n arbitrary: h) (simp_all add: case_prod_beta)

lemma wait_drq_polls: "drq_ready dev reg (polls dev reg n h) \<Longrightarrow> \<exists>h'. wait_drq dev reg h = Some h' \<and> reads reg port h [] h'"
proof (induction n arbitrary: h)
  case 0
  then show ?case by (subst wait_drq.simps) (auto simp: drq_ready_def case_prod_beta Let_def intro: reads_inb_trans reads_inb)
next
  case (Suc n)
  let ?h = "snd (inb dev reg (snd (inb dev reg h)))"
  have h: "reads reg port h [] ?h" by (intro reads_inb_trans reads_inb)
  obtain h' where "wait_drq dev reg ?h = Some h'" "reads reg port ?h [] h'" using Suc by auto
  then show ?case using reads_trans [OF h] h by (subst wait_drq.simps) (auto simp: case_prod_beta Let_def)
qed

lemma reads_outs: "reads reg port h ws h' \<Longrightarrow> outs q h' = outs q h"
proof -
  have "list_all (reads_of reg port) es \<Longrightarrow> outs q (es @ h) = outs q h" for es
  proof (induction es)
    case (Cons e es)
    then show ?case by (cases e) simp_all
  qed simp
  then show "reads reg port h ws h' \<Longrightarrow> outs q h' = outs q h" unfolding reads_def by blast
qed

lemma read_sectors_ok:
  assumes "becomes_ready dev b reg"
  shows "take 1 (outs (b + 7) h) = [0x24] \<Longrightarrow> \<exists>ws h'. read_sectors dev reg port n h = Some (ws, h') \<and> reads reg port h ws h' \<and> length ws = 256 * n"
proof (induction n arbitrary: h)
  case (Suc n)
  let ?h = "ata_delay dev reg h"
  obtain h1 where h1: "wait_drq dev reg ?h = Some h1" "reads reg port ?h [] h1"
    using assms wait_drq_polls Suc.prems reads_outs [OF reads_delay [of reg port h dev]] unfolding becomes_ready_def by metis
  have h1r: "reads reg port h (fst (read_words dev port 256 h1)) (snd (read_words dev port 256 h1))"
    using reads_trans [OF reads_trans [OF reads_delay h1(2)] reads_words] by simp
  let ?r = "read_words dev port 256 h1"
  obtain vs h' where r: "read_sectors dev reg port n (snd ?r) = Some (vs, h')" "reads reg port (snd ?r) vs h'" "length vs = 256 * n"
    using Suc.IH [of "snd ?r"] Suc.prems reads_outs [OF h1r] by metis
  have "reads reg port h (fst ?r @ vs) h'" using reads_trans [OF h1r r(2)] by simp
  then show ?case using h1(1) r(1,3) by (simp add: case_prod_beta del: read_words.simps)
qed simp

lemma lba48_command_last: "take 1 (outs (b + 7) (lba48_command b dr sectors start h)) = [0x24]"
  by (simp add: lba48_command_def outb_def ata_regs READ_SECTORS_EXT_def)

lemma lba48_read_ok:
  assumes "becomes_ready (ata_dev env) (bus p) (status_reg p)" "p = privs s (priv (drives s d))"
    "high num = 0" "512 \<le> d_block_size (drives s d)" "unat (d_block_size (drives s d)) div 512 * unat (low num) = n" "n < 65536"
  shows "\<exists>hc ws h'. ata_lba48_read env d start num s = Some (Inr (0, concat (map word_bytes ws), s\<lparr>ata_ports := h'\<rparr>)) \<and>
    seen_lba (bus p) hc = unat (low start) + 2 ^ 32 * (unat (high start) mod 2 ^ 16) \<and> seen_count (bus p) hc = n \<and>
    hd (outs (bus p + 6) hc) = ucast (drive p) \<and> hd hc = Out8 (bus p + 7) 0x24 \<and>
    reads (status_reg p) (bus p) hc ws h' \<and> length (concat (map word_bytes ws)) = 512 * n"
proof -
  have lown: "unat (low num) \<le> n"
  proof -
    have "1 \<le> unat (d_block_size (drives s d)) div 512" using assms(4) by (simp add: word_le_nat_alt)
    then show ?thesis using mult_le_mono1 [of 1 _ "unat (low num)"] unfolding assms(5) [symmetric] by simp
  qed
  have u: "unat (d_block_size (drives s d) div 512 * low num) = n"
    using assms(5,6) unat_mult32 [of "d_block_size (drives s d) div 512" "low num"] by (simp add: unat_div_distrib)
  then have sec: "unat (lba48_sectors (drives s d) num) = n" using assms(6) by (auto simp: lba48_sectors_def Let_def)
  let ?hc = "lba48_command (bus p) (drive p) (lba48_sectors (drives s d) num) start (ata_ports s)"
  obtain ws h' where r: "read_sectors (ata_dev env) (status_reg p) (bus p) n ?hc = Some (ws, h')"
    "reads (status_reg p) (bus p) ?hc ws h'" "length ws = 256 * n"
    using read_sectors_ok [OF assms(1) lba48_command_last] by blast
  have "\<not> 65536 < low num" using lown assms(6) by (simp add: word_less_nat_alt)
  then have "ata_lba48_read env d start num s = Some (Inr (0, concat (map word_bytes ws), s\<lparr>ata_ports := h'\<rparr>))"
    using r(1) assms(2,3) sec by (simp add: ata_lba48_read_def DATA_def)
  moreover have "length (concat (map word_bytes ws)) = 512 * n" using r(3) by (simp add: length_concat word_bytes_def comp_def sum_list_triv)
  ultimately show ?thesis using lba48_command_seen [of "lba48_sectors (drives s d) num"] sec assms(6) r(2) by blast
qed


text \<open>A drive that is always ready, and a driver state with one block for the drive's data.\<close>

definition ready_env :: ata_env where
  "ready_env = \<lparr>ata_dev = \<lparr>dev8 = (\<lambda>_ _. 0x48), dev16 = (\<lambda>h _. of_nat (length h)), dev32 = (\<lambda>_ _. 0)\<rparr>,
     at_lba48_read = 1, at_lba48_write = 2, at_chs_read = 3, at_chs_write = 4\<rparr>"

definition ata0 :: ata where
  "ata0 = \<lparr>disk_heap = heap1, drives = (\<lambda>_. drive0), vols = (\<lambda>_. volume0), drive_list = 0, next_drive_id = 0, ata_ports = [],
     privs = (\<lambda>_. \<lparr>mode = 3, bus = 0x1F0, drive = 0x40, status_reg = 0x3F6\<rparr>), ata_started = False, ata_drives = replicate 8 0\<rparr>"

lemma ready_env_ready: "becomes_ready (ata_dev ready_env) b reg"
  unfolding becomes_ready_def
  by (intro allI impI exI [of _ 0]) (simp add: drq_ready_def ready_env_def inb_def BSY_def DRQ_def)


text \<open>
  Asked for 65536 sectors of 512 bytes, the largest request it accepts, the driver returns
  success without having read one: the count that stands for 65536 in the command is also the
  bound of the loop. The drive is left with 65536 sectors to deliver.
\<close>

theorem ata_lba48_read_max_reads_nothing:
  assumes "d_block_size (drives s d) = 512" "high num = 0" "low num = 65536"
  shows "\<exists>hc. ata_lba48_read env d start num s = Some (Inr (0, [], s\<lparr>ata_ports := hc\<rparr>)) \<and>
    hd hc = Out8 (bus (privs s (priv (drives s d))) + 7) 0x24 \<and> seen_count (bus (privs s (priv (drives s d)))) hc = 0"
proof -
  let ?p = "privs s (priv (drives s d))"
  have "lba48_sectors (drives s d) num = 0" using assms by (simp add: lba48_sectors_def)
  then have "ata_lba48_read env d start num s = Some (Inr (0, [], s\<lparr>ata_ports := lba48_command (bus ?p) (drive ?p) 0 start (ata_ports s)\<rparr>))"
    using assms by (simp add: ata_lba48_read_def Let_def)
  then show ?thesis using lba48_command_seen [of 0 "bus ?p"] by auto
qed

theorem ata_lba48_read_max_reads_nothing_witness:
  "\<exists>hc. ata_lba48_read ready_env 0 \<lparr>high = 0, low = 0\<rparr> \<lparr>high = 0, low = 65536\<rparr> ata0 = Some (Inr (0, [], ata0\<lparr>ata_ports := hc\<rparr>))"
  using ata_lba48_read_max_reads_nothing [of ata0 0 "\<lparr>high = 0, low = 65536\<rparr>" ready_env "\<lparr>high = 0, low = 0\<rparr>"]
  by (auto simp: ata0_def drive0_def)

section \<open>Identification\<close>

text \<open>The addresses handed out and not freed.\<close>

definition alive :: "heap \<Rightarrow> addr set" where
  "alive h = {p. \<exists>m. heap_live h p m}"

lemma gained_alive: "gained h h' ws \<Longrightarrow> alive h' = alive h \<union> set ws \<and> alive h \<inter> set ws = {}"
  unfolding gained_def alive_def by blast

lemma ata_kmalloc_cases:
  assumes "heap_wf (disk_heap s)" "req_ok sz"
  obtains (null) "ata_kmalloc sz s = Some (Inr (0, s))"
  | (block) p h where "ata_kmalloc sz s = Some (Inr (p, s\<lparr>disk_heap := h\<rparr>))" "p \<noteq> 0" "heap_wf h"
      "p \<notin> alive (disk_heap s)" "alive h = insert p (alive (disk_heap s))"
proof (cases rule: km.alloc_cases [OF assms, case_names null block])
  case null
  then show thesis using that(1) by (simp add: ata_kmalloc_def)
next
  case (block p h m)
  have "alive h = insert p (alive (disk_heap s))" using block(6) unfolding alive_def by blast
  then show thesis using that(2) [of p h] block by (simp add: ata_kmalloc_def alive_def)
qed

lemma ata_kfree_alive:
  assumes "heap_wf (disk_heap s)" "p \<in> alive (disk_heap s)"
  obtains h where "ata_kfree p s = Some (Inr (s\<lparr>disk_heap := h\<rparr>))" "heap_wf h" "alive h = alive (disk_heap s) - {p}"
proof -
  obtain m where "heap_live (disk_heap s) p m" using assms(2) by (auto simp: alive_def)
  then obtain h where h: "kfree (disk_heap s) p = Inr h" "heap_wf h" "\<forall>q k. heap_live h q k \<longleftrightarrow> heap_live (disk_heap s) q k \<and> q \<noteq> p"
    using km.free_live assms(1) by blast
  then have "alive h = alive (disk_heap s) - {p}" unfolding alive_def by blast
  then show thesis using that h by (simp add: ata_kfree_def)
qed

lemma ata_kfree_null [simp]: "ata_kfree 0 s = Some (Inr s)"
  by (simp add: ata_kfree_def km.free_null)

text \<open>A channel that does not stay busy forever.\<close>

definition becomes_idle :: "device \<Rightarrow> u16 \<Rightarrow> bool" where
  "becomes_idle dev reg \<longleftrightarrow> clears dev reg BSY"

lemma wait_bsy_polls: "fst (inb dev reg (polled dev reg n h)) AND BSY = 0 \<Longrightarrow> \<exists>h'. wait_bsy dev reg h = Some h'"
proof (induction n arbitrary: h)
  case 0
  then show ?case by (subst wait_bsy.simps) (simp add: case_prod_beta Let_def)
next
  case (Suc n)
  then show ?case by (subst wait_bsy.simps) (simp add: case_prod_beta Let_def)
qed

lemma identify_probe_total: "becomes_idle dev reg \<Longrightarrow> \<exists>r. identify_probe dev b dr reg h = Some r"
proof -
  assume "becomes_idle dev reg"
  then have "\<exists>h'. wait_bsy dev reg h = Some h'" for h using wait_bsy_polls unfolding becomes_idle_def clears_def by blast
  then obtain w where "\<And>h. wait_bsy dev reg h = Some (w h)" by metis
  then show ?thesis unfolding identify_probe_def Let_def case_prod_beta by auto
qed

text \<open>
  What a freshly identified drive looks like: a block for the drive and one for its private data,
  set up for LBA48 on its channel, or with the routines that fail.
\<close>

definition fresh_drive :: "ata_env \<Rightarrow> u32 \<Rightarrow> u32 \<Rightarrow> addr \<Rightarrow> ata \<Rightarrow> bool" where
  "fresh_drive env b reg d s \<longleftrightarrow> d_block_size (drives s d) = 512 \<and> child_volumes (drives s d) = 0 \<and> d_next (drives s d) = 0 \<and>
     (let p = privs s (priv (drives s d)) in
        mode p = LBA48_MODE \<and> readcallback (drives s d) = at_lba48_read env \<and> bus p = ucast b \<and> status_reg p = ucast reg \<or>
        mode p = CHS_MODE \<and> readcallback (drives s d) = at_chs_read env)"

text \<open>The variables a call of \<open>identify\<close> may not touch, apart from the blocks \<open>d\<close> and \<open>p\<close>.\<close>

definition identify_keeps :: "addr \<Rightarrow> addr \<Rightarrow> ata \<Rightarrow> ata \<Rightarrow> bool" where
  "identify_keeps d p s s' \<longleftrightarrow> (\<forall>a. a \<noteq> d \<longrightarrow> drives s' a = drives s a) \<and> (\<forall>a. a \<noteq> p \<longrightarrow> privs s' a = privs s a) \<and> vols s' = vols s \<and>
     drive_list s' = drive_list s \<and> next_drive_id s' = next_drive_id s \<and> ata_started s' = ata_started s \<and> ata_drives s' = ata_drives s"

lemma fill_drive_sel:
  "disk_heap (fill_drive env info b dr reg d p s) = disk_heap s" "vols (fill_drive env info b dr reg d p s) = vols s"
  "drive_list (fill_drive env info b dr reg d p s) = drive_list s" "next_drive_id (fill_drive env info b dr reg d p s) = next_drive_id s"
  "ata_started (fill_drive env info b dr reg d p s) = ata_started s" "ata_drives (fill_drive env info b dr reg d p s) = ata_drives s"
  "a \<noteq> d \<Longrightarrow> drives (fill_drive env info b dr reg d p s) a = drives s a"
  "a \<noteq> p \<Longrightarrow> privs (fill_drive env info b dr reg d p s) a = privs s a"
  by (simp_all add: fill_drive_def upd_drive_def upd_priv_def Let_def)

lemma fill_drive_fresh:
  "priv (drives (fill_drive env info b dr reg d p s) d) = p" "fresh_drive env b reg d (fill_drive env info b dr reg d p s)"
  by (simp_all add: fresh_drive_def fill_drive_def upd_drive_def upd_priv_def Let_def)

lemma req_ok_ata: "req_ok (2 * 256)" "req_ok SIZEOF_DRIVE" "req_ok SIZEOF_PRIV"
  by (simp_all add: req_ok_def SIZEOF_DRIVE_def SIZEOF_PRIV_def)

text \<open>The outcome of \<open>identify\<close>: nothing was allocated, or a fresh drive and its private data.\<close>

definition identified :: "ata_env \<Rightarrow> u32 \<Rightarrow> u32 \<Rightarrow> addr \<Rightarrow> ata \<Rightarrow> ata \<Rightarrow> bool" where
  "identified env b reg d s s' \<longleftrightarrow> heap_wf (disk_heap s') \<and>
     (if d = 0 then alive (disk_heap s') = alive (disk_heap s) \<and> (\<exists>a. identify_keeps a a s s' \<and> drives s' = drives s \<and> privs s' = privs s)
      else let p = priv (drives s' d) in
        p \<noteq> 0 \<and> d \<noteq> p \<and> {d, p} \<inter> alive (disk_heap s) = {} \<and> alive (disk_heap s') = {d, p} \<union> alive (disk_heap s) \<and>
        fresh_drive env b reg d s' \<and> identify_keeps d p s s')"

text \<open>The allocation of the two structures, with the buffer \<open>buf\<close> to be freed on every way out.\<close>

lemma identify_blocks:
  assumes wf: "heap_wf (disk_heap s1)" and al: "alive (disk_heap s1) = insert buf (alive (disk_heap s))" "buf \<in> alive (disk_heap s1)"
    and same: "s1 = s\<lparr>disk_heap := disk_heap s1, ata_ports := ata_ports s1\<rparr>" and buf: "buf \<notin> alive (disk_heap s)"
  shows "\<exists>d' s'. obind (ata_kmalloc SIZEOF_DRIVE s1) (\<lambda>(d, s). obind (ata_kmalloc SIZEOF_PRIV s) (\<lambda>(p, s).
       if d = 0 \<or> p = 0
       then obind (ata_kfree d s) (\<lambda>s. obind (ata_kfree p s) (\<lambda>s. obind (ata_kfree buf s) (\<lambda>s. Some (Inr (0, s)))))
       else obind (ata_kfree buf (fill_drive env info b dr reg d p s)) (\<lambda>s. Some (Inr (d, s))))) = Some (Inr (d', s')) \<and>
     identified env b reg d' s s'"
proof -
  have keep: "identify_keeps d p s (s1\<lparr>disk_heap := h\<rparr>)" "drives (s1\<lparr>disk_heap := h\<rparr>) = drives s" "privs (s1\<lparr>disk_heap := h\<rparr>) = privs s"
    for d p h by (subst same; simp add: identify_keeps_def)+
  show ?thesis
  proof (cases rule: ata_kmalloc_cases [OF wf req_ok_ata(2), case_names null block])
    case d: null
    show ?thesis
    proof (cases rule: ata_kmalloc_cases [OF wf req_ok_ata(3), case_names null block])
      case p: null
      obtain h where "ata_kfree buf s1 = Some (Inr (s1\<lparr>disk_heap := h\<rparr>))" "heap_wf h" "alive h = alive (disk_heap s)"
        using ata_kfree_alive [OF wf al(2)] al(1) buf by auto
      then show ?thesis using d p keep by (auto simp: identified_def)
    next
      case p: (block p h)
      obtain h' where h': "ata_kfree p (s1\<lparr>disk_heap := h\<rparr>) = Some (Inr (s1\<lparr>disk_heap := h'\<rparr>))" "heap_wf h'" "alive h' = alive (disk_heap s1)"
        using ata_kfree_alive [of "s1\<lparr>disk_heap := h\<rparr>" p] p by auto
      obtain h'' where "ata_kfree buf (s1\<lparr>disk_heap := h'\<rparr>) = Some (Inr (s1\<lparr>disk_heap := h''\<rparr>))" "heap_wf h''" "alive h'' = alive (disk_heap s)"
        using ata_kfree_alive [of "s1\<lparr>disk_heap := h'\<rparr>" buf] h' al buf by auto
      then show ?thesis using d p h'(1) keep by (auto simp: identified_def)
    qed
  next
    case d: (block d h)
    have wfh: "heap_wf (disk_heap (s1\<lparr>disk_heap := h\<rparr>))" using d by simp
    show ?thesis
    proof (cases rule: ata_kmalloc_cases [OF wfh req_ok_ata(3), case_names null block])
      case p: null
      obtain h' where h': "ata_kfree d (s1\<lparr>disk_heap := h\<rparr>) = Some (Inr (s1\<lparr>disk_heap := h'\<rparr>))" "heap_wf h'" "alive h' = alive (disk_heap s1)"
        using ata_kfree_alive [of "s1\<lparr>disk_heap := h\<rparr>" d] d by auto
      obtain h'' where "ata_kfree buf (s1\<lparr>disk_heap := h'\<rparr>) = Some (Inr (s1\<lparr>disk_heap := h''\<rparr>))" "heap_wf h''" "alive h'' = alive (disk_heap s)"
        using ata_kfree_alive [of "s1\<lparr>disk_heap := h'\<rparr>" buf] h' al buf by auto
      then show ?thesis using d p h'(1) keep by (auto simp: identified_def)
    next
      case p: (block p h2)
      define t where "t = fill_drive env info b dr reg d p (s1\<lparr>disk_heap := h2\<rparr>)"
      have t: "disk_heap t = h2" by (simp add: t_def fill_drive_sel)
      have ne: "buf \<noteq> d" "buf \<noteq> p" "d \<noteq> p" using d(4,5) p(4,5) al by auto
      obtain h' where h': "ata_kfree buf t = Some (Inr (t\<lparr>disk_heap := h'\<rparr>))" "heap_wf h'" "alive h' = alive (disk_heap t) - {buf}"
        using ata_kfree_alive [of t buf] t d p al by auto
      have alh: "alive h' = {d, p} \<union> alive (disk_heap s)" using h'(3) t d(5) p(5) al(1) buf ne by auto
      have "fresh_drive env b reg d (t\<lparr>disk_heap := h'\<rparr>)" "priv (drives (t\<lparr>disk_heap := h'\<rparr>) d) = p"
        using fill_drive_fresh [where env = env and info = info and b = b and dr = dr and reg = reg and d = d and p = p and s = "s1\<lparr>disk_heap := h2\<rparr>"]
        unfolding t_def [symmetric] by (simp_all add: fresh_drive_def)
      moreover have "identify_keeps d p s (t\<lparr>disk_heap := h'\<rparr>)"
        using keep(1) [of d p h2] by (simp add: identify_keeps_def t_def fill_drive_sel)
      ultimately have "identified env b reg d s (t\<lparr>disk_heap := h'\<rparr>)"
        using h'(2) alh d(2,4,5) p(2,4,5) al ne by (auto simp: identified_def)
      then show ?thesis using d(1,2) p(1,2) h'(1) unfolding t_def by auto
    qed
  qed
qed

lemma identify_alloc_ok:
  assumes wf: "heap_wf (disk_heap s)"
  shows "\<exists>d s'. identify_alloc env b dr reg s = Some (Inr (d, s')) \<and> identified env b reg d s s'"
proof (cases rule: ata_kmalloc_cases [OF wf req_ok_ata(1), case_names null block])
  case null
  then show ?thesis using wf by (auto simp: identify_alloc_def identified_def identify_keeps_def)
next
  case (block buf h)
  obtain info h1 where rw: "read_words (ata_dev env) (ucast b + DATA) 256 (ata_ports s) = (info, h1)" by fastforce
  define s1 where "s1 = s\<lparr>disk_heap := h, ata_ports := h1\<rparr>"
  have s1: "heap_wf (disk_heap s1)" "alive (disk_heap s1) = insert buf (alive (disk_heap s))" "buf \<in> alive (disk_heap s1)"
    using block by (simp_all add: s1_def)
  show ?thesis
  proof (cases "info ! I_SERIAL = 0")
    case True
    obtain h2 where "ata_kfree buf s1 = Some (Inr (s1\<lparr>disk_heap := h2\<rparr>))" "heap_wf h2" "alive h2 = alive (disk_heap s1) - {buf}"
      using ata_kfree_alive [OF s1(1,3)] by blast
    then show ?thesis using True block rw s1(2)
      by (auto simp: identify_alloc_def identified_def identify_keeps_def s1_def)
  next
    case False
    have start: "identify_alloc env b dr reg s = obind (ata_kmalloc SIZEOF_DRIVE s1) (\<lambda>(d, s).
           obind (ata_kmalloc SIZEOF_PRIV s) (\<lambda>(p, s).
             if d = 0 \<or> p = 0
             then obind (ata_kfree d s) (\<lambda>s. obind (ata_kfree p s) (\<lambda>s. obind (ata_kfree buf s) (\<lambda>s. Some (Inr (0, s)))))
             else obind (ata_kfree buf (fill_drive env info b dr reg d p s)) (\<lambda>s. Some (Inr (d, s)))))"
      using False block(1,2) rw by (simp add: identify_alloc_def s1_def)
    show ?thesis unfolding start by (rule identify_blocks [OF s1 _ block(4)]) (simp add: s1_def)
  qed
qed

lemma identified_ports: "identified env b reg d (s\<lparr>ata_ports := h\<rparr>) s' = identified env b reg d s s'"
  by (simp add: identified_def identify_keeps_def)

lemma identify_ok:
  assumes "heap_wf (disk_heap s)" "becomes_idle (ata_dev env) (ucast reg)"
  shows "\<exists>d s'. identify env b dr reg s = Some (Inr (d, s')) \<and> identified env b reg d s s'"
proof -
  obtain found h where f: "identify_probe (ata_dev env) (ucast b) (ucast dr) (ucast reg) (ata_ports s) = Some (found, h)"
    using identify_probe_total [OF assms(2)] by fastforce
  show ?thesis
  proof (cases found)
    case True
    then show ?thesis using f identify_alloc_ok [of "s\<lparr>ata_ports := h\<rparr>" env b dr reg] assms(1)
      by (simp add: identify_def identified_ports)
  next
    case False
    then show ?thesis using f assms(1) by (auto simp: identify_def identified_def identify_keeps_def)
  qed
qed

text \<open>
  On a channel that does not stay busy \<open>identify\<close> returns. When it returns no drive, no memory
  stays allocated, whatever made it give up; when it returns one, exactly two blocks were
  allocated, the drive and its private data, the drive has no volumes and blocks of 512 bytes, and
  it is either set up for LBA48 on this channel or has the routines that refuse to read. Nothing
  else changes.
\<close>

theorem identify_spec:
  assumes "heap_wf (disk_heap s)" "becomes_idle (ata_dev env) (ucast reg)"
  shows "\<exists>d s'. identify env b dr reg s = Some (Inr (d, s')) \<and> identified env b reg d s s'"
  using assms by (rule identify_ok)

lemma ready_env_idle: "becomes_idle (ata_dev ready_env) reg"
  unfolding becomes_idle_def clears_def by (intro allI exI [of _ 0]) (simp add: ready_env_def inb_def BSY_def)

theorem identify_spec_witness:
  "\<exists>d s'. identify ready_env BUS0 MASTERCHS BUS0_STATUS ata0 = Some (Inr (d, s')) \<and> heap_wf (disk_heap s')"
  using identify_spec [of ata0 ready_env BUS0_STATUS BUS0 MASTERCHS] ready_env_idle
  by (auto simp: ata0_def heap1_wf identified_def)

section \<open>Starting the module\<close>

text \<open>A drive its driver can answer for: it has no volumes yet, and its read routine returns.\<close>

definition answers :: "ata_env \<Rightarrow> addr \<Rightarrow> ata \<Rightarrow> bool" where
  "answers env d s \<longleftrightarrow> child_volumes (drives s d) = 0 \<and> d_block_size (drives s d) = 512 \<and>
     (let p = privs s (priv (drives s d)) in
        readcallback (drives s d) = at_lba48_read env \<and> becomes_ready (ata_dev env) (bus p) (status_reg p) \<or>
        readcallback (drives s d) = at_chs_read env \<and> at_chs_read env \<noteq> at_lba48_read env)"

text \<open>Drives not yet registered: distinct live blocks.\<close>

definition pending :: "ata_env \<Rightarrow> addr list \<Rightarrow> ata \<Rightarrow> bool" where
  "pending env ds s \<longleftrightarrow> distinct ds \<and> 0 \<notin> set ds \<and> (\<forall>d \<in> set ds. d \<in> alive (disk_heap s) \<and> answers env d s)"

text \<open>The disk manager's list holds the registered drives \<open>rs\<close>, all of them live.\<close>

definition registered :: "addr list \<Rightarrow> ata \<Rightarrow> bool" where
  "registered rs s \<longleftrightarrow> heap_wf (disk_heap s) \<and> llist d_next (drives s) (drive_list s) rs \<and> set rs \<subseteq> alive (disk_heap s)"

lemma more_ata:
  fixes s t :: ata
  shows "disk.more s = disk.more t \<Longrightarrow> privs s = privs t \<and> ata_drives s = ata_drives t \<and> ata_started s = ata_started t"
  by (cases s; cases t) simp

lemma ata_call_answers:
  assumes "answers env d s"
  shows "\<exists>ret buf h. ata_call env (readcallback (drives s d)) d \<lparr>high = 0, low = 0\<rparr> \<lparr>high = 0, low = 1\<rparr> s
    = Some (Inr (ret, buf, s\<lparr>ata_ports := h\<rparr>)) \<and> (ret \<noteq> 0 \<or> ret = 0 \<and> 512 \<le> length buf)"
proof (cases "readcallback (drives s d) = at_lba48_read env")
  case True
  let ?p = "privs s (priv (drives s d))"
  have "becomes_ready (ata_dev env) (bus ?p) (status_reg ?p)" "512 \<le> d_block_size (drives s d)" "unat (d_block_size (drives s d)) = 512"
    using assms True by (auto simp: answers_def Let_def)
  from lba48_read_ok [OF this(1) refl _ this(2), of "\<lparr>high = 0, low = 1\<rparr>" 1 "\<lparr>high = 0, low = 0\<rparr>"] this(3)
  obtain ws h' where "ata_lba48_read env d \<lparr>high = 0, low = 0\<rparr> \<lparr>high = 0, low = 1\<rparr> s = Some (Inr (0, concat (map word_bytes ws), s\<lparr>ata_ports := h'\<rparr>))"
    "length (concat (map word_bytes ws)) = 512" by auto
  then show ?thesis using True by (auto simp: ata_call_def)
next
  case False
  then have "readcallback (drives s d) = at_chs_read env" using assms by (auto simp: answers_def Let_def)
  then show ?thesis using False by (auto simp: ata_call_def ata_chs_read_def intro!: exI [of _ "ata_ports s"])
qed

lemma pending_keeps:
  assumes "pending env (d # ds) s" "keeps_drives d (drives s) (drives s')" "privs s' = privs s" "set ds \<subseteq> alive (disk_heap s')"
  shows "pending env ds s'"
proof -
  have "a \<in> alive (disk_heap s') \<and> answers env a s'" if a: "a \<in> set ds" for a
  proof -
    have "a \<noteq> d" "answers env a s" using assms(1) a by (auto simp: pending_def)
    moreover obtain n where "drives s' a = (drives s a)\<lparr>d_next := n\<rparr>"
      using assms(2) \<open>a \<noteq> d\<close> unfolding keeps_drives_def by meson
    ultimately show ?thesis using assms(3,4) a by (auto simp: answers_def)
  qed
  then show ?thesis using assms(1) by (auto simp: pending_def)
qed

text \<open>What the loop of \<open>ata_module_init\<close> does with a drive: it is registered, or it is freed.\<close>

definition same_module :: "ata \<Rightarrow> ata \<Rightarrow> bool" where
  "same_module s s' \<longleftrightarrow> ata_drives s' = ata_drives s \<and> ata_started s' = ata_started s"

lemma discard_drive:
  assumes "pending env (d # ds) s" "registered rs s1" "d \<notin> set rs" "keeps_drives d (drives s) (drives s1)" "privs s1 = privs s"
    "alive (disk_heap s1) = alive (disk_heap s)"
  obtains s2 where "ata_kfree d s1 = Some (Inr s2)" "registered rs s2" "pending env ds s2" "same_module s1 s2"
proof -
  have d: "d \<in> alive (disk_heap s1)" "d \<notin> set ds" "set ds \<subseteq> alive (disk_heap s)" using assms(1,6) by (auto simp: pending_def)
  obtain h where h: "ata_kfree d s1 = Some (Inr (s1\<lparr>disk_heap := h\<rparr>))" "heap_wf h" "alive h = alive (disk_heap s1) - {d}"
    using ata_kfree_alive [OF _ d(1)] assms(2) by (auto simp: registered_def)
  have "pending env ds (s1\<lparr>disk_heap := h\<rparr>)"
    using pending_keeps [OF assms(1), of "s1\<lparr>disk_heap := h\<rparr>"] assms(4,5,6) d h(3) by auto
  moreover have "registered rs (s1\<lparr>disk_heap := h\<rparr>)" using assms(2,3) h by (auto simp: registered_def)
  ultimately show thesis using that h(1) by (simp add: same_module_def)
qed

lemma register_step:
  assumes p: "pending env (d # ds) s" and r: "registered rs s" and disj: "d \<notin> set rs"
  obtains (added) s' where "register_drive (ata_call env) d s = Some (Inr (0, s'))" "registered (rs @ [d]) s'" "pending env ds s'" "same_module s s'"
  | (failed) s1 s' where "register_drive (ata_call env) d s = Some (Inr (1, s1))" "ata_kfree d s1 = Some (Inr s')" "registered rs s'"
      "pending env ds s'" "same_module s s'"
proof -
  have d: "d \<noteq> 0" "d \<in> alive (disk_heap s)" "answers env d s" "set ds \<subseteq> alive (disk_heap s)" using p by (auto simp: pending_def)
  have ok: "drive_ok s d rs" using r disj d by (auto simp: drive_ok_def registered_def answers_def)
  obtain ret buf h where c: "ata_call env (readcallback (drives s d)) d \<lparr>high = 0, low = 0\<rparr> \<lparr>high = 0, low = 1\<rparr> s
      = Some (Inr (ret, buf, s\<lparr>ata_ports := h\<rparr>))" "ret \<noteq> 0 \<or> ret = 0 \<and> 512 \<le> length buf"
    using ata_call_answers [OF d(3)] by blast
  let ?s1 = "s\<lparr>ata_ports := h\<rparr>"
  have same: "same_disk s ?s1" by (simp add: same_disk_def)
  show thesis
  proof (cases "ret = 0 \<and> mbr_signature buf = 0xAA55")
    case False
    have ref: "register_drive (ata_call env) d s = Some (Inr (1, ?s1))"
      by (rule register_drive_refused [where readcb = "ata_call env", OF ok same c(1)]) (use c(2) False in auto)
    have kd: "keeps_drives d (drives s) (drives ?s1)"
    proof -
      have "\<exists>i c n. drives s a = (if a = d then (drives s a)\<lparr>drive_id := i, child_volumes := c, d_next := n\<rparr> else (drives s a)\<lparr>d_next := n\<rparr>)" for a
        by (rule exI [of _ "drive_id (drives s a)"], rule exI [of _ "child_volumes (drives s a)"], rule exI [of _ "d_next (drives s a)"]) simp
      then show ?thesis by (simp add: keeps_drives_def)
    qed
    have "registered rs ?s1" using r by (simp add: registered_def)
    then obtain s2 where "ata_kfree d ?s1 = Some (Inr s2)" "registered rs s2" "pending env ds s2" "same_module ?s1 s2"
      using discard_drive [OF p _ disj kd] by auto
    then show thesis using failed [OF ref] by (simp add: same_module_def)
  next
    case True
    with c(1,2) have c0: "ata_call env (readcallback (drives s d)) d \<lparr>high = 0, low = 0\<rparr> \<lparr>high = 0, low = 1\<rparr> s
      = Some (Inr (0, buf, ?s1))" "512 \<le> length buf" "mbr_signature buf = 0xAA55" by auto
    from ok same c0 show thesis
    proof (cases rule: register_drive_accepted)
      case (added s' vs)
      have m: "privs s' = privs s" "same_module s s'" using more_ata [OF added(2)] by (auto simp: same_module_def)
      have al: "alive (disk_heap s') = alive (disk_heap s) \<union> set vs" using gained_alive [OF added(4)] by blast
      have "registered (rs @ [d]) s'" using added(3,6) r d(2) al by (auto simp: registered_def volumes_def)
      moreover have "pending env ds s'" using pending_keeps [OF p added(8) m(1)] d(4) al by blast
      ultimately show thesis using that(1) [OF added(1)] m(2) by blast
    next
      case (nomem s')
      have m: "privs s' = privs s" "same_module s s'" using more_ata [OF nomem(2)] by (auto simp: same_module_def)
      have al: "alive (disk_heap s') = alive (disk_heap s)" using nomem(4) by (simp add: alive_def)
      have "registered rs s'" using nomem(3,6) al r by (simp add: registered_def)
      then obtain s2 where "ata_kfree d s' = Some (Inr s2)" "registered rs s2" "pending env ds s2" "same_module s' s2"
        using discard_drive [OF p _ disj nomem(5) m(1) al] by blast
      then show thesis using that(2) [OF nomem(1)] m(2) by (simp add: same_module_def)
    qed
  qed
qed

lemma register_loop_ok:
  assumes "pending env (filter (\<lambda>d. d \<noteq> 0) (map ((!) ds) is)) s" "registered rs s" "ata_drives s = ds"
    "set (filter (\<lambda>d. d \<noteq> 0) (map ((!) ds) is)) \<inter> set rs = {}"
  shows "\<exists>rs' s'. register_loop env is good s = Some (Inr (good \<or> rs' \<noteq> [], s')) \<and> registered (rs @ rs') s' \<and>
    subseq rs' (filter (\<lambda>d. d \<noteq> 0) (map ((!) ds) is)) \<and> same_module s s'"
  using assms
proof (induction "is" arbitrary: s rs good)
  case Nil
  then show ?case by (auto simp: same_module_def intro!: exI [of _ "[]"])
next
  case (Cons i "is")
  let ?ds = "filter (\<lambda>d. d \<noteq> 0) (map ((!) ds) is)"
  show ?case
  proof (cases "ds ! i = 0")
    case True
    then show ?thesis using Cons by simp
  next
    case False
    have p: "pending env (ds ! i # ?ds) s" and di: "ds ! i \<notin> set rs" "ds ! i \<notin> set ?ds" using Cons.prems(1,4) False
      by (auto simp: pending_def)
    from p Cons.prems(2) di(1) show ?thesis
    proof (cases rule: register_step)
      case (added s')
      have disj: "set ?ds \<inter> set (rs @ [ds ! i]) = {}" using Cons.prems(4) di(2) False by auto
      have "ata_drives s' = ds" using added(4) Cons.prems(3) by (simp add: same_module_def)
      from Cons.IH [OF added(3,2) this disj, of True] obtain rs' s'' where
        "register_loop env is True s' = Some (Inr (True, s''))" "registered (rs @ ds ! i # rs') s''" "subseq rs' ?ds" "same_module s' s''"
        by auto
      then show ?thesis using added(1,4) False Cons.prems(3)
        by (intro exI [of _ "ds ! i # rs'"] exI [of _ s'']) (auto simp: same_module_def)
    next
      case (failed s1 s')
      have disj: "set ?ds \<inter> set rs = {}" using Cons.prems(4) False by auto
      have "ata_drives s' = ds" using failed(5) Cons.prems(3) by (simp add: same_module_def)
      from Cons.IH [OF failed(4,3) this disj] obtain rs' s'' where
        "register_loop env is good s' = Some (Inr (good \<or> rs' \<noteq> [], s''))" "registered (rs @ rs') s''" "subseq rs' ?ds" "same_module s' s''"
        by blast
      then show ?thesis using failed(1,2,5) False Cons.prems(3)
        by (intro exI [of _ rs'] exI [of _ s'']) (auto simp: same_module_def)
    qed
  qed
qed

text \<open>The identification of the four drives: what was found so far stays as it was.\<close>

definition found :: "ata_env \<Rightarrow> addr list \<Rightarrow> addr list \<Rightarrow> ata \<Rightarrow> bool" where
  "found env rs ds s \<longleftrightarrow> pending env ds s \<and> registered rs s \<and> set ds \<inter> set rs = {} \<and> (\<forall>d \<in> set ds. priv (drives s d) \<in> alive (disk_heap s))"

definition channel_ok :: "ata_env \<Rightarrow> u32 \<Rightarrow> u32 \<Rightarrow> bool" where
  "channel_ok env b reg \<longleftrightarrow> becomes_idle (ata_dev env) (ucast reg) \<and> becomes_ready (ata_dev env) (ucast b) (ucast reg) \<and>
     at_chs_read env \<noteq> at_lba48_read env"

lemma fresh_answers: "fresh_drive env b reg d s \<Longrightarrow> channel_ok env b reg \<Longrightarrow> answers env d s"
  by (auto simp: fresh_drive_def channel_ok_def answers_def Let_def)

lemma found_cong:
  assumes "found env rs ds s" "heap_wf (disk_heap s')" "alive (disk_heap s) \<subseteq> alive (disk_heap s')" "drive_list s' = drive_list s"
    "\<And>a. a \<in> alive (disk_heap s) \<Longrightarrow> drives s' a = drives s a" "\<And>a. a \<in> alive (disk_heap s) \<Longrightarrow> privs s' a = privs s a"
  shows "found env rs ds s'"
proof -
  have "answers env d s' = answers env d s" if "d \<in> set ds" for d
    using assms(1,5,6) that by (simp add: found_def pending_def answers_def)
  moreover have "llist d_next (drives s') (drive_list s) rs = llist d_next (drives s) (drive_list s) rs"
    by (rule lseg_cong) (use assms(1,5) in \<open>auto simp: found_def registered_def\<close>)
  ultimately show ?thesis using assms by (auto simp: found_def pending_def registered_def)
qed

lemma found_step:
  assumes f: "found env rs ds s" and i: "identified env b reg d s s'" and ch: "channel_ok env b reg"
  shows "found env rs (ds @ filter (\<lambda>d. d \<noteq> 0) [d]) s' \<and> same_module s s'"
proof (cases "d = 0")
  case True
  with i have "heap_wf (disk_heap s')" "alive (disk_heap s') = alive (disk_heap s)" "drives s' = drives s" "privs s' = privs s"
    "drive_list s' = drive_list s" "same_module s s'"
    by (auto simp: identified_def identify_keeps_def same_module_def)
  then show ?thesis using found_cong [OF f, of s'] True by auto
next
  case False
  let ?p = "priv (drives s' d)"
  from i False have i': "heap_wf (disk_heap s')" "d \<noteq> ?p" "d \<notin> alive (disk_heap s)" "?p \<notin> alive (disk_heap s)"
    "alive (disk_heap s') = {d, ?p} \<union> alive (disk_heap s)" "fresh_drive env b reg d s'" "identify_keeps d ?p s s'"
    by (auto simp: identified_def Let_def)
  have "privs s' a = privs s a" if "a \<in> alive (disk_heap s)" for a using i'(4,7) that by (metis identify_keeps_def)
  moreover have "drives s' a = drives s a" if "a \<in> alive (disk_heap s)" for a using i'(3,7) that by (metis identify_keeps_def)
  moreover have "drive_list s' = drive_list s" using i'(7) by (simp add: identify_keeps_def)
  ultimately have f': "found env rs ds s'" using i'(1,5) found_cong [OF f] by blast
  moreover have "d \<notin> set ds" "d \<notin> set rs" using f i'(3) by (auto simp: found_def pending_def registered_def)
  ultimately have "found env rs (ds @ [d]) s'"
    using False i'(5) fresh_answers [OF i'(6) ch] by (auto simp: found_def pending_def)
  then show ?thesis using False i'(7) by (simp add: identify_keeps_def same_module_def)
qed

lemma identify_found:
  assumes "found env rs ds s" "channel_ok env b reg"
  obtains d s' where "identify env b dr reg s = Some (Inr (d, s'))" "found env rs (ds @ filter (\<lambda>d. d \<noteq> 0) [d]) s'" "same_module s s'"
proof -
  have "heap_wf (disk_heap s)" using assms(1) by (simp add: found_def registered_def)
  then show thesis using identify_ok [of s env reg b dr] found_step [OF assms(1) _ assms(2)] assms(2) that
    unfolding channel_ok_def by blast
qed

lemma identify_all_ok:
  assumes "registered rs s" "channel_ok env BUS0 BUS0_STATUS" "channel_ok env BUS1 BUS1_STATUS"
  obtains s' where "identify_all env s = Some (Inr s')" "found env rs (filter (\<lambda>d. d \<noteq> 0) (ata_drives s')) s'"
    "length (ata_drives s') = 8" "ata_started s' = ata_started s"
proof -
  have "found env rs [] s" using assms(1) by (simp add: found_def pending_def)
  then obtain d0 s0 where 0: "identify env BUS0 MASTERCHS BUS0_STATUS s = Some (Inr (d0, s0))"
    "found env rs ([] @ filter (\<lambda>d. d \<noteq> 0) [d0]) s0" "same_module s s0" by (rule identify_found [OF _ assms(2)])
  obtain d1 s1 where 1: "identify env BUS0 SLAVECHS BUS0_STATUS s0 = Some (Inr (d1, s1))"
    "found env rs (([] @ filter (\<lambda>d. d \<noteq> 0) [d0]) @ filter (\<lambda>d. d \<noteq> 0) [d1]) s1" "same_module s0 s1"
    by (rule identify_found [OF 0(2) assms(2)])
  obtain d2 s2 where 2: "identify env BUS1 MASTERCHS BUS1_STATUS s1 = Some (Inr (d2, s2))"
    "found env rs ((([] @ filter (\<lambda>d. d \<noteq> 0) [d0]) @ filter (\<lambda>d. d \<noteq> 0) [d1]) @ filter (\<lambda>d. d \<noteq> 0) [d2]) s2" "same_module s1 s2"
    by (rule identify_found [OF 1(2) assms(3)])
  obtain d3 s3 where 3: "identify env BUS1 SLAVECHS BUS1_STATUS s2 = Some (Inr (d3, s3))"
    "found env rs (((([] @ filter (\<lambda>d. d \<noteq> 0) [d0]) @ filter (\<lambda>d. d \<noteq> 0) [d1]) @ filter (\<lambda>d. d \<noteq> 0) [d2]) @ filter (\<lambda>d. d \<noteq> 0) [d3]) s3"
    "same_module s2 s3"
    by (rule identify_found [OF 2(2) assms(3)])
  let ?s = "s3\<lparr>ata_drives := [d0, d1, d2, d3, 0, 0, 0, 0]\<rparr>"
  have "found env rs ds ?s = found env rs ds s3" for ds by (simp add: found_def pending_def registered_def answers_def)
  moreover have "filter (\<lambda>d. d \<noteq> 0) (ata_drives ?s)
      = (((([] @ filter (\<lambda>d. d \<noteq> 0) [d0]) @ filter (\<lambda>d. d \<noteq> 0) [d1]) @ filter (\<lambda>d. d \<noteq> 0) [d2]) @ filter (\<lambda>d. d \<noteq> 0) [d3])" by simp
  ultimately have "found env rs (filter (\<lambda>d. d \<noteq> 0) (ata_drives ?s)) ?s" using 3(2) by metis
  moreover have "identify_all env s = Some (Inr ?s)" using 0 1 2 3 by (simp add: identify_all_def)
  moreover have "ata_started ?s = ata_started s" using 0(3) 1(3) 2(3) 3(3) by (simp add: same_module_def)
  ultimately show thesis using that by simp
qed



text \<open>
  A drive without LBA48 cannot be registered. The module frees it and does not start, but the
  table of drives keeps the address of the freed block and the private data stays allocated with
  nothing left to free it.
\<close>

theorem register_loop_dangling:
  assumes "registered rs s" "pending env [d] s" "d \<notin> set rs" "ata_drives s = d # replicate 7 0"
    "readcallback (drives s d) = at_chs_read env" "at_chs_read env \<noteq> at_lba48_read env"
    "p = priv (drives s d)" "p \<noteq> d" "p \<in> alive (disk_heap s)"
  shows "\<exists>s'. register_loop env [0..<8] False s = Some (Inr (False, s')) \<and> ata_drives s' ! 0 = d \<and>
    d \<notin> alive (disk_heap s') \<and> p \<in> alive (disk_heap s')"
proof -
  have d: "d \<noteq> 0" "d \<in> alive (disk_heap s)" "child_volumes (drives s d) = 0" using assms(2) by (auto simp: pending_def answers_def)
  have ok: "drive_ok s d rs" using assms(1,3) d by (simp add: drive_ok_def registered_def)
  have c: "ata_call env (readcallback (drives s d)) d \<lparr>high = 0, low = 0\<rparr> \<lparr>high = 0, low = 1\<rparr> s = Some (Inr (1, [], s))"
    using assms(5,6) by (simp add: ata_call_def ata_chs_read_def)
  have "same_disk s s" by (simp add: same_disk_def)
  from register_drive_refused [where readcb = "ata_call env", OF ok this c] have r: "register_drive (ata_call env) d s = Some (Inr (1, s))" by simp
  have "heap_wf (disk_heap s)" using assms(1) by (simp add: registered_def)
  then obtain h where h: "ata_kfree d s = Some (Inr (s\<lparr>disk_heap := h\<rparr>))" "alive h = alive (disk_heap s) - {d}"
    using ata_kfree_alive d(2) by metis
  have "register_loop env [0..<8] False s = Some (Inr (False, s\<lparr>disk_heap := h\<rparr>))"
    using r h(1) d(1) assms(4) by (simp add: upt_conv_Cons)
  then show ?thesis using h(2) assms(4,8,9) by auto
qed

theorem register_loop_dangling_witness:
  "\<exists>s s'. register_loop ready_env [0..<8] False s = Some (Inr (False, s')) \<and> ata_drives s' ! 0 = 0xC0120014 \<and> 0xC0120014 \<notin> alive (disk_heap s')"
proof -
  obtain h where h: "heap_wf h" "heap_live h 0xC0120014 56" "heap_live h 0xC012004C 56" using two_blocks by blast
  let ?s = "ata0\<lparr>disk_heap := h, ata_drives := 0xC0120014 # replicate 7 0, drives := (\<lambda>_. drive0\<lparr>readcallback := 3, priv := 0xC012004C\<rparr>)\<rparr>"
  have al: "0xC0120014 \<in> alive h" "0xC012004C \<in> alive h" using h by (auto simp: alive_def)
  have "registered [] ?s" "pending ready_env [0xC0120014] ?s"
    using h(1) al by (simp_all add: registered_def pending_def answers_def ata0_def drive0_def ready_env_def)
  from register_loop_dangling [OF this, of "0xC012004C"] al show ?thesis by (auto simp: ready_env_def)
qed

end
