(* ===== verification/Net.thy ===== *)
theory Net
  imports Kalloc_Spec Linked Cstring
begin

text \<open>
  Network devices and packet buffers, \<open>kernel/net.c\<close> and \<open>kernel/net.h\<close>. The structures lie in
  typed stores, the packet data in byte memory.
\<close>

section \<open>Data\<close>

definition NETDEV_ETHERNET :: u32 where "NETDEV_ETHERNET = 1"

record net_dev_t =
  nd_type :: u32
  nd_next :: addr

record pkt_buf_t =
  pkt_len :: u32
  pkt_data :: addr

text \<open>\<open>sizeof(pkt_buf_t)\<close>.\<close>

definition SIZEOF_PKT :: u32 where "SIZEOF_PKT = 8"

record net =
  net_heap :: heap
  net_devs :: "addr \<Rightarrow> net_dev_t"
  net_dev_list :: addr
  pkts :: "addr \<Rightarrow> pkt_buf_t"
  bytes_at :: mem
  printed :: "u8 list"

section \<open>The C functions\<close>

definition net_init :: "net \<Rightarrow> net" where
  "net_init s = s"

definition register_net_dev :: "addr \<Rightarrow> net \<Rightarrow> (u32 \<times> net) option" where
  "register_net_dev dev s =
     (if dev = 0 then Some (1, s)
      else if nd_type (net_devs s dev) \<noteq> NETDEV_ETHERNET then Some (1, s)
      else map_option (\<lambda>(l, m). (0, s\<lparr>net_dev_list := l, net_devs := m\<rparr>))
             (list_append nd_next (\<lambda>v. nd_next_update (\<lambda>_. v)) dev (net_dev_list s) (net_devs s)))"

definition remove_net_dev :: "addr \<Rightarrow> net \<Rightarrow> (u32 \<times> net) option" where
  "remove_net_dev dev s =
     (if dev = 0 \<or> net_dev_list s = 0 then Some (1, s)
      else map_option (\<lambda>(found, l, m). (if found then 0 else 1, s\<lparr>net_dev_list := l, net_devs := m\<rparr>))
             (list_remove nd_next (\<lambda>v. nd_next_update (\<lambda>_. v)) dev (net_dev_list s) (net_devs s)))"

definition net_alloc_pkt_buf :: "u32 \<Rightarrow> net \<Rightarrow> (addr \<times> net) result option" where
  "net_alloc_pkt_buf sz s =
     map_option (\<lambda>r. rbind r (\<lambda>(p, h).
        let s = s\<lparr>net_heap := h\<rparr> in
        if p = 0 then Inr (0, s)
        else Inr (p, s\<lparr>pkts := upd_at (\<lambda>x. x\<lparr>pkt_data := p + SIZEOF_PKT\<rparr>) p (pkts s)\<rparr>)))
       (kmalloc (net_heap s) (sz + SIZEOF_PKT))"

definition net_free_pkt_buf :: "addr \<Rightarrow> net \<Rightarrow> net result" where
  "net_free_pkt_buf buf s = rbind (kfree (net_heap s) buf) (\<lambda>h. Inr (s\<lparr>net_heap := h\<rparr>))"

definition net_cpy_pkt :: "addr \<Rightarrow> addr \<Rightarrow> u32 \<Rightarrow> net \<Rightarrow> net" where
  "net_cpy_pkt src dest sz s =
     (let s = s\<lparr>bytes_at := snd (memcpy (pkt_data (pkts s dest)) src sz (bytes_at s))\<rparr>
      in s\<lparr>pkts := upd_at (\<lambda>x. x\<lparr>pkt_len := sz\<rparr>) dest (pkts s)\<rparr>)"

definition net_rx_pkt :: "addr \<Rightarrow> addr \<Rightarrow> net \<Rightarrow> net result" where
  "net_rx_pkt dev pkt s = (let s = s\<lparr>printed := printed s @ [0x2E]\<rparr> in net_free_pkt_buf pkt s)"

section \<open>The device list\<close>

interpretation nq: linked nd_next "\<lambda>v. nd_next_update (\<lambda>_. v)"
  by unfold_locales simp_all

text \<open>\<open>registered s ds\<close>: the registered devices in the order of registration.\<close>

definition registered :: "net \<Rightarrow> addr list \<Rightarrow> bool" where
  "registered s ds \<longleftrightarrow> llist nd_next (net_devs s) (net_dev_list s) ds"

lemma net_links_type:
  "only_links (\<lambda>v. nd_next_update (\<lambda>_. v)) A m m' \<Longrightarrow> nd_type (m' a) = nd_type (m a)"
  by (auto simp: only_links_def) (metis net_dev_t.select_convs(1) net_dev_t.surjective net_dev_t.update_convs(2))

section \<open>Theorems\<close>

text \<open>
  The registry of network devices is a list: registering a new Ethernet device returns 0 and
  appends it, every other device is refused with 1 and nothing changes; removing returns 0 and
  takes out the device exactly when it is registered, and 1 otherwise. The types of the devices
  never change.
\<close>

theorem net_registry:
  assumes "registered s ds" "d \<notin> set ds"
  shows "(if d \<noteq> 0 \<and> nd_type (net_devs s d) = NETDEV_ETHERNET
      then \<exists>s'. register_net_dev d s = Some (0, s') \<and> registered s' (ds @ [d]) \<and> (\<forall>a. nd_type (net_devs s' a) = nd_type (net_devs s a))
      else register_net_dev d s = Some (1, s)) \<and>
    (\<forall>e. \<exists>s'. remove_net_dev e s = Some (if e \<in> set ds then 0 else 1, s') \<and> registered s' (remove1 e ds) \<and>
      (\<forall>a. nd_type (net_devs s' a) = nd_type (net_devs s a)))"
proof (intro conjI allI)
  have l: "llist nd_next (net_devs s) (net_dev_list s) ds" using assms(1) by (simp add: registered_def)
  show "if d \<noteq> 0 \<and> nd_type (net_devs s d) = NETDEV_ETHERNET
      then \<exists>s'. register_net_dev d s = Some (0, s') \<and> registered s' (ds @ [d]) \<and> (\<forall>a. nd_type (net_devs s' a) = nd_type (net_devs s a))
      else register_net_dev d s = Some (1, s)"
    using nq.list_append_ok [OF l _ assms(2)] net_links_type by (auto simp: register_net_dev_def registered_def)
  show "\<exists>s'. remove_net_dev e s = Some (if e \<in> set ds then 0 else 1, s') \<and> registered s' (remove1 e ds) \<and>
      (\<forall>a. nd_type (net_devs s' a) = nd_type (net_devs s a))" for e
  proof (cases "e = 0 \<or> net_dev_list s = 0")
    case True
    then have "e \<notin> set ds" using l lseg_nonnull [OF l] by auto
    then show ?thesis using True assms(1) by (simp add: remove_net_dev_def remove1_idem)
  next
    case False
    then obtain h m where hm: "list_remove nd_next (\<lambda>v. nd_next_update (\<lambda>_. v)) e (net_dev_list s) (net_devs s) = Some (e \<in> set ds, h, m)"
      "llist nd_next m h (remove1 e ds)" "only_links (\<lambda>v. nd_next_update (\<lambda>_. v)) (set ds) (net_devs s) m"
      using nq.list_remove_ok [OF l, of e] by blast
    have "remove_net_dev e s = Some (if e \<in> set ds then 0 else 1, s\<lparr>net_dev_list := h, net_devs := m\<rparr>)"
      using False hm(1) by (simp add: remove_net_dev_def)
    then show ?thesis using hm(2) net_links_type [OF hm(3)] by (simp add: registered_def)
  qed
qed

definition net0 :: net where
  "net0 = \<lparr>net_heap = heap1, net_devs = (\<lambda>_. \<lparr>nd_type = 1, nd_next = 0\<rparr>), net_dev_list = 0,
     pkts = (\<lambda>_. \<lparr>pkt_len = 0, pkt_data = 0\<rparr>), bytes_at = (\<lambda>_. 0), printed = []\<rparr>"

theorem net_registry_witness: "\<exists>s'. register_net_dev 0xC0115000 net0 = Some (0, s') \<and> registered s' [0xC0115000]"
  using net_registry [of net0 "[]" "0xC0115000"] by (auto simp: registered_def net0_def NETDEV_ETHERNET_def)

end
