(* ===== verification/Rtl.thy ===== *)
theory Rtl
  imports Isr_Spec Pci Net
begin

text \<open>
  The network card driver, \<open>drivers/rtl8139.c\<close>: start and stop of the module, the set-up of the
  card and the interrupt routine that takes packets from the receive buffer. The driver sits on
  top of the interrupt system, the PCI bus, the network layer, the heap and the page tables, and
  its state extends that of the interrupt system with theirs.
\<close>

section \<open>Registers\<close>

definition ID0 :: u32 where "ID0 = 0x00"
definition ID1 :: u32 where "ID1 = 0x01"
definition ID2 :: u32 where "ID2 = 0x02"
definition ID3 :: u32 where "ID3 = 0x03"
definition ID4 :: u32 where "ID4 = 0x04"
definition ID5 :: u32 where "ID5 = 0x05"
definition RBSTART :: u32 where "RBSTART = 0x30"
definition CR :: u32 where "CR = 0x37"
definition CAPR :: u32 where "CAPR = 0x38"
definition IMR :: u32 where "IMR = 0x3C"
definition ISR :: u32 where "ISR = 0x3E"
definition RCR :: u32 where "RCR = 0x44"
definition CONFIG1 :: u32 where "CONFIG1 = 0x52"

definition BUFE :: u8 where "BUFE = 0x01"
definition RE :: u8 where "RE = 0x08"
definition RST :: u8 where "RST = 0x10"
definition ROK :: u16 where "ROK = 0x0001"

definition AAP :: u32 where "AAP = 0x00000001"
definition APM :: u32 where "APM = 0x00000002"
definition AM :: u32 where "AM = 0x00000004"
definition AB :: u32 where "AB = 0x00000008"
definition WRAP :: u32 where "WRAP = 0x00000080"
definition MXDMA256 :: u32 where "MXDMA256 = 0x00000400"
definition RBLEN32K :: u32 where "RBLEN32K = 0x00001000"
definition RX_CONFIG :: u32 where "RX_CONFIG = RBLEN32K OR MXDMA256 OR WRAP OR AAP OR APM OR AM OR AB"

definition CFG_W_COMMAND :: u8 where "CFG_W_COMMAND = 0x04"
definition CFG0_L_BAR0 :: u8 where "CFG0_L_BAR0 = 0x10"

lemmas rtl_regs = ID0_def ID1_def ID2_def ID3_def ID4_def ID5_def RBSTART_def CR_def CAPR_def IMR_def ISR_def RCR_def CONFIG1_def
  BUFE_def RE_def RST_def ROK_def

text \<open>
  The macros \<open>RX_BUF_SIZE\<close> and \<open>RX_BUF_PAD\<close> are unparenthesised: as operands of a sum they are the
  products and sums they look like, but \<open>rx_ptr % RX_BUF_SIZE\<close> is \<open>(rx_ptr % 32) * 1024\<close>.
\<close>

definition RX_BUF_BYTES :: u32 where "RX_BUF_BYTES = 32 * 1024 + 16 + 1500"

definition wrap_rx_ptr :: "u16 \<Rightarrow> u16" where
  "wrap_rx_ptr p = (if p > 32 * 1024 then p mod 32 * 1024 else p)"

section \<open>State\<close>

definition SIZEOF_NET_DEV :: u32 where "SIZEOF_NET_DEV = 8"

text \<open>
  The heap and the port history are those of the interrupt system; the fields \<open>r_net\<close> and \<open>r_pci\<close>
  are given them for the time of a call.
\<close>

record rtl = interrupts +
  r_net :: net
  r_pci :: pci
  rtl_pci_dev :: addr
  rtl_net_dev :: addr
  rtl_started :: bool
  iobase :: u32
  mac :: "u8 list"
  rx_buf :: addr
  rx_buf_phys :: u32
  rx_ptr :: u16

text \<open>
  \<open>dma h m\<close> is the memory after the transfers the card made up to the history \<open>h\<close>. The page tables
  do not change. The last two are the addresses of the variable \<open>rtl_pci_dev\<close> and of the interrupt
  routine.
\<close>

record rtl_env =
  r_isr :: isr_env
  dma :: "history \<Rightarrow> mem \<Rightarrow> mem"
  r_paging :: paging
  at_rtl_pci_dev :: addr
  at_rtl_isr_handler :: addr

abbreviation r_dev :: "rtl_env \<Rightarrow> device" where
  "r_dev env \<equiv> i_dev (r_isr env)"

definition on_net :: "(net \<Rightarrow> ('x \<times> net) result option) \<Rightarrow> rtl \<Rightarrow> ('x \<times> rtl) result option" where
  "on_net f s = obind (f ((r_net s)\<lparr>net_heap := i_heap s\<rparr>)) (\<lambda>(x, n). Some (Inr (x, s\<lparr>r_net := n, i_heap := net_heap n\<rparr>)))"

definition r_kmalloc :: "u32 \<Rightarrow> rtl \<Rightarrow> (addr \<times> rtl) result option" where
  "r_kmalloc sz s = obind (kmalloc (i_heap s) sz) (\<lambda>(a, h). Some (Inr (a, s\<lparr>i_heap := h\<rparr>)))"

definition r_kfree :: "addr \<Rightarrow> rtl \<Rightarrow> rtl result option" where
  "r_kfree a s = Some (rbind (kfree (i_heap s) a) (\<lambda>h. Inr (s\<lparr>i_heap := h\<rparr>)))"

definition r_outb :: "u32 \<Rightarrow> u8 \<Rightarrow> rtl \<Rightarrow> rtl" where
  "r_outb p v s = s\<lparr>ports := outb (ucast p) v (ports s)\<rparr>"

definition r_outw :: "u32 \<Rightarrow> u16 \<Rightarrow> rtl \<Rightarrow> rtl" where
  "r_outw p v s = s\<lparr>ports := outw (ucast p) v (ports s)\<rparr>"

definition r_outl :: "u32 \<Rightarrow> u32 \<Rightarrow> rtl \<Rightarrow> rtl" where
  "r_outl p v s = s\<lparr>ports := outl (ucast p) v (ports s)\<rparr>"

definition r_inb :: "rtl_env \<Rightarrow> u32 \<Rightarrow> rtl \<Rightarrow> u8 \<times> rtl" where
  "r_inb env p s = (let (v, h) = inb (r_dev env) (ucast p) (ports s) in (v, s\<lparr>ports := h\<rparr>))"

definition r_inw :: "rtl_env \<Rightarrow> u32 \<Rightarrow> rtl \<Rightarrow> u16 \<times> rtl" where
  "r_inw env p s = (let (v, h) = inw (r_dev env) (ucast p) (ports s) in (v, s\<lparr>ports := h\<rparr>))"

lemmas r_port_defs = r_outb_def r_outw_def r_outl_def r_inb_def r_inw_def

section \<open>Receiving\<close>

definition rtl_rx_reset :: "rtl_env \<Rightarrow> rtl \<Rightarrow> rtl" where
  "rtl_rx_reset env s =
     (let (tmp, s) = r_inb env (iobase s + CR) s;
          s = r_outb (iobase s + CR) (tmp AND NOT RE) s;
          s = r_outb (iobase s + CR) tmp s
      in r_outl (iobase s + RCR) RX_CONFIG s)"

text \<open>
  One round of the receive loop, for the packet at the read pointer. \<open>net_alloc_pkt_buf\<close> is called
  with the 16-bit size, \<open>outb\<close> writes the low byte of the pointer.
\<close>

definition rtl_rx_packet :: "rtl_env \<Rightarrow> rtl \<Rightarrow> rtl result option" where
  "rtl_rx_packet env s =
     (let s = s\<lparr>rx_ptr := wrap_rx_ptr (rx_ptr s)\<rparr>;
          rx_header = load32 (bytes_at (r_net s)) (rx_buf s + ucast (rx_ptr s));
          rx_status = (ucast rx_header :: u16);
          rx_size = (ucast (drop_bit 16 rx_header) :: u16);
          pkt_size = rx_size - 4
      in obind
           (if rx_status = 0 then Some (Inr s)
            else obind (on_net (net_alloc_pkt_buf (ucast pkt_size)) s) (\<lambda>(pkt, s).
              if pkt \<noteq> 0
              then obind (on_net (\<lambda>n. Some (rbind (net_rx_pkt (rtl_net_dev s) pkt
                           (net_cpy_pkt (rx_buf s + ucast (rx_ptr s) + 4) pkt (ucast pkt_size) n)) (\<lambda>n. Inr ((), n)))) s)
                     (\<lambda>(_, s). Some (Inr s))
              else Some (Inr s)))
           (\<lambda>s. let s = s\<lparr>rx_ptr := (rx_ptr s + rx_size + 4 + 3) AND NOT 0x3\<rparr>
                in Some (Inr (r_outb (iobase s + CAPR) (ucast (rx_ptr s - 16)) s))))"

text \<open>The loop; when the card reports a packet, its transfer to memory is complete.\<close>

partial_function (option) rtl_rx_loop :: "rtl_env \<Rightarrow> rtl \<Rightarrow> rtl result option" where
  "rtl_rx_loop env s =
     (let (cmd, s) = r_inb env (iobase s + CR) s in
      if cmd AND BUFE = 0
      then let s = s\<lparr>r_net := (r_net s)\<lparr>bytes_at := dma env (ports s) (bytes_at (r_net s))\<rparr>\<rparr> in
           case rtl_rx_packet env s of
             None \<Rightarrow> None
           | Some (Inl e) \<Rightarrow> Some (Inl e)
           | Some (Inr s) \<Rightarrow> rtl_rx_loop env s
      else Some (Inr s))"

definition rtl_isr_handler :: "rtl_env \<Rightarrow> rtl \<Rightarrow> rtl result option" where
  "rtl_isr_handler env s =
     (let (int_flags, s) = r_inw env (iobase s + ISR) s;
          s = r_outw (iobase s + ISR) 0xFFFF s
      in obind (if int_flags AND ROK \<noteq> 0 then rtl_rx_loop env s else Some (Inr s))
           (\<lambda>s. Some (Inr (if int_flags AND NOT ROK \<noteq> 0 then rtl_rx_reset env s else s))))"

section \<open>The module\<close>

partial_function (option) wait_reset :: "rtl_env \<Rightarrow> rtl \<Rightarrow> rtl option" where
  "wait_reset env s = (let (v, s) = r_inb env (iobase s + CR) s in if v AND RST \<noteq> 0 then wait_reset env s else Some s)"

text \<open>The set-up after the reset.\<close>

definition rtl_setup :: "rtl_env \<Rightarrow> rtl \<Rightarrow> rtl" where
  "rtl_setup env s =
     (let s = r_outb (iobase s + CR) RE s;
          s = r_outl (iobase s + RCR) RX_CONFIG s;
          s = r_outl (iobase s + RBSTART) (rx_buf_phys s) s;
          s = r_outw (iobase s + IMR) 0xFFFF s;
          (m0, s) = r_inb env (iobase s + ID0) s;
          (m1, s) = r_inb env (iobase s + ID1) s;
          (m2, s) = r_inb env (iobase s + ID2) s;
          (m3, s) = r_inb env (iobase s + ID3) s;
          (m4, s) = r_inb env (iobase s + ID4) s;
          (m5, s) = r_inb env (iobase s + ID5) s
      in s\<lparr>mac := [m0, m1, m2, m3, m4, m5]\<rparr>)"

definition rtl_hardware_init :: "rtl_env \<Rightarrow> rtl \<Rightarrow> rtl option" where
  "rtl_hardware_init env s =
     (let (v, h) = pci_readl (r_dev env) (pdevs (r_pci s) (rtl_pci_dev s)) CFG0_L_BAR0 (ports s);
          s = s\<lparr>ports := h, iobase := v AND 0xFFFFFFFC\<rparr>;
          s = r_outb (iobase s + CONFIG1) 0x00 s;
          s = r_outb (iobase s + CR) RST s
      in map_option (rtl_setup env) (wait_reset env s))"

text \<open>The label \<open>cleanandfail\<close>.\<close>

definition cleanandfail :: "rtl \<Rightarrow> (u32 \<times> rtl) result option" where
  "cleanandfail s =
     obind (r_kfree (rtl_net_dev s) s) (\<lambda>s.
     obind (r_kfree (rx_buf s) (s\<lparr>rtl_net_dev := 0\<rparr>)) (\<lambda>s.
       Some (Inr (1, s\<lparr>rx_buf := 0\<rparr>))))"

text \<open>From the registration of the network device on.\<close>

definition rtl_attach :: "rtl_env \<Rightarrow> rtl \<Rightarrow> (u32 \<times> rtl) result option" where
  "rtl_attach env s =
     obind (on_net (\<lambda>n. map_option Inr (register_net_dev (rtl_net_dev s) n)) s) (\<lambda>(ret, s).
       if ret \<noteq> 0 then cleanandfail s
       else obind (request_irq (r_isr env) (ucast (intline (pdevs (r_pci s) (rtl_pci_dev s)))) (at_rtl_pci_dev env) (at_rtl_isr_handler env) s)
         (\<lambda>(ret, s).
           if ret \<noteq> 0 then cleanandfail s
           else obind (map_option Inr (rtl_hardware_init env s)) (\<lambda>s. Some (Inr (0, s\<lparr>rtl_started := True\<rparr>)))))"

definition rtl_module_init :: "rtl_env \<Rightarrow> rtl \<Rightarrow> (u32 \<times> rtl) result option" where
  "rtl_module_init env s =
     (if rtl_started s then Some (Inr (1, s))
      else case pci_search 0x10EC 0x8139 (r_pci s) of
          None \<Rightarrow> None
        | Some p \<Rightarrow>
            let s = s\<lparr>rtl_pci_dev := p\<rparr> in
            if p = 0 then Some (Inr (1, s))
            else
              let (c, h) = pci_readw (r_dev env) (pdevs (r_pci s) p) CFG_W_COMMAND (ports s);
                  s = s\<lparr>ports := pci_writew (r_dev env) (pdevs (r_pci s) p) CFG_W_COMMAND (c OR 0x04) h\<rparr>
              in obind (r_kmalloc SIZEOF_NET_DEV s) (\<lambda>(d, s).
                   let s = s\<lparr>rtl_net_dev := d\<rparr> in
                   if d = 0 then cleanandfail s
                   else
                     let s = s\<lparr>r_net := (r_net s)\<lparr>net_devs := (net_devs (r_net s))(d := \<lparr>nd_type = NETDEV_ETHERNET, nd_next = 0\<rparr>)\<rparr>\<rparr>
                     in obind (kmalloc_ap (r_paging env) (i_heap s) RX_BUF_BYTES True) (\<lambda>(b, phys, hp).
                          let s = s\<lparr>i_heap := hp, rx_buf := b, rx_buf_phys := (case phys of Some p \<Rightarrow> p | None \<Rightarrow> rx_buf_phys s)\<rparr> in
                          if b = 0 then cleanandfail s else rtl_attach env (s\<lparr>rx_ptr := 0\<rparr>))))"

definition rtl_module_kill :: "rtl_env \<Rightarrow> rtl \<Rightarrow> (u32 \<times> rtl) result option" where
  "rtl_module_kill env s =
     (if \<not> rtl_started s then Some (Inr (1, s))
      else
        let s = r_outb (iobase s + CR) 0x00 s;
            s = r_outw (iobase s + IMR) 0x0000 s
        in obind (release_irq (r_isr env) (ucast (intline (pdevs (r_pci s) (rtl_pci_dev s)))) (at_rtl_pci_dev env) s) (\<lambda>s.
           obind (on_net (\<lambda>n. map_option Inr (remove_net_dev (rtl_net_dev s) n)) s) (\<lambda>(_, s).
           obind (r_kfree (rtl_net_dev s) s) (\<lambda>s.
           obind (r_kfree (rx_buf s) s) (\<lambda>s.
             Some (Inr (0, s\<lparr>rtl_started := False\<rparr>)))))))"

section \<open>Packets\<close>

text \<open>The header of the packet at the read pointer: status and size, the trailing checksum included.\<close>

definition pkt_at :: "rtl \<Rightarrow> addr" where
  "pkt_at s = rx_buf s + ucast (wrap_rx_ptr (rx_ptr s))"

definition pkt_status :: "rtl \<Rightarrow> u16" where
  "pkt_status s = ucast (load32 (bytes_at (r_net s)) (pkt_at s))"

definition pkt_rx_size :: "rtl \<Rightarrow> u16" where
  "pkt_rx_size s = ucast (drop_bit 16 (load32 (bytes_at (r_net s)) (pkt_at s)))"

text \<open>The same addresses are live, with blocks of the same size.\<close>

definition same_live :: "heap \<Rightarrow> heap \<Rightarrow> bool" where
  "same_live h h' \<longleftrightarrow> heap_wf h' \<and> (\<forall>q k. heap_live h' q k = heap_live h q k)"

text \<open>
  \<open>delivered src n s' pkt\<close>: the packet buffer \<open>pkt\<close> handed to the network layer holds the \<open>n\<close> bytes
  that were at \<open>src\<close>.
\<close>

definition delivered :: "mem \<Rightarrow> addr \<Rightarrow> u32 \<Rightarrow> net \<Rightarrow> addr \<Rightarrow> bool" where
  "delivered m src n s' pkt \<longleftrightarrow> pkt \<noteq> 0 \<and> pkt_len (pkts s' pkt) = n \<and> pkt_data (pkts s' pkt) = pkt + 8 \<and>
     (\<forall>i < unat n. bytes_at s' (pkt + 8 + of_nat i) = m (src + of_nat i))"

lemma unat_ucast16 [simp]: "unat (ucast (x :: u16) :: u32) = unat x"
  by (simp add: unsigned_ucast_eq take_bit_eq_mod unsigned_less [of x, simplified] less_trans [OF unsigned_less [of x]])

lemma unat16_less [simp]: "unat (x :: u16) < 65536"
  using unsigned_less [of x, where ?'a = nat] by simp

lemma req_ok_pkt: "req_ok (ucast (x :: u16) + SIZEOF_PKT)"
proof -
  have "unat x + 8 < 4294967296" using unat16_less [of x] by linarith
  then have "unat (ucast x + SIZEOF_PKT) = unat x + 8" by (subst unat_add32) (simp_all add: SIZEOF_PKT_def)
  moreover have "unat x + 51 < 4294967296" using unat16_less [of x] by linarith
  ultimately show ?thesis by (simp add: req_ok_def)
qed

text \<open>Copying into a fresh block from inside another live block.\<close>

lemma copy_to_fresh:
  assumes wf: "heap_wf h" and b: "heap_live h b kb" "unat off + unat n + 20 \<le> unat kb"
    and p: "heap_live h p m" "unat n + 28 \<le> unat m" "p \<noteq> b"
  shows "i < unat n \<Longrightarrow> snd (memcpy (p + 8) (b + off) n mm) (p + 8 + of_nat i) = mm (b + off + of_nat i)"
proof -
  have bd: "unat b + unat kb < 4294967296" "unat p + unat m < 4294967296"
    using live_bound [OF wf b(1)] live_bound [OF wf p(1)] by simp_all
  have ap: "unat p + unat m \<le> unat b \<or> unat b + unat kb \<le> unat p" using heap_apart_law [OF wf p(1) b(1) p(3)] .
  have "p + 8 + of_nat i \<noteq> b + off + of_nat j" if ij: "i < unat n" "j < unat n" for i j
  proof -
    have oi: "unat (of_nat i :: u32) = i" "unat (of_nat j :: u32) = j" by (rule unat_of_nat32, use ij unat_less_2p32 [of n] in linarith)+
    have "unat (p + 8 + of_nat i) = unat p + 8 + i" using bd p(2) ij oi by (simp add: unat_add32)
    moreover have "unat (b + off + of_nat j) = unat b + unat off + j" using bd b(2) ij oi by (simp add: unat_add32)
    moreover have "unat p + 8 + i \<noteq> unat b + unat off + j" using ap b(2) p(2) ij by linarith
    ultimately show ?thesis by metis
  qed
  then show "i < unat n \<Longrightarrow> ?thesis" using memcpy_apart(1) [of n "p + 8" "b + off" i mm] by blast
qed

text \<open>The packet at the read pointer lies inside the receive buffer.\<close>

definition in_rx_buf :: "rtl \<Rightarrow> bool" where
  "in_rx_buf s \<longleftrightarrow> (\<exists>kb. heap_live (i_heap s) (rx_buf s) kb \<and>
     unat (wrap_rx_ptr (rx_ptr s)) + 4 + unat (pkt_rx_size s - 4) + 20 \<le> unat kb)"

text \<open>What one round does with the packet: it is dropped, or handed up with its bytes.\<close>

definition dropped :: "rtl \<Rightarrow> rtl \<Rightarrow> bool" where
  "dropped s s' \<longleftrightarrow> (pkt_status s = 0 \<or> kmalloc (i_heap s) (ucast (pkt_rx_size s - 4) + 8) = Some (Inr (0, i_heap s))) \<and>
     printed (r_net s') = printed (r_net s)"

definition handed_up :: "rtl \<Rightarrow> rtl \<Rightarrow> bool" where
  "handed_up s s' \<longleftrightarrow> pkt_status s \<noteq> 0 \<and> printed (r_net s') = printed (r_net s) @ [0x2E] \<and>
     (in_rx_buf s \<longrightarrow> (\<exists>pkt. delivered (bytes_at (r_net s)) (pkt_at s + 4) (ucast (pkt_rx_size s - 4)) (r_net s') pkt))"

text \<open>The variables of the driver that receiving does not touch.\<close>

definition same_card :: "rtl \<Rightarrow> rtl \<Rightarrow> bool" where
  "same_card s s' \<longleftrightarrow> iobase s' = iobase s \<and> rx_buf s' = rx_buf s \<and> rtl_started s' = rtl_started s \<and> node s' = node s \<and>
     net_devs (r_net s') = net_devs (r_net s) \<and> net_dev_list (r_net s') = net_dev_list (r_net s)"

lemma rtl_deliver_ok:
  assumes wf: "heap_wf (i_heap s)" and ps: "ps = pkt_rx_size s - 4" and st: "pkt_status s \<noteq> 0" and w: "wrap_rx_ptr (rx_ptr s) = q"
    and s1: "s1 = s\<lparr>rx_ptr := q\<rparr>"
  obtains s2 where "obind (on_net (net_alloc_pkt_buf (ucast ps)) s1) (\<lambda>(pkt, s).
        if pkt \<noteq> 0
        then obind (on_net (\<lambda>n. Some (rbind (net_rx_pkt (rtl_net_dev s) pkt
                     (net_cpy_pkt (rx_buf s + ucast (rx_ptr s) + 4) pkt (ucast ps) n)) (\<lambda>n. Inr ((), n)))) s) (\<lambda>(_, s). Some (Inr s))
        else Some (Inr s)) = Some (Inr s2)"
    "same_live (i_heap s) (i_heap s2)" "rx_ptr s2 = q" "ports s2 = ports s" "same_card s s2" "dropped s s2 \<or> handed_up s s2"
proof (cases rule: km.alloc_cases [OF wf req_ok_pkt [of ps], case_names null block])
  case null
  let ?s = "s1\<lparr>r_net := (r_net s1)\<lparr>net_heap := i_heap s\<rparr>\<rparr>"
  have "dropped s ?s" using null s1 ps by (simp add: dropped_def SIZEOF_PKT_def)
  moreover have "same_live (i_heap s) (i_heap ?s)" "same_card s ?s" using wf s1 by (simp_all add: same_live_def same_card_def)
  ultimately show thesis using that [of ?s] null s1 by (simp add: on_net_def net_alloc_pkt_buf_def)
next
  case (block p h m)
  from block(6) have lp: "heap_live h p m" by simp
  obtain h2 where h2: "kfree h p = Inr h2" "heap_wf h2" "\<forall>q k. heap_live h2 q k \<longleftrightarrow> heap_live h q k \<and> q \<noteq> p"
    using km.free_live [OF block(3) lp] by blast
  let ?src = "rx_buf s + ucast q + 4"
  define n2 where "n2 = (r_net s)\<lparr>net_heap := h2, pkts := upd_at (\<lambda>x. x\<lparr>pkt_len := ucast ps\<rparr>) p (upd_at (\<lambda>x. x\<lparr>pkt_data := p + SIZEOF_PKT\<rparr>) p (pkts (r_net s))),
     bytes_at := snd (memcpy (p + SIZEOF_PKT) ?src (ucast ps) (bytes_at (r_net s))), printed := printed (r_net s) @ [0x2E]\<rparr>"
  let ?s = "s1\<lparr>r_net := n2, i_heap := h2\<rparr>"
  have run: "obind (on_net (net_alloc_pkt_buf (ucast ps)) s1) (\<lambda>(pkt, s).
        if pkt \<noteq> 0
        then obind (on_net (\<lambda>n. Some (rbind (net_rx_pkt (rtl_net_dev s) pkt
                     (net_cpy_pkt (rx_buf s + ucast (rx_ptr s) + 4) pkt (ucast ps) n)) (\<lambda>n. Inr ((), n)))) s) (\<lambda>(_, s). Some (Inr s))
        else Some (Inr s)) = Some (Inr ?s)"
    using block(1,2) h2(1) s1
    by (simp add: on_net_def net_alloc_pkt_buf_def net_rx_pkt_def net_cpy_pkt_def net_free_pkt_buf_def Let_def n2_def)
  have live: "same_live (i_heap s) (i_heap ?s)" using h2(2,3) block(5,6) by (auto simp: same_live_def)
  have "delivered (bytes_at (r_net s)) (pkt_at s + 4) (ucast (pkt_rx_size s - 4)) (r_net ?s) p" if inb: "in_rx_buf s"
  proof -
    obtain kb where kb: "heap_live (i_heap s) (rx_buf s) kb" "unat q + 4 + unat ps + 20 \<le> unat kb"
      using inb w ps unfolding in_rx_buf_def by blast
    have "unat (ucast q + 4 :: u32) = unat q + 4"
    proof -
      have "unat q + 4 < 4294967296" using unat16_less [of q] by linarith
      then show ?thesis by (subst unat_add32) simp_all
    qed
    then have off: "unat (ucast q + 4 :: u32) + unat (ucast ps :: u32) + 20 \<le> unat kb" using kb(2) by simp
    have "unat (ucast ps + SIZEOF_PKT) = unat ps + 8"
    proof -
      have "unat ps + 8 < 4294967296" using unat16_less [of ps] by linarith
      then show ?thesis by (subst unat_add32) (simp_all add: SIZEOF_PKT_def)
    qed
    then have m: "unat (ucast ps :: u32) + 28 \<le> unat m" using block(4) by simp
    have "heap_live h (rx_buf s) kb" "p \<noteq> rx_buf s" using kb(1) block(5,6) by auto
    from copy_to_fresh [OF block(3) this(1) off lp m this(2)] show ?thesis
      using block(2) ps w by (simp add: delivered_def n2_def SIZEOF_PKT_def pkt_at_def add.assoc)
  qed
  then have "handed_up s ?s" using st by (auto simp: handed_up_def n2_def)
  moreover have "same_card s ?s" "rx_ptr ?s = q" "ports ?s = ports s" using s1 by (simp_all add: same_card_def n2_def)
  ultimately show thesis using that run live by blast
qed

lemma rtl_rx_packet_ok:
  assumes wf: "heap_wf (i_heap s)"
  obtains s' where "rtl_rx_packet env s = Some (Inr s')" "same_live (i_heap s) (i_heap s')"
    "rx_ptr s' = (wrap_rx_ptr (rx_ptr s) + pkt_rx_size s + 4 + 3) AND NOT 0x3"
    "ports s' = Out8 (ucast (iobase s + 0x38)) (ucast (rx_ptr s' - 16)) # ports s" "same_card s s'" "dropped s s' \<or> handed_up s s'"
proof -
  define q where "q = wrap_rx_ptr (rx_ptr s)"
  define ps where "ps = pkt_rx_size s - 4"
  let ?e = "\<lambda>s1. let s1 = s1\<lparr>rx_ptr := (rx_ptr s1 + pkt_rx_size s + 4 + 3) AND NOT 0x3\<rparr>
                in Some (Inr (r_outb (iobase s1 + CAPR) (ucast (rx_ptr s1 - 16)) s1)) :: rtl result option"
  note goal = that
  have fin: thesis if r: "rtl_rx_packet env s = ?e s2" and s2: "same_live (i_heap s) (i_heap s2)" "rx_ptr s2 = q" "ports s2 = ports s"
    "same_card s s2" "dropped s s2 \<or> handed_up s s2" for s2
  proof -
    let ?t = "s2\<lparr>rx_ptr := (q + pkt_rx_size s + 4 + 3) AND NOT 0x3\<rparr>"
    let ?s = "r_outb (iobase s2 + CAPR) (ucast (rx_ptr ?t - 16)) ?t"
    have "rtl_rx_packet env s = Some (Inr ?s)" using r s2(2) by simp
    moreover have "dropped s ?s \<or> handed_up s ?s" using s2(5) by (simp add: dropped_def handed_up_def r_outb_def)
    moreover have "same_card s ?s" "i_heap ?s = i_heap s2" using s2(4) by (simp_all add: r_outb_def same_card_def)
    moreover have "rx_ptr ?s = (wrap_rx_ptr (rx_ptr s) + pkt_rx_size s + 4 + 3) AND NOT 0x3" by (simp add: r_outb_def q_def)
    moreover have "ports ?s = Out8 (ucast (iobase s + 0x38)) (ucast (rx_ptr ?s - 16)) # ports s"
      using s2(3,4) by (simp add: r_outb_def outb_def CAPR_def same_card_def)
    ultimately show thesis using goal [of ?s] s2(1) by metis
  qed
  show thesis
  proof (cases "pkt_status s = 0")
    case True
    have "rtl_rx_packet env s = ?e (s\<lparr>rx_ptr := q\<rparr>)"
      using True by (simp add: rtl_rx_packet_def Let_def pkt_status_def pkt_rx_size_def pkt_at_def q_def)
    then show thesis by (rule fin) (use True wf in \<open>simp_all add: same_live_def same_card_def dropped_def\<close>)
  next
    case False
    obtain s2 where s2: "obind (on_net (net_alloc_pkt_buf (ucast ps)) (s\<lparr>rx_ptr := q\<rparr>)) (\<lambda>(pkt, s).
        if pkt \<noteq> 0
        then obind (on_net (\<lambda>n. Some (rbind (net_rx_pkt (rtl_net_dev s) pkt
                     (net_cpy_pkt (rx_buf s + ucast (rx_ptr s) + 4) pkt (ucast ps) n)) (\<lambda>n. Inr ((), n)))) s) (\<lambda>(_, s). Some (Inr s))
        else Some (Inr s)) = Some (Inr s2)"
      "same_live (i_heap s) (i_heap s2)" "rx_ptr s2 = q" "ports s2 = ports s" "same_card s s2" "dropped s s2 \<or> handed_up s s2"
      using rtl_deliver_ok [OF wf ps_def False q_def [symmetric] refl] by blast
    have "rtl_rx_packet env s = obind (Some (Inr s2)) ?e"
      using False unfolding s2(1) [symmetric] rtl_rx_packet_def Let_def pkt_status_def pkt_rx_size_def pkt_at_def q_def ps_def
      by (simp cong: if_cong)
    then have "rtl_rx_packet env s = ?e s2" by simp
    then show thesis by (rule fin) (use s2 in blast)+
  qed
qed

section \<open>The interrupt routine\<close>

text \<open>How often the driver told the card that it has taken a packet.\<close>

fun is_out8 :: "u16 \<Rightarrow> event \<Rightarrow> bool" where
  "is_out8 port (Out8 p v) = (p = port)"
| "is_out8 port _ = False"

definition acks :: "u16 \<Rightarrow> history \<Rightarrow> nat" where
  "acks port h = length (filter (is_out8 port) h)"

lemma acks_Cons [simp]: "acks port (e # h) = (if is_out8 port e then Suc (acks port h) else acks port h)"
  by (simp add: acks_def)

text \<open>The card has \<open>k\<close> packets in all: its buffer is empty once as many were taken.\<close>

definition card_total :: "rtl_env \<Rightarrow> u32 \<Rightarrow> nat \<Rightarrow> bool" where
  "card_total env io k \<longleftrightarrow> (\<forall>h. dev8 (r_dev env) h (ucast (io + 0x37)) AND 0x01 = 0 \<longleftrightarrow> acks (ucast (io + 0x38)) h < k)"

lemma same_card_trans: "same_card s t \<Longrightarrow> same_card t u \<Longrightarrow> same_card s u"
  by (simp add: same_card_def)

lemma same_live_trans: "same_live h h' \<Longrightarrow> same_live h' h'' \<Longrightarrow> same_live h h''"
  by (simp add: same_live_def)

definition received :: "nat \<Rightarrow> rtl \<Rightarrow> rtl \<Rightarrow> bool" where
  "received n s s' \<longleftrightarrow> same_live (i_heap s) (i_heap s') \<and> same_card s s' \<and>
     (\<exists>j \<le> n. printed (r_net s') = printed (r_net s) @ replicate j 0x2E)"

lemma received_Suc: "received 1 s t \<Longrightarrow> received n t u \<Longrightarrow> received (Suc n) s u"
proof -
  assume r: "received 1 s t" "received n t u"
  then obtain i j where ij: "i \<le> 1" "j \<le> n" "printed (r_net t) = printed (r_net s) @ replicate i 0x2E"
    "printed (r_net u) = printed (r_net t) @ replicate j 0x2E" by (auto simp: received_def)
  then have "i + j \<le> Suc n" "printed (r_net u) = printed (r_net s) @ replicate (i + j) 0x2E" by (simp_all add: replicate_add)
  then show ?thesis using r same_card_trans same_live_trans unfolding received_def by blast
qed

lemma received_packet: "same_live (i_heap s) (i_heap s') \<Longrightarrow> same_card s s' \<Longrightarrow> dropped s s' \<or> handed_up s s' \<Longrightarrow> received 1 s s'"
  unfolding received_def dropped_def handed_up_def
  by (metis append.right_neutral le_numeral_extra(4) replicate_0 replicate_Suc One_nat_def zero_le)

lemma rtl_rx_loop_ok:
  assumes "card_total env (iobase s) k"
  shows "heap_wf (i_heap s) \<Longrightarrow> acks (ucast (iobase s + 0x38)) (ports s) + n = k \<Longrightarrow>
    \<exists>s'. rtl_rx_loop env s = Some (Inr s') \<and> received n s s' \<and> acks (ucast (iobase s + 0x38)) (ports s') = k"
  using assms
proof (induction n arbitrary: s)
  case 0
  let ?p = "ucast (iobase s + CR) :: u16"
  let ?s = "s\<lparr>ports := In8 ?p (dev8 (r_dev env) (ports s) ?p) # ports s\<rparr>"
  have "dev8 (r_dev env) (ports s) ?p AND BUFE \<noteq> 0" using 0 by (simp add: card_total_def CR_def BUFE_def)
  then have "rtl_rx_loop env s = Some (Inr ?s)" by (subst rtl_rx_loop.simps) (simp add: r_inb_def inb_def Let_def)
  then show ?case using 0 by (simp add: received_def same_live_def same_card_def)
next
  case (Suc n)
  let ?p = "ucast (iobase s + CR) :: u16"
  let ?h = "In8 ?p (dev8 (r_dev env) (ports s) ?p) # ports s"
  define s1 where "s1 = s\<lparr>ports := ?h, r_net := (r_net s)\<lparr>bytes_at := dma env ?h (bytes_at (r_net s))\<rparr>\<rparr>"
  have s1: "i_heap s1 = i_heap s" "iobase s1 = iobase s" "ports s1 = ?h" "received 0 s s1"
    using Suc.prems(1) by (simp_all add: s1_def received_def same_live_def same_card_def)
  have wf1: "heap_wf (i_heap s1)" using s1(1) Suc.prems(1) by simp
  obtain s2 where s2: "rtl_rx_packet env s1 = Some (Inr s2)" "same_live (i_heap s1) (i_heap s2)"
    "ports s2 = Out8 (ucast (iobase s1 + 0x38)) (ucast (rx_ptr s2 - 16)) # ports s1" "same_card s1 s2" "dropped s1 s2 \<or> handed_up s1 s2"
    using rtl_rx_packet_ok [OF wf1] by blast
  have r2: "received 1 s1 s2" by (rule received_packet [OF s2(2,4,5)])
  have io: "iobase s2 = iobase s" using s2(4) s1(2) by (simp add: same_card_def)
  have "dev8 (r_dev env) (ports s) ?p AND BUFE = 0" using Suc.prems(2,3) by (simp add: card_total_def CR_def BUFE_def)
  then have run: "rtl_rx_loop env s = rtl_rx_loop env s2"
    using s2(1) by (subst rtl_rx_loop.simps) (simp add: r_inb_def inb_def Let_def s1_def)
  have "acks (ucast (iobase s2 + 0x38)) (ports s2) + n = k" "heap_wf (i_heap s2)" "card_total env (iobase s2) k"
    using Suc.prems s2(2,3) s1(2,3) io by (simp_all add: same_live_def)
  from Suc.IH [OF this(2,1,3)] obtain s' where s': "rtl_rx_loop env s2 = Some (Inr s')" "received n s2 s'"
    "acks (ucast (iobase s2 + 0x38)) (ports s') = k" by blast
  have "received 1 s s2" using r2 s1(4) by (auto simp: received_def same_live_def same_card_def)
  then show ?case using run s' io received_Suc by metis
qed

lemma ucast_add16: "(ucast (a + b :: u32) :: u16) = ucast a + ucast b"
proof -
  have c: "x mod 4294967296 mod 65536 = x mod (65536 :: nat)" for x by (rule mod_mod_cancel) simp
  show ?thesis
    by (simp only: word_unat_eq_iff unsigned_ucast_eq unat_word_ariths take_bit_eq_mod) (simp add: c mod_simps)
qed

lemma rtl_rx_reset_ok: "received 0 s (rtl_rx_reset env s) \<or> \<not> heap_wf (i_heap s)"
    "acks (ucast (iobase s + 0x38)) (ports (rtl_rx_reset env s)) = acks (ucast (iobase s + 0x38)) (ports s)"
proof -
  have "(ucast (iobase s + 0x37) :: u16) \<noteq> ucast (iobase s + 0x38)" by (simp add: ucast_add16)
  then show "received 0 s (rtl_rx_reset env s) \<or> \<not> heap_wf (i_heap s)"
    "acks (ucast (iobase s + 0x38)) (ports (rtl_rx_reset env s)) = acks (ucast (iobase s + 0x38)) (ports s)"
    by (auto simp: rtl_rx_reset_def r_port_defs port_defs Let_def received_def same_live_def same_card_def CR_def RCR_def)
qed


definition card1 :: rtl_env where
  "card1 = \<lparr>r_isr = isr_env1\<lparr>i_dev := \<lparr>dev8 = (\<lambda>h p. if acks 0x38 h < 2 then 0 else 1), dev16 = (\<lambda>_ _. 1), dev32 = (\<lambda>_ _. 0)\<rparr>\<rparr>,
     dma = (\<lambda>_ m. m), r_paging = paging0, at_rtl_pci_dev = 0xC0111000, at_rtl_isr_handler = 0xC0106000\<rparr>"

definition rtl0 :: rtl where
  "rtl0 = interrupts.extend interrupts0 \<lparr>r_net = net0, r_pci = pci0, rtl_pci_dev = 0, rtl_net_dev = 0, rtl_started = True, iobase = 0,
     mac = [], rx_buf = 0xC0121000, rx_buf_phys = 0x121000, rx_ptr = 0\<rparr>"


text \<open>
  Wrapping the read pointer. Just past the end of the buffer the pointer should go back to its
  offset from the start; the macro makes it a multiple of 1024 instead.
\<close>

theorem rx_wrap_wrong:
  assumes "32768 < unat p" "unat p < 33792"
  shows "unat (wrap_rx_ptr p) = 1024 * (unat p mod 32)" "unat (wrap_rx_ptr p) \<noteq> unat p mod 32768"
proof -
  have "p > 32 * 1024" using assms(1) by (simp add: word_less_nat_alt)
  moreover have "unat (p mod 32) = unat p mod 32" by (simp add: unat_mod_distrib)
  moreover have "unat p mod 32 * 1024 < 65536" using mod_less_divisor [of 32 "unat p"] by linarith
  ultimately show w: "unat (wrap_rx_ptr p) = 1024 * (unat p mod 32)" by (simp add: wrap_rx_ptr_def unat_word_ariths)
  have "unat p mod 32768 = unat p - 32768" using assms by (simp add: mod_if)
  then show "unat (wrap_rx_ptr p) \<noteq> unat p mod 32768" unfolding w using assms by (cases "unat p mod 32") auto
qed



section \<open>Attaching the card\<close>

lemma request_irq_more: "request_irq env irq k f s = Some (Inr (r, s')) \<Longrightarrow> interrupts.more s' = interrupts.more s"
  by (auto simp: request_irq_def request_isr_def upd_node_def Let_def rbind_eq_Inr split: if_splits option.splits sum.splits)

lemma more_rtl:
  fixes s t :: rtl
  shows "interrupts.more s = interrupts.more t \<Longrightarrow> r_net s = r_net t \<and> r_pci s = r_pci t \<and> rtl_pci_dev s = rtl_pci_dev t \<and>
    rtl_net_dev s = rtl_net_dev t \<and> rx_buf s = rx_buf t \<and> rx_buf_phys s = rx_buf_phys t \<and> rtl_started s = rtl_started t"
  by (cases s; cases t) simp

lemma wait_reset_polled:
  "fst (inb (r_dev env) (ucast (iobase s + CR)) (polled (r_dev env) (ucast (iobase s + CR)) n (ports s))) AND RST = 0 \<Longrightarrow>
   \<exists>h. wait_reset env s = Some (s\<lparr>ports := h\<rparr>)"
proof (induction n arbitrary: s)
  case 0
  then show ?case by (subst wait_reset.simps) (auto simp: r_inb_def inb_def Let_def)
next
  case (Suc n)
  let ?p = "ucast (iobase s + CR) :: u16"
  let ?s = "s\<lparr>ports := snd (inb (r_dev env) ?p (ports s))\<rparr>"
  obtain h where "wait_reset env ?s = Some (?s\<lparr>ports := h\<rparr>)" using Suc.IH [of ?s] Suc.prems by auto
  then show ?case by (subst wait_reset.simps) (auto simp: r_inb_def inb_def Let_def)
qed

lemma rtl_setup_frame: "rtl_setup env s = s\<lparr>ports := ports (rtl_setup env s), mac := mac (rtl_setup env s)\<rparr>"
  by (simp add: rtl_setup_def r_port_defs port_defs Let_def)

lemma rtl_setup_effect:
  "length (mac (rtl_setup env s)) = 6"
  "{Out8 (ucast (iobase s + 0x37)) 0x08, Out32 (ucast (iobase s + 0x44)) RX_CONFIG, Out32 (ucast (iobase s + 0x30)) (rx_buf_phys s),
    Out16 (ucast (iobase s + 0x3C)) 0xFFFF} \<subseteq> set (ports (rtl_setup env s))"
  by (simp_all add: rtl_setup_def r_port_defs port_defs Let_def rtl_regs)

text \<open>What \<open>rtl_hardware_init\<close> leaves: the card knows its buffer and may interrupt.\<close>

lemma rtl_hardware_init_ok:
  assumes "pci_host (r_dev env) cfg" "io = cfg (calc_pci_addr (pdevs (r_pci s) (rtl_pci_dev s)) 0x10) AND 0xFFFFFFFC"
    "clears (r_dev env) (ucast (io + 0x37)) RST"
  obtains h ms where "rtl_hardware_init env s = Some (s\<lparr>ports := h, iobase := io, mac := ms\<rparr>)" "length ms = 6"
    "{Out8 (ucast (io + 0x37)) 0x08, Out32 (ucast (io + 0x44)) RX_CONFIG, Out32 (ucast (io + 0x30)) (rx_buf_phys s), Out16 (ucast (io + 0x3C)) 0xFFFF} \<subseteq> set h"
proof -
  let ?pd = "pdevs (r_pci s) (rtl_pci_dev s)"
  let ?a = "calc_pci_addr ?pd 0x10"
  define s1 where "s1 = s\<lparr>iobase := io, ports := Out8 (ucast (io + CR)) RST # Out8 (ucast (io + CONFIG1)) 0 # In32 0xCFC (cfg ?a) # Out32 0xCF8 ?a # ports s\<rparr>"
  have rd: "pci_readl (r_dev env) ?pd CFG0_L_BAR0 (ports s) = (cfg ?a, In32 0xCFC (cfg ?a) # Out32 0xCF8 ?a # ports s)"
    using assms(1) by (simp add: pci_readl_def port_defs pci_consts pci_host_def CFG0_L_BAR0_def Let_def)
  have io: "iobase s1 = io" by (simp add: s1_def)
  then obtain h where h: "wait_reset env s1 = Some (s1\<lparr>ports := h\<rparr>)"
    using wait_reset_polled [of env s1] assms(3) unfolding io clears_def CR_def by meson
  have "rtl_hardware_init env s = map_option (rtl_setup env) (wait_reset env s1)"
    by (simp add: rtl_hardware_init_def rd Let_def r_outb_def outb_def s1_def assms(2))
  then have "rtl_hardware_init env s = Some (rtl_setup env (s1\<lparr>ports := h\<rparr>))" using h by simp
  moreover have "rtl_setup env (s1\<lparr>ports := h\<rparr>)
      = s\<lparr>ports := ports (rtl_setup env (s1\<lparr>ports := h\<rparr>)), iobase := io, mac := mac (rtl_setup env (s1\<lparr>ports := h\<rparr>))\<rparr>"
    by (subst (1) rtl_setup_frame) (simp add: s1_def)
  ultimately show thesis using that rtl_setup_effect [where env = env and s = "s1\<lparr>ports := h\<rparr>"] by (simp add: s1_def)
qed

text \<open>The handler chains depend on the nodes and the heap only.\<close>

lemma same_nodes:
  assumes "node s' = node s"
  shows "attached env s' i es = attached env s i es" "i_heap s' = i_heap s \<Longrightarrow> isr_wf env lo hi s' = isr_wf env lo hi s"
proof -
  have "entry s' = entry s" using assms by (simp add: entry_def fun_eq_iff)
  then show "attached env s' i es = attached env s i es" using assms by (simp add: attached_def)
  show "i_heap s' = i_heap s \<Longrightarrow> isr_wf env lo hi s' = isr_wf env lo hi s"
    using assms by (simp add: isr_wf_def isr_inv_def chain_ok_def)
qed

lemma r_kfree_ok:
  assumes "heap_wf (i_heap s)" "heap_live (i_heap s) a m"
  obtains h where "r_kfree a s = Some (Inr (s\<lparr>i_heap := h\<rparr>))" "heap_wf h" "\<forall>q k. heap_live h q k \<longleftrightarrow> heap_live (i_heap s) q k \<and> q \<noteq> a"
  using km.free_live [OF assms] by (auto simp: r_kfree_def)

lemma cleanandfail_ok:
  assumes "heap_wf (i_heap s)" "heap_live (i_heap s) (rtl_net_dev s) m" "heap_live (i_heap s) (rx_buf s) k" "rtl_net_dev s \<noteq> rx_buf s"
  obtains h where "cleanandfail s = Some (Inr (1, s\<lparr>i_heap := h, rtl_net_dev := 0, rx_buf := 0\<rparr>))" "heap_wf h"
    "\<forall>q k. heap_live h q k \<longleftrightarrow> heap_live (i_heap s) q k \<and> q \<notin> {rtl_net_dev s, rx_buf s}"
proof -
  obtain h1 where h1: "r_kfree (rtl_net_dev s) s = Some (Inr (s\<lparr>i_heap := h1\<rparr>))" "heap_wf h1"
    "\<forall>q k. heap_live h1 q k \<longleftrightarrow> heap_live (i_heap s) q k \<and> q \<noteq> rtl_net_dev s" using r_kfree_ok [OF assms(1,2)] by blast
  let ?s = "s\<lparr>i_heap := h1, rtl_net_dev := 0\<rparr>"
  have "heap_wf (i_heap ?s)" "heap_live (i_heap ?s) (rx_buf s) k" using h1(2,3) assms(3,4) by auto
  then obtain h2 where "r_kfree (rx_buf s) ?s = Some (Inr (?s\<lparr>i_heap := h2\<rparr>))" "heap_wf h2"
    "\<forall>q k. heap_live h2 q k \<longleftrightarrow> heap_live h1 q k \<and> q \<noteq> rx_buf s" using r_kfree_ok [of ?s] by auto
  then show thesis using that [of h2] h1 by (simp add: cleanandfail_def)
qed


definition card2 :: rtl_env where
  "card2 = card1\<lparr>r_isr := isr_env1\<lparr>i_dev := pc\<lparr>dev32 := dev32 pci_machine\<rparr>\<rparr>\<rparr>"

text \<open>The state before the attachment: two live blocks, no handlers, the card on line 11.\<close>

definition rtl1 :: "heap \<Rightarrow> rtl" where
  "rtl1 h = rtl0\<lparr>i_heap := h, rtl_net_dev := 0xC0120014, rx_buf := 0xC012004C, rtl_started := False, rtl_pci_dev := 0xC0115000,
     r_pci := pci0\<lparr>pdevs := (\<lambda>_. pci_dev0\<lparr>devn := 3, intline := 11\<rparr>)\<rparr>\<rparr>"

lemma rtl1_sel:
  "node (rtl1 h) = (\<lambda>_. \<lparr>hnd_id = 0, handler = 0, hnd_next = 0\<rparr>)" "i_heap (rtl1 h) = h" "ports (rtl1 h) = []" "r_net (rtl1 h) = net0"
  "rtl_net_dev (rtl1 h) = 0xC0120014" "rx_buf (rtl1 h) = 0xC012004C" "pdevs (r_pci (rtl1 h)) (rtl_pci_dev (rtl1 h)) = pci_dev0\<lparr>devn := 3, intline := 11\<rparr>"
  by (simp_all add: rtl1_def rtl0_def interrupts.defs interrupts0_def)

lemma rtl1_wf: "heap_at 0xC0120000 0xC0130000 h \<Longrightarrow> isr_wf (r_isr card2) 0xC0120000 0xC0130000 (rtl1 h)"
  unfolding isr_wf_def isr_inv_def
  by (intro exI [of _ "\<lambda>_. []"]) (auto simp: chain_ok_def rtl1_sel card2_def isr_env1_def slot_def SIZEOF_HANDLER_def eq32_iff unat_word_ariths word_less_nat_alt)


end
