(* ===== verification/Acpi.thy ===== *)
theory Acpi
  imports Cstring
begin

text \<open>
  The search for the ACPI tables, \<open>i386/acpi.c\<close>: the root pointer is looked for on 16-byte boundaries
  of the low memory and its checksums are verified.
\<close>

section \<open>The C functions\<close>

definition RSDP_SIG_HI :: u32 where "RSDP_SIG_HI = 0x20445352"
definition RSDP_SIG_LO :: u32 where "RSDP_SIG_LO = 0x20525450"

text \<open>The packed structure of 36 bytes, of which the code reads the revision.\<close>

definition SIZEOF_RSDP :: nat where "SIZEOF_RSDP = 36"

definition rsdp_revision :: "mem \<Rightarrow> addr \<Rightarrow> u8" where
  "rsdp_revision m rsdp = m (rsdp + 15)"

text \<open>The search loop; its result is the pointer \<open>rsdp\<close>, null if the loop ran to its end.\<close>

function rsdp_search :: "mem \<Rightarrow> u32 \<Rightarrow> addr" where
  "rsdp_search m i =
     (if i < 0x000FFFFF
      then if load32 m i = RSDP_SIG_HI \<and> load32 m (i + 0x04) = RSDP_SIG_LO then i else rsdp_search m (i + 0x10)
      else 0)"
  by pat_completeness auto
termination
proof (relation "measure (\<lambda>(m, i). 0x100000 - unat i)")
  fix m and i :: u32
  assume "i < 0x000FFFFF"
  then have "unat i < 0xFFFFF" by (simp add: word_less_nat_alt)
  then have "unat (i + 0x10) = unat i + 16" "unat i < 0x100000" by (simp_all add: unat_add32)
  then show "((m, i + 0x10), (m, i)) \<in> measure (\<lambda>(m, i). 0x100000 - unat i)" by simp
qed simp

declare rsdp_search.simps [simp del]

definition byte_sum :: "mem \<Rightarrow> addr \<Rightarrow> nat \<Rightarrow> u32" where
  "byte_sum m rsdp n = fold (\<lambda>i s. s + ucast (m (rsdp + of_nat i))) [0..<n] 0"

text \<open>The ways \<open>acpi_init\<close> ends: with one of its three messages, or silently with a valid pointer.\<close>

datatype acpi_result = Not_Supported | Checksum_Failed | Ext_Checksum_Failed | Valid addr

definition acpi_init :: "mem \<Rightarrow> acpi_result" where
  "acpi_init m =
     (let rsdp = rsdp_search m 0x00080000 in
      if rsdp = 0 then Not_Supported
      else if (ucast (byte_sum m rsdp 20) :: u8) \<noteq> 0 then Checksum_Failed
      else if rsdp_revision m rsdp \<ge> 1 \<and> (ucast (byte_sum m rsdp SIZEOF_RSDP) :: u8) \<noteq> 0 then Ext_Checksum_Failed
      else Valid rsdp)"

section \<open>Reference\<close>

text \<open>
  The table as the specification describes it: the eight characters of the signature, and bytes
  that add up to a multiple of 256.
\<close>

definition bytes_of :: "mem \<Rightarrow> addr \<Rightarrow> nat \<Rightarrow> u8 list" where
  "bytes_of m a n = map (\<lambda>i. m (a + of_nat i)) [0..<n]"

definition rsd_ptr :: "u8 list" where
  "rsd_ptr = ascii ''RSD PTR ''"

definition sums_to_zero :: "mem \<Rightarrow> addr \<Rightarrow> nat \<Rightarrow> bool" where
  "sums_to_zero m a n \<longleftrightarrow> sum_list (map unat (bytes_of m a n)) mod 256 = 0"

definition candidates :: "addr list" where
  "candidates = map (\<lambda>k. 0x80000 + 16 * of_nat k) [0..<0x8000]"

definition acpi_reference :: "mem \<Rightarrow> acpi_result" where
  "acpi_reference m =
     (case find (\<lambda>a. bytes_of m a 8 = rsd_ptr) candidates of
        None \<Rightarrow> Not_Supported
      | Some a \<Rightarrow>
          if \<not> sums_to_zero m a 20 then Checksum_Failed
          else if m (a + 15) \<noteq> 0 \<and> \<not> sums_to_zero m a 36 then Ext_Checksum_Failed
          else Valid a)"

lemma load32_bytes:
  "(ucast (load32 m a) :: u8) = m a" "(ucast (drop_bit 8 (load32 m a)) :: u8) = m (a + 1)"
  "(ucast (drop_bit 16 (load32 m a)) :: u8) = m (a + 2)" "(ucast (drop_bit 24 (load32 m a)) :: u8) = m (a + 3)"
  by (rule bit_word_eqI; auto simp: load32_def bit_simps dest: bit_imp_le_length)+

lemma load32_eq:
  "load32 m a = w \<longleftrightarrow> m a = ucast w \<and> m (a + 1) = ucast (drop_bit 8 w) \<and> m (a + 2) = ucast (drop_bit 16 w) \<and> m (a + 3) = ucast (drop_bit 24 w)"
proof
  assume r: "m a = ucast w \<and> m (a + 1) = ucast (drop_bit 8 w) \<and> m (a + 2) = ucast (drop_bit 16 w) \<and> m (a + 3) = ucast (drop_bit 24 w)"
  show "load32 m a = w"
  proof (rule bit_word_eqI)
    fix n assume "n < LENGTH(32)"
    then have n: "n < 32" by simp
    consider "n < 8" | "8 \<le> n" "n < 16" | "16 \<le> n" "n < 24" | "24 \<le> n" by linarith
    then show "bit (load32 m a) n \<longleftrightarrow> bit w n" using n r by cases (auto simp: load32_def bit_simps)
  qed
qed (auto simp: load32_bytes)

lemma signature_bytes: "load32 m a = RSDP_SIG_HI \<and> load32 m (a + 4) = RSDP_SIG_LO \<longleftrightarrow> bytes_of m a 8 = rsd_ptr"
proof -
  have "[0..<8] = [0, 1, 2, 3, 4, 5, 6, 7 :: nat]" by (simp add: upt_conv_Cons)
  then have b: "bytes_of m a 8 = [m a, m (a + 1), m (a + 2), m (a + 3), m (a + 4), m (a + 5), m (a + 6), m (a + 7)]" by (simp add: bytes_of_def)
  have s: "rsd_ptr = [0x52, 0x53, 0x44, 0x20, 0x50, 0x54, 0x52, 0x20]" by (simp add: rsd_ptr_def ascii_def)
  have hi: "(ucast RSDP_SIG_HI :: u8) = 0x52" "(ucast (drop_bit 8 RSDP_SIG_HI) :: u8) = 0x53"
    "(ucast (drop_bit 16 RSDP_SIG_HI) :: u8) = 0x44" "(ucast (drop_bit 24 RSDP_SIG_HI) :: u8) = 0x20"
    by (simp_all add: RSDP_SIG_HI_def word_unat_eq_iff unsigned_ucast_eq take_bit_eq_mod)
  have lo: "(ucast RSDP_SIG_LO :: u8) = 0x50" "(ucast (drop_bit 8 RSDP_SIG_LO) :: u8) = 0x54"
    "(ucast (drop_bit 16 RSDP_SIG_LO) :: u8) = 0x52" "(ucast (drop_bit 24 RSDP_SIG_LO) :: u8) = 0x20"
    by (simp_all add: RSDP_SIG_LO_def word_unat_eq_iff unsigned_ucast_eq take_bit_eq_mod)
  show ?thesis unfolding b s load32_eq hi lo by (simp add: add.assoc)
qed

definition candidate :: "nat \<Rightarrow> addr" where
  "candidate k = 0x80000 + 16 * of_nat k"

lemma candidate_unat: "k \<le> 0x8000 \<Longrightarrow> unat (candidate k) = 0x80000 + 16 * k"
proof -
  assume "k \<le> 0x8000"
  then have "unat (of_nat k :: u32) = k" "16 * k < 4294967296" by (simp_all add: unat_of_nat32)
  then show ?thesis using \<open>k \<le> 0x8000\<close> unfolding candidate_def by (simp add: unat_add32 unat_mult32)
qed

lemma rsdp_search_find:
  "k \<le> 0x8000 \<Longrightarrow> rsdp_search m (candidate k) = (case find (\<lambda>a. bytes_of m a 8 = rsd_ptr) (map candidate [k..<0x8000]) of None \<Rightarrow> 0 | Some a \<Rightarrow> a)"
proof (induction "0x8000 - k" arbitrary: k)
  case 0
  then have "\<not> candidate k < 0x000FFFFF" using candidate_unat [of k] by (simp add: word_less_nat_alt)
  then show ?case using 0 by (subst rsdp_search.simps) simp
next
  case (Suc n)
  then have k: "k < 0x8000" by simp
  then have lt: "candidate k < 0x000FFFFF" using candidate_unat [of k] by (simp add: word_less_nat_alt)
  have "candidate k + 0x10 = candidate (Suc k)" by (simp add: candidate_def)
  moreover have "[k..<0x8000] = k # [Suc k..<0x8000]" using k by (rule upt_conv_Cons)
  moreover have "rsdp_search m (candidate (Suc k)) = (case find (\<lambda>a. bytes_of m a 8 = rsd_ptr) (map candidate [Suc k..<0x8000]) of None \<Rightarrow> 0 | Some a \<Rightarrow> a)"
    using Suc.hyps(1) [of "Suc k"] Suc.hyps(2) k by simp
  ultimately show ?case using lt signature_bytes [of m "candidate k"] by (subst rsdp_search.simps) simp
qed

lemma byte_sum_unat: "n \<le> 36 \<Longrightarrow> unat (byte_sum m a n) = sum_list (map unat (bytes_of m a n)) \<and> unat (byte_sum m a n) \<le> 255 * n"
proof (induction n)
  case (Suc n)
  let ?b = "m (a + of_nat n)"
  have b: "unat ?b \<le> 255" using unsigned_less [of ?b, where ?'a = nat] by simp
  have u: "unat (ucast ?b :: u32) = unat ?b" using b by (simp add: unsigned_ucast_eq take_bit_nat_eq_self)
  have "unat (byte_sum m a n) + unat (ucast ?b :: u32) < 4294967296" using Suc b u by simp
  then have "unat (byte_sum m a (Suc n)) = unat (byte_sum m a n) + unat ?b" using u by (simp add: byte_sum_def unat_add32)
  then show ?case using Suc b by (simp add: bytes_of_def)
qed (simp add: byte_sum_def bytes_of_def)

lemma byte_sum_zero: "n \<le> 36 \<Longrightarrow> (ucast (byte_sum m a n) :: u8) = 0 \<longleftrightarrow> sums_to_zero m a n"
  using byte_sum_unat [of n m a] by (simp add: sums_to_zero_def word_unat_eq_iff unsigned_ucast_eq take_bit_eq_mod)

text \<open>C38. \<open>acpi_init\<close> agrees with the specification of the tables on every memory: it takes the first
  16-byte boundary from 0x80000 up to the end of the first megabyte that carries the characters of
  the signature and accepts it exactly when the first 20 bytes, and from revision 1 on all 36, add
  up to a multiple of 256.
\<close>

theorem acpi_init_reference: "acpi_init m = acpi_reference m"
proof -
  let ?f = "find (\<lambda>a. bytes_of m a 8 = rsd_ptr) candidates"
  have c: "candidates = map candidate [0..<0x8000]" by (simp add: candidates_def candidate_def)
  have s: "rsdp_search m 0x80000 = (case ?f of None \<Rightarrow> 0 | Some a \<Rightarrow> a)"
    using rsdp_search_find [of 0 m] unfolding c by (simp add: candidate_def)
  have nz: "a \<noteq> 0" if "?f = Some a" for a
  proof -
    have "a \<in> set candidates" using that by (auto simp: find_Some_iff in_set_conv_nth)
    then obtain k where "k < 0x8000" "a = candidate k" unfolding c by auto
    then show ?thesis using candidate_unat [of k] by auto
  qed
  have rev: "1 \<le> rsdp_revision m a \<longleftrightarrow> m (a + 15) \<noteq> 0" for a
    by (simp add: rsdp_revision_def word_le_nat_alt unat_eq_0 flip: One_nat_def) (metis One_nat_def Suc_leI gr0I not_one_le_zero unat_eq_zero)
  show ?thesis
    unfolding acpi_init_def acpi_reference_def s Let_def
    using nz by (cases ?f) (simp_all add: byte_sum_zero rev SIZEOF_RSDP_def)
qed

end
