(* ===== verification/Boot.thy ===== *)
theory Boot
  imports Gdt Pit Keyboard
begin

text \<open>
  Start-up of the processor and the interrupt system, \<open>arch_init\<close> of \<open>arch/i386/arch.c\<close>: the
  descriptor tables, the interrupt controllers, the table of handlers, the clock and the keyboard, in
  that order and before the kernel has a heap.
\<close>

section \<open>The C functions\<close>

text \<open>The state of the interrupt system together with the segments and the interrupt flag of the processor.\<close>

record boot = interrupts +
  b_gdt :: gdt_state
  b_if :: bool

text \<open>The addresses the linker gives to the tables, the interrupt routines and the variables used as ids.\<close>

record boot_addrs =
  gdt_at :: addr
  idt_at :: addr
  pit_id :: u32
  tmr_at :: addr
  kbd_id :: u32
  kbd_at :: addr

definition arch_init :: "isr_env \<Rightarrow> boot_addrs \<Rightarrow> kbd \<Rightarrow> boot \<Rightarrow> boot result option" where
  "arch_init env A k s =
     (let s = s\<lparr>b_gdt := gdt_init (gdt_at A) (b_gdt s)\<rparr>;
          s = idt_init (idt_at A) s
      in obind (Some (rbind (pic_init (i_dev env) (ports s)) (\<lambda>h. Inr (s\<lparr>ports := h\<rparr>)))) (\<lambda>s.
         let s = isr_init env s in
         obind (pit_init env (pit_id A) (tmr_at A) s) (\<lambda>s.
         obind (map_option (\<lambda>(_, h). Inr (s\<lparr>ports := h\<rparr>)) (ps2_init (i_dev env) (ports s))) (\<lambda>s.
         obind (kbd_init env (kbd_id A) (kbd_at A) k s) (\<lambda>s.
           Some (Inr (s\<lparr>b_if := True\<rparr>)))))))"

section \<open>The table of handlers before there is a heap\<close>

text \<open>\<open>table env s f\<close>: every element of the table holds the id and the routine \<open>f\<close> says, and no chain goes on behind it.\<close>

definition table :: "isr_env \<Rightarrow> 'a interrupts_scheme \<Rightarrow> (u32 \<Rightarrow> u32 \<times> addr) \<Rightarrow> bool" where
  "table env s f \<longleftrightarrow> (\<forall>i < 256. node s (slot (handlers env) i) = \<lparr>hnd_id = fst (f i), handler = snd (f i), hnd_next = 0\<rparr>)"

definition table_fits :: "isr_env \<Rightarrow> bool" where
  "table_fits env \<longleftrightarrow> 0 < unat (handlers env) \<and> unat (handlers env) + 3072 \<le> 4294967296"

lemma table_slot_unat:
  assumes "table_fits env" "i < 256"
  shows "unat (slot (handlers env) i) = unat (handlers env) + 12 * unat i"
proof -
  have i: "unat i < 256" using assms(2) by (simp add: word_less_nat_alt)
  then have "unat (12 * i) = 12 * unat i" using unat_mult32 [of 12 i] by simp
  then show ?thesis
    unfolding slot_def SIZEOF_HANDLER_def using assms(1) i by (simp add: table_fits_def unat_add32)
qed

lemma table_slot_inj: "table_fits env \<Longrightarrow> i < 256 \<Longrightarrow> j < 256 \<Longrightarrow> slot (handlers env) i = slot (handlers env) j \<Longrightarrow> i = j"
  using table_slot_unat [of env i] table_slot_unat [of env j] by (simp add: eq32_iff)

lemma table_attached:
  assumes "table_fits env" "table env s f" "i < 256"
  shows "attached env s i (if snd (f i) = 0 then [] else [f i])"
proof -
  have "slot (handlers env) i \<noteq> 0" using table_slot_unat [OF assms(1,3)] assms(1) by (auto simp: table_fits_def)
  moreover have "node s (slot (handlers env) i) = \<lparr>hnd_id = fst (f i), handler = snd (f i), hnd_next = 0\<rparr>"
    using assms(2,3) by (simp add: table_def)
  ultimately show ?thesis
    unfolding attached_def by (intro exI [of _ "[slot (handlers env) i]"]) (simp add: entry_def)
qed

lemma table_wf:
  assumes "table env s f" "0 < unat (handlers env)" "unat (handlers env) + 3072 \<le> lo" "heap_at lo hi (i_heap s)"
  shows "isr_wf env lo hi s"
proof -
  have "lo < hi" "hi < 4294967296" using assms(4) by (auto simp: heap_at_def heap_inv_def)
  then have fits: "table_fits env" using assms(2,3) by (simp add: table_fits_def)
  have "chain_ok env (\<lambda>_. []) s i" if "i < 256" for i
    using assms(1) that table_slot_unat [OF fits that] assms(2) by (auto simp: chain_ok_def table_def)
  then show ?thesis using assms(2-4) unfolding isr_wf_def isr_inv_def by (intro exI [of _ "\<lambda>_. []"]) simp
qed

lemma request_isr_table:
  assumes "table_fits env" "table env s f" "i < 256" "snd (f i) = 0"
  shows "\<exists>s'. request_isr env i k hnd s = Some (Inr (0, s')) \<and> table env s' (f(i := (k, hnd))) \<and>
    s' = s\<lparr>node := node s'\<rparr>"
proof -
  let ?a = "slot (handlers env) i"
  let ?s = "upd_node (\<lambda>x. x\<lparr>handler := hnd\<rparr>) ?a (upd_node (\<lambda>x. x\<lparr>hnd_id := k\<rparr>) ?a s)"
  have "handler (node s ?a) = 0" using assms(2-4) by (simp add: table_def)
  then have "request_isr env i k hnd s = Some (Inr (0, ?s))"
    using assms(3) by (simp add: request_isr_def Let_def not_le order.strict_trans word_less_nat_alt word_le_nat_alt)
  moreover have "table env ?s (f(i := (k, hnd)))"
    unfolding table_def
  proof (intro allI impI)
    fix j :: u32 assume "j < 256"
    then show "node ?s (slot (handlers env) j) = \<lparr>hnd_id = fst ((f(i := (k, hnd))) j), handler = snd ((f(i := (k, hnd))) j), hnd_next = 0\<rparr>"
      using assms(2,3) table_slot_inj [OF assms(1), of i j] by (auto simp: table_def upd_at_apply)
  qed
  moreover have "?s = s\<lparr>node := node ?s\<rparr>" by (simp add: upd_node_def)
  ultimately show ?thesis by blast
qed

section \<open>Devices that leave the controllers alone\<close>

text \<open>
  \<open>quietly h h'\<close>: from \<open>h\<close> to \<open>h'\<close> nothing was written to the interrupt controllers. \<open>ends p h r\<close>: the
  run \<open>r\<close> returns and was quiet from \<open>h\<close> to the history \<open>p\<close> finds in its result.
\<close>

definition quiet :: "event \<Rightarrow> bool" where
  "quiet e \<longleftrightarrow> (\<forall>p v. e = Out8 p v \<longrightarrow> p \<notin> {0x20, 0x21, 0xA0, 0xA1})"

definition quietly :: "history \<Rightarrow> history \<Rightarrow> bool" where
  "quietly h h' \<longleftrightarrow> (\<exists>es. h' = es @ h \<and> list_all quiet es)"

definition ends :: "('x \<Rightarrow> history) \<Rightarrow> history \<Rightarrow> 'x option \<Rightarrow> bool" where
  "ends p h r \<longleftrightarrow> (\<exists>x. r = Some x \<and> quietly h (p x))"

named_theorems quiet_intros

lemma quietly_refl [quiet_intros]: "quietly h h"
  by (simp add: quietly_def)

lemma quietly_trans: "quietly h h' \<Longrightarrow> quietly h' h'' \<Longrightarrow> quietly h h''"
  unfolding quietly_def by (metis append_assoc list_all_append)

lemma quietly_Cons: "quietly h h' \<Longrightarrow> quiet e \<Longrightarrow> quietly h (e # h')"
  unfolding quietly_def by (metis append_Cons list.pred_inject(2))

lemma chip_of_quiet:
  assumes "cmd \<in> {0x20, 0x21, 0xA0, 0xA1}" "data \<in> {0x20, 0x21, 0xA0, 0xA1}" "quietly h h'"
  shows "chip_of cmd data c h' = chip_of cmd data c h"
proof -
  have "chip_step cmd data e x = x" if "quiet e" for e x using that assms(1,2) by (cases e) (auto simp: quiet_def)
  moreover obtain es where "h' = es @ h" "list_all quiet es" using assms(3) by (auto simp: quietly_def)
  ultimately show ?thesis by (induction es arbitrary: h') auto
qed

lemma quiet_chips:
  assumes "quietly h h'"
  shows "pics_ready m c h' = pics_ready m c h" "line_masked m c h' i = line_masked m c h i"
  using assms by (simp_all add: pics_ready_def line_masked_def chip_of_quiet)

lemma ends_bind [quiet_intros]: "ends p h a \<Longrightarrow> (\<And>x. ends q (p x) (f x)) \<Longrightarrow> ends q h (Option.bind a f)"
  unfolding ends_def by (metis bind.bind_lunit quietly_trans)

lemma ends_map [quiet_intros]: "ends p h a \<Longrightarrow> (\<And>x. quietly (p x) (q (f x))) \<Longrightarrow> ends q h (map_option f a)"
  unfolding ends_def by (metis option.simps(9) quietly_trans)

lemma ends_Some [quiet_intros]: "quietly h (p x) \<Longrightarrow> ends p h (Some x)"
  by (simp add: ends_def)

lemma quietly_in [quiet_intros]: "quietly h (snd (inb dev port h))"
  by (simp add: inb_def Let_def quietly_Cons quietly_refl quiet_def)

lemma quietly_ps2 [quiet_intros]:
  "quietly h (outb PS2_CMD_PORT v h)" "quietly h (outb PS2_DATA_PORT v h)"
  by (simp_all add: outb_def ps2_defs quietly_Cons quietly_refl quiet_def)

lemma poll_zero: "ends id h (poll_status dev 0 h)"
  using quietly_in [of h dev PS2_STATUS_PORT]
  by (subst poll_status.simps) (auto simp: ends_def ps2_read_status_def split: prod.split)

lemma poll_ready:
  assumes "clears dev 0x64 m"
  shows "ends id h (poll_status dev m h)"
proof -
  have *: "fst (inb dev 0x64 (polled dev 0x64 n h)) AND m = 0 \<Longrightarrow> ends id h (poll_status dev m h)" for n
  proof (induction n arbitrary: h)
    case 0
    then show ?case using quietly_in [of h dev "0x64"]
      by (subst poll_status.simps) (auto simp: ends_def ps2_read_status_def PS2_STATUS_PORT_def split: prod.split)
  next
    case (Suc n)
    obtain v h1 where v: "inb dev 0x64 h = (v, h1)" by fastforce
    then have "ends id h1 (poll_status dev m h1)" by (intro Suc.IH) (use v Suc.prems in simp)
    moreover have "quietly h h1" using quietly_in [of h dev "0x64"] v by simp
    ultimately show ?case using v
      by (subst poll_status.simps) (auto simp: ends_def ps2_read_status_def PS2_STATUS_PORT_def intro: quietly_trans)
  qed
  then show ?thesis using assms unfolding clears_def by blast
qed

text \<open>The controller accepts a byte eventually; then all of its operations return.\<close>

lemma ps2_ops:
  assumes "clears dev 0x64 PS2_STATUS_INBUFFULL"
  shows "ends id h (send_cmd dev v h)" "ends id h (write_data dev v h)" "ends id h (ps2_write_port1 dev v h)"
    "ends id h (ps2_write_port2 dev v h)" "ends snd h (ps2_read_data dev h)"
proof -
  note p = poll_ready [OF assms]
  show s: "ends id h (send_cmd dev v h)" for h v
    unfolding send_cmd_def by (rule ends_map [OF p]) (simp add: quiet_intros)
  show w: "ends id h (write_data dev v h)" for h v
    unfolding write_data_def by (rule ends_map [OF p]) (simp add: quiet_intros)
  then show "ends id h (ps2_write_port1 dev v h)" by (simp add: ps2_write_port1_def)
  show "ends id h (ps2_write_port2 dev v h)"
    unfolding ps2_write_port2_def by (rule ends_bind [OF s]) (simp add: w)
  have "lnot PS2_STATUS_OUTBUFRDY = 0" by (simp add: lnot_def ps2_defs)
  then show "ends snd h (ps2_read_data dev h)"
    unfolding ps2_read_data_def by (simp only:) (rule ends_map [OF poll_zero], simp add: quiet_intros)
qed

lemma ps2_tests:
  assumes "clears dev 0x64 PS2_STATUS_INBUFFULL"
  shows "ends snd h (ps2_test_controller dev h)" "ends snd h (ps2_test_port1 dev h)" "ends snd h (ps2_test_port2 dev h)"
proof -
  note o = ps2_ops [OF assms]
  have "ends snd h (Option.bind (send_cmd dev v h) (\<lambda>h. map_option (\<lambda>(d, h). (f d, h)) (ps2_read_data dev h)))" for v and f :: "u8 \<Rightarrow> bool"
    by (rule ends_bind [OF o(1)], rule ends_map [where p = snd]) (use o(5) in \<open>auto simp: quietly_refl\<close>)
  note q = this
  show "ends snd h (ps2_test_controller dev h)" unfolding ps2_test_controller_def by (rule q)
  show "ends snd h (ps2_test_port1 dev h)" unfolding ps2_test_port1_def by (rule q)
  show "ends snd h (ps2_test_port2 dev h)" unfolding ps2_test_port2_def by (rule q)
qed

lemma ps2_init_ends:
  assumes "clears dev 0x64 PS2_STATUS_INBUFFULL"
  shows "ends snd h (ps2_init dev h)"
proof -
  note o = ps2_ops [OF assms] and t = ps2_tests [OF assms]
  have port: "ends snd h (Option.bind (tst h) (\<lambda>(ok, h).
      Option.bind (if ok then Option.bind (send_cmd dev v h) (g dev w) else Some h) rest))"
    if t: "\<And>h. ends snd h (tst h)" and g: "\<And>h w. ends id h (g dev w h)" and r: "\<And>h. ends snd h (rest h)"
    for tst :: "history \<Rightarrow> (bool \<times> history) option" and g :: "device \<Rightarrow> u8 \<Rightarrow> history \<Rightarrow> history option" and v w
      and rest :: "history \<Rightarrow> (bool \<times> history) option" and h
  proof (rule ends_bind [OF t])
    fix x :: "bool \<times> history"
    obtain ok h where x: "x = (ok, h)" by fastforce
    have "ends id h (if ok then Option.bind (send_cmd dev v h) (g dev w) else Some h)"
      using ends_bind [OF o(1), of id "g dev w" h v] g by (simp add: ends_Some quietly_refl)
    from ends_bind [OF this, of snd rest] r
    show "ends snd (snd x) (case x of (ok, h) \<Rightarrow> Option.bind (if ok then Option.bind (send_cmd dev v h) (g dev w) else Some h) rest)"
      unfolding x by simp
  qed
  have rest: "ends snd h (Option.bind (ps2_test_port1 dev h) (\<lambda>(ok1, h).
     Option.bind (if ok1 then Option.bind (send_cmd dev PS2_ENBLPORT1 h) (ps2_write_port1 dev PS2_DEVRESET) else Some h) (\<lambda>h.
     Option.bind (ps2_test_port2 dev h) (\<lambda>(ok2, h).
     Option.bind (if ok2 then Option.bind (send_cmd dev PS2_ENBLPORT2 h) (ps2_write_port2 dev PS2_DEVRESET) else Some h) (\<lambda>h.
       Some (True, h))))))" for h
    by (intro port t o) (simp add: ends_Some quietly_refl)
  have ctl: "ends snd h (Option.bind (ps2_test_controller dev h) (\<lambda>(ok, h). if \<not> ok then Some (False, h) else f h))"
    if "\<And>h. ends snd h (f h)" for f and h
    by (rule ends_bind [OF t(1)]) (use that in \<open>auto simp: ends_Some quietly_refl split: prod.split\<close>)
  have "ends snd h (let (_, h) = inb dev PS2_DATA_PORT h in f h)" if "\<And>h. ends snd h (f h)" for f and h
    using that [of "snd (inb dev PS2_DATA_PORT h)"] quietly_in [of h dev PS2_DATA_PORT]
    by (auto simp: ends_def intro: quietly_trans split: prod.split)
  note q = this [OF ctl [OF rest]]
  have step: "ends snd h (Option.bind (send_cmd dev v h) f)" if "\<And>h. ends snd h (f h)" for f :: "history \<Rightarrow> (bool \<times> history) option" and h v
    by (rule ends_bind [OF o(1)]) (simp add: that)
  show ?thesis unfolding ps2_init_def by (rule step, rule step, rule q)
qed

lemma update_leds_ends:
  assumes "clears dev 0x64 PS2_STATUS_INBUFFULL"
  shows "ends id h (update_leds dev k h)"
  unfolding update_leds_def Let_def by (rule ends_bind [OF ps2_ops(3) [OF assms]]) (simp add: ps2_ops(3) [OF assms])

section \<open>Start-up\<close>

lemma request_irq_table:
  assumes "table_fits env" "table env s f" "irq < 16" "snd (f (irq + 32)) = 0"
    "pics (i_dev env) m c" "pics_ready m c (ports s)"
  shows "\<exists>s'. request_irq env irq k hnd s = Some (Inr (0, s')) \<and> table env s' (f(irq + 32 := (k, hnd))) \<and>
    pics_ready m c (ports s') \<and> (\<forall>i < 16. line_masked m c (ports s') i \<longleftrightarrow> line_masked m c (ports s) i \<and> i \<noteq> unat irq) \<and>
    s' = s\<lparr>node := node s', ports := ports s'\<rparr>"
proof -
  have u: "unat irq < 16" using assms(3) by (simp add: word_less_nat_alt)
  then have v: "irq + 32 < 256" by (simp add: word_less_nat_alt unat_add32)
  have c8: "unat (ucast irq :: u8) = unat irq" using u by (simp add: unsigned_ucast_eq take_bit_nat_eq_self)
  then have l: "(ucast irq :: u8) < 16" using u by (simp add: word_less_nat_alt)
  obtain s1 where s1: "request_isr env (irq + 32) k hnd s = Some (Inr (0, s1))" "table env s1 (f(irq + 32 := (k, hnd)))"
    "s1 = s\<lparr>node := node s1\<rparr>" using request_isr_table [OF assms(1,2) v assms(4)] by blast
  have p: "ports s1 = ports s" using s1(3) by (metis interrupts.select_convs(3) interrupts.surjective interrupts.update_convs(2))
  obtain h where h: "pic_unmask_irq (i_dev env) (ucast irq) (ports s1) = Inr h" "pics_ready m c h"
    "\<forall>i < 16. line_masked m c h i \<longleftrightarrow> line_masked m c (ports s) i \<and> i \<noteq> unat irq"
    using pic_unmask_irq_line [OF assms(5) _ l, of "ports s1"] assms(6) c8 p by auto
  have "request_irq env irq k hnd s = Some (Inr (0, s1\<lparr>ports := h\<rparr>))" using s1(1) h(1) by (simp add: request_irq_def)
  moreover have "table env (s1\<lparr>ports := h\<rparr>) (f(irq + 32 := (k, hnd)))" using s1(2) by (simp add: table_def)
  moreover have "s1\<lparr>ports := h\<rparr> = s\<lparr>node := node (s1\<lparr>ports := h\<rparr>), ports := ports (s1\<lparr>ports := h\<rparr>)\<rparr>"
    by (subst s1(3)) simp
  ultimately show ?thesis using h by (intro exI [of _ "s1\<lparr>ports := h\<rparr>"]) simp
qed

lemma pit_init_table:
  assumes "table_fits env" "table env s f" "snd (f 32) = 0" "pics (i_dev env) m c" "pics_ready m c (ports s)"
  shows "\<exists>s'. pit_init env k hnd s = Some (Inr s') \<and> table env s' (f(32 := (k, hnd))) \<and>
    pics_ready m c (ports s') \<and> (\<forall>i < 16. line_masked m c (ports s') i \<longleftrightarrow> line_masked m c (ports s) i \<and> i \<noteq> 0) \<and>
    s' = s\<lparr>node := node s', ports := ports s'\<rparr>"
proof -
  let ?h = "Out8 0x40 (ucast (drop_bit 8 (1193 :: u32))) # Out8 0x40 (ucast (1193 :: u32)) # Out8 0x43 0x36 # ports s"
  have t: "table env (s\<lparr>ports := ?h\<rparr>) f" using assms(2) by (simp add: table_def)
  have "pics_ready m c (ports (s\<lparr>ports := ?h\<rparr>))" using assms(5) by (simp add: pit_ports_chips)
  from request_irq_table [OF assms(1) t _ _ assms(4) this, of 0 k hnd] assms(3) obtain s' where
    "request_irq env 0 k hnd (s\<lparr>ports := ?h\<rparr>) = Some (Inr (0, s'))" "table env s' (f(32 := (k, hnd)))"
    "pics_ready m c (ports s')" "\<forall>i < 16. line_masked m c (ports s') i \<longleftrightarrow> line_masked m c (ports s) i \<and> i \<noteq> 0"
    "s' = s\<lparr>node := node s', ports := ports s'\<rparr>"
    by (auto simp: pit_ports_chips)
  then show ?thesis by (intro exI [of _ s']) (simp add: pit_init_def port_defs pit_defs KERNEL_SCHED_HZ_def Let_def)
qed

lemma kbd_init_table:
  assumes "table_fits env" "table env s f" "snd (f 33) = 0" "pics (i_dev env) m c" "pics_ready m c (ports s)"
    "clears (i_dev env) 0x64 PS2_STATUS_INBUFFULL"
  shows "\<exists>s'. kbd_init env k hnd kb s = Some (Inr s') \<and> table env s' (f(33 := (k, hnd))) \<and>
    pics_ready m c (ports s') \<and> (\<forall>i < 16. line_masked m c (ports s') i \<longleftrightarrow> line_masked m c (ports s) i \<and> i \<noteq> 1) \<and>
    s' = s\<lparr>node := node s', ports := ports s'\<rparr>"
proof -
  obtain h where h: "update_leds (i_dev env) kb (ports s) = Some h" "quietly (ports s) h"
    using update_leds_ends [OF assms(6), of "ports s" kb] by (auto simp: ends_def)
  have t: "table env (s\<lparr>ports := h\<rparr>) f" using assms(2) by (simp add: table_def)
  have "pics_ready m c (ports (s\<lparr>ports := h\<rparr>))" using assms(5) quiet_chips [OF h(2)] by simp
  from request_irq_table [OF assms(1) t _ _ assms(4) this, of 1 k hnd] assms(3) obtain s' where
    "request_irq env 1 k hnd (s\<lparr>ports := h\<rparr>) = Some (Inr (0, s'))" "table env s' (f(33 := (k, hnd)))"
    "pics_ready m c (ports s')" "\<forall>i < 16. line_masked m c (ports s') i \<longleftrightarrow> line_masked m c (ports s) i \<and> i \<noteq> 1"
    "s' = s\<lparr>node := node s', ports := ports s'\<rparr>"
    by (auto simp: quiet_chips [OF h(2)])
  then show ?thesis using h(1) by (intro exI [of _ s']) (simp add: kbd_init_def)
qed

lemma idt_fill_rest: "fold (\<lambda>i s. s\<lparr>idt := (idt s)[i := e]\<rparr>) is s = s\<lparr>idt := fold (\<lambda>i t. t[i := e]) is (idt s)\<rparr>"
  by (induction "is" arbitrary: s) auto

lemma clear_slots_rest: "\<exists>n. fold (\<lambda>i. upd_node (\<lambda>_. z) (g i)) is s = s\<lparr>node := n\<rparr>"
proof (induction "is" arbitrary: s)
  case Nil
  show ?case by (intro exI [of _ "node s"]) simp
next
  case (Cons i "is")
  then obtain n where "fold (\<lambda>i. upd_node (\<lambda>_. z) (g i)) is (upd_node (\<lambda>_. z) (g i) s) = (upd_node (\<lambda>_. z) (g i) s)\<lparr>node := n\<rparr>" by blast
  moreover have "(upd_node (\<lambda>_. z) (g i) s)\<lparr>node := n\<rparr> = s\<lparr>node := n\<rparr>" by (simp add: upd_node_def)
  ultimately show ?case by (intro exI [of _ n]) simp
qed

lemma register_all_rest: "\<exists>t. fold (\<lambda>v. idt_register_isr v (g v)) vs s = s\<lparr>idt := t\<rparr>"
proof (induction vs arbitrary: s)
  case Nil
  show ?case by (intro exI [of _ "idt s"]) simp
next
  case (Cons v vs)
  then obtain t where "fold (\<lambda>v. idt_register_isr v (g v)) vs (idt_register_isr v (g v) s) = (idt_register_isr v (g v) s)\<lparr>idt := t\<rparr>" by blast
  moreover have "(idt_register_isr v (g v) s)\<lparr>idt := t\<rparr> = s\<lparr>idt := t\<rparr>" by (simp add: idt_register_isr_def)
  ultimately show ?case by (intro exI [of _ t]) simp
qed

lemma idt_init_rest:
  "i_heap (idt_init a s) = i_heap s" "node (idt_init a s) = node s" "ports (idt_init a s) = ports s"
  "b_gdt (idt_init a b) = b_gdt b" "b_if (idt_init a b) = b_if b"
  by (simp_all add: idt_init_def idt_load_def Let_def idt_fill_rest)

lemma isr_init_rest: "\<exists>t n. isr_init env s = s\<lparr>idt := t, node := n\<rparr>"
proof -
  let ?z = "\<lparr>hnd_id = 0, handler = 0, hnd_next = 0\<rparr>" and ?g = "\<lambda>i. slot (handlers env) (of_nat i)"
  obtain n where "fold (\<lambda>i. upd_node (\<lambda>_. ?z) (?g i)) [0..<256] s = s\<lparr>node := n\<rparr>"
    using clear_slots_rest [of ?z ?g "[0..<256]" s] by blast
  moreover obtain t where "fold (\<lambda>v. idt_register_isr v (stub env v)) wrapped (s\<lparr>node := n\<rparr>) = (s\<lparr>node := n\<rparr>)\<lparr>idt := t\<rparr>"
    using register_all_rest [of "stub env" wrapped "s\<lparr>node := n\<rparr>"] by blast
  ultimately show ?thesis unfolding isr_init_def Let_def by (intro exI [of _ t] exI [of _ n]) simp
qed

lemma isr_init_keeps:
  "ports (isr_init env s) = ports s" "idtr (isr_init env s) = idtr s"
  using isr_init_rest [of env s] by auto

lemma isr_init_keeps_boot: "b_gdt (isr_init env s) = b_gdt s" "b_if (isr_init env s) = b_if s"
  using isr_init_rest [of env s] by auto

lemma isr_init_table: "table env (isr_init env s) (\<lambda>_. (0, 0))"
  by (simp add: table_def isr_init_state)

lemma isr_init_gates:
  assumes "idt_wf s"
  shows "gate_of (isr_init env s) v = (if v \<in> set wrapped then Some (8, stub env v) else gate_of s v)"
  using assms unfolding isr_init_def Let_def
  by (subst register_all_gates) (auto simp: idt_wf_def gate_of_def clear_slots)

lemma gate_of_cong: "idt s = idt t \<Longrightarrow> gate_of s v = gate_of t v"
  by (simp add: gate_of_def)

definition boot_table :: "boot_addrs \<Rightarrow> u32 \<Rightarrow> u32 \<times> addr" where
  "boot_table A = (\<lambda>_. (0, 0))(32 := (pit_id A, tmr_at A), 33 := (kbd_id A, kbd_at A))"

lemma arch_init_ok:
  assumes dev: "pics (i_dev env) m c" "clears (i_dev env) 0x64 PS2_STATUS_INBUFFULL" and "table_fits env" "idt_wf s"
  shows "\<exists>s'. arch_init env A k s = Some (Inr s') \<and> table env s' (boot_table A) \<and> pics_ready m c (ports s') \<and>
    (\<forall>i < 16. line_masked m c (ports s') i \<longleftrightarrow> i \<notin> {0, 1, 2}) \<and>
    (\<forall>v. gate_of s' v = (if v \<in> set wrapped then Some (8, stub env v) else None)) \<and>
    idtr s' = \<lparr>ip_size = 2047, ip_offset = idt_at A\<rparr> \<and> b_gdt s' = gdt_init (gdt_at A) (b_gdt s) \<and> b_if s' \<and> i_heap s' = i_heap s"
proof -
  let ?s1 = "idt_init (idt_at A) (s\<lparr>b_gdt := gdt_init (gdt_at A) (b_gdt s)\<rparr>)"
  obtain h2 where h2: "pic_init (i_dev env) (ports ?s1) = Inr h2" "pics_ready m c h2" "\<forall>i < 16. line_masked m c h2 i \<longleftrightarrow> i \<noteq> 2"
    using pic_init_ok [OF dev(1)] by blast
  let ?s3 = "isr_init env (?s1\<lparr>ports := h2\<rparr>)"
  have i1: "idt_wf ?s1" "\<forall>v. gate_of ?s1 v = None" "idtr ?s1 = \<lparr>ip_size = 2047, ip_offset = idt_at A\<rparr>"
    using idt_init_ok [of "s\<lparr>b_gdt := gdt_init (gdt_at A) (b_gdt s)\<rparr>" "idt_at A"] assms(4) by (simp_all add: idt_wf_def)
  then have i2: "idt_wf (?s1\<lparr>ports := h2\<rparr>)" "\<forall>v. gate_of (?s1\<lparr>ports := h2\<rparr>) v = None"
    by (simp_all add: idt_wf_def gate_of_def)
  have p3: "ports ?s3 = h2" by (simp add: isr_init_keeps)
  obtain s4 where s4: "pit_init env (pit_id A) (tmr_at A) ?s3 = Some (Inr s4)" "table env s4 ((\<lambda>_. (0, 0))(32 := (pit_id A, tmr_at A)))"
    "pics_ready m c (ports s4)" "\<forall>i < 16. line_masked m c (ports s4) i \<longleftrightarrow> i \<notin> {0, 2}" "s4 = ?s3\<lparr>node := node s4, ports := ports s4\<rparr>"
    using pit_init_table [OF assms(3) isr_init_table _ dev(1), of "?s1\<lparr>ports := h2\<rparr>" "pit_id A" "tmr_at A"] h2 p3 by auto
  obtain b h5 where h5: "ps2_init (i_dev env) (ports s4) = Some (b, h5)" "quietly (ports s4) h5"
    using ps2_init_ends [OF dev(2), of "ports s4"] by (auto simp: ends_def)
  let ?s5 = "s4\<lparr>ports := h5\<rparr>"
  have t5: "table env ?s5 ((\<lambda>_. (0, 0))(32 := (pit_id A, tmr_at A)))" "pics_ready m c (ports ?s5)"
    using s4(2,3) quiet_chips [OF h5(2)] by (simp_all add: table_def)
  obtain s6 where s6: "kbd_init env (kbd_id A) (kbd_at A) k ?s5 = Some (Inr s6)" "table env s6 (boot_table A)" "pics_ready m c (ports s6)"
    "\<forall>i < 16. line_masked m c (ports s6) i \<longleftrightarrow> i \<notin> {0, 1, 2}" "s6 = ?s5\<lparr>node := node s6, ports := ports s6\<rparr>"
    using kbd_init_table [OF assms(3) t5(1) _ dev(1) t5(2) dev(2), of "kbd_id A" "kbd_at A" k] s4(4)
    by (auto simp: boot_table_def quiet_chips [OF h5(2)])
  have r6: "s6 = ?s3\<lparr>node := node s6, ports := ports s6\<rparr>" by (subst s6(5), subst s4(5)) simp
  have "gate_of (s6\<lparr>b_if := True\<rparr>) v = gate_of ?s3 v" for v by (rule gate_of_cong, subst r6) simp
  moreover have "idtr s6 = idtr ?s3" "b_gdt s6 = b_gdt ?s3" "i_heap s6 = i_heap ?s3" by (subst r6, simp)+
  moreover have "table env (s6\<lparr>b_if := True\<rparr>) (boot_table A)" using s6(2) by (simp add: table_def)
  ultimately show ?thesis
    using h2(1) s4(1) h5(1) s6 i1(3) i2 isr_init_gates [OF i2(1), of env]
    by (simp add: arch_init_def isr_init_keeps isr_init_keeps_boot idt_init_rest isr_init_state)
qed


definition boot0 :: boot where
  "boot0 = \<lparr>iptr = \<lparr>ip_size = 0, ip_offset = 0\<rparr>, idt = replicate 256 0, idtr = \<lparr>ip_size = 0, ip_offset = 0\<rparr>,
     i_heap = heap0, node = (\<lambda>_. \<lparr>hnd_id = 1, handler = 1, hnd_next = 1\<rparr>), ports = [],
     b_gdt = \<lparr>gptr = \<lparr>gp_size = 0, gp_offset = 0\<rparr>, gdt = replicate 5 0, gdtr = \<lparr>gp_size = 0, gp_offset = 0\<rparr>, cs_sel = 8, ds_sel = 16\<rparr>,
     b_if = False\<rparr>"

definition boot_addrs0 :: boot_addrs where
  "boot_addrs0 = \<lparr>gdt_at = 0xC0111000, idt_at = 0xC0112000, pit_id = 0xC0102000, tmr_at = 0xC0102100, kbd_id = 0xC0113000, kbd_at = 0xC0102200\<rparr>"

lemma pc_clears: "clears pc 0x64 PS2_STATUS_INBUFFULL"
  unfolding clears_def by (intro allI exI [of _ 0]) (simp add: pc_def inb_def Let_def)


end
