(* ===== verification/Kalloc_Room.thy ===== *)
theory Kalloc_Room
  imports Kalloc_Spec
begin

text \<open>
  How far the memory of a young heap reaches. As long as nothing is freed the heap ends in one big
  free block, and the free blocks before it are the gaps the aligned requests leave. On such a heap
  both kinds of request succeed, and each takes a bounded part of the last block.
\<close>

section \<open>Heaps that end in a big free block\<close>

text \<open>\<open>roomy g r bs\<close>: the last block is free and has \<open>r\<close> bytes, and the free blocks before it have less than \<open>g\<close>.\<close>

definition roomy :: "nat \<Rightarrow> nat \<Rightarrow> blk list \<Rightarrow> bool" where
  "roomy g r bs \<longleftrightarrow> (\<exists>xs a n. bs = xs @ [(a, n, False)] \<and> r \<le> unat n \<and> (\<forall>(b, k, u) \<in> set xs. u \<or> unat k < g))"

definition room :: "nat \<Rightarrow> nat \<Rightarrow> nat \<Rightarrow> nat \<Rightarrow> heap \<Rightarrow> bool" where
  "room lo hi g r h \<longleftrightarrow> hi + 4136 \<le> 4294967296 \<and> (\<exists>bs. heap_inv lo hi h bs \<and> no_adj bs \<and> roomy g r bs)"

lemma room_heap_at: "room lo hi g r h \<Longrightarrow> heap_at lo hi h"
  by (auto simp: room_def heap_at_def)

lemma roomy_mono: "roomy g r bs \<Longrightarrow> r' \<le> r \<Longrightarrow> roomy g r' bs"
  unfolding roomy_def by (elim exE conjE, intro exI conjI) (assumption, rule le_trans)

lemma room_mono: "room lo hi g r h \<Longrightarrow> r' \<le> r \<Longrightarrow> room lo hi g r' h"
  unfolding room_def using roomy_mono by blast

lemma first_fit_roomy:
  assumes "roomy g (r + unat sz + 20) bs" "20 \<le> r" "unat sz + 40 < 4294967296"
  shows "\<exists>a bs'. first_fit sz bs = Some (a, bs') \<and> roomy g r bs'"
proof -
  obtain xs a n where b: "bs = xs @ [(a, n, False)]" "r + unat sz + 20 \<le> unat n" "\<forall>(b, k, u) \<in> set xs. u \<or> unat k < g"
    using assms(1) by (auto simp: roomy_def)
  have "unat (HDR + sz) = 20 + unat sz" using assms(3) by (simp add: HDR_def unat_add32)
  then have last: "unat (n - (HDR + sz)) = unat n - (20 + unat sz)" using b(2) by (simp add: unat_sub32)
  show ?thesis using b(1,3)
  proof (induction xs arbitrary: bs)
    case Nil
    have "roomy g r [(a, HDR + sz, True), (a + (HDR + sz), n - (HDR + sz), False)]"
      unfolding roomy_def using b(2) last by (intro exI [of _ "[(a, HDR + sz, True)]"]) simp
    then show ?case using Nil b(2) assms(2) by simp
  next
    case (Cons x xs)
    obtain c k u where x: "x = (c, k, u)" by (cases x)
    have k: "u \<or> unat k < g" using Cons.prems(2) x by simp
    show ?case
    proof (cases "\<not> u \<and> unat sz + 20 \<le> unat k")
      case True
      have "unat (HDR + sz) = 20 + unat sz" using assms(3) by (simp add: HDR_def unat_add32)
      then have "unat (k - (HDR + sz)) < g" using True k by (simp add: unat_sub32)
      then have "roomy g r ((c, k, True) # xs @ [(a, n, False)])"
        "roomy g r ((c, HDR + sz, True) # (c + (HDR + sz), k - (HDR + sz), False) # xs @ [(a, n, False)])"
        unfolding roomy_def using b(2) Cons.prems(2)
        by (intro exI [of _ "(c, k, True) # xs"] exI [of _ a] exI [of _ n], simp,
            intro exI [of _ "(c, HDR + sz, True) # (c + (HDR + sz), k - (HDR + sz), False) # xs"] exI [of _ a] exI [of _ n], simp)
      then show ?thesis using Cons.prems(1) x True by auto
    next
      case False
      obtain p bs' where i: "first_fit sz (xs @ [(a, n, False)]) = Some (p, bs')" "roomy g r bs'"
        using Cons.IH [OF refl] Cons.prems(2) by auto
      obtain ys d l where "bs' = ys @ [(d, l, False)]" "r \<le> unat l" "\<forall>(b, k, u) \<in> set ys. u \<or> unat k < g"
        using i(2) by (auto simp: roomy_def)
      then have "roomy g r ((c, k, u) # bs')" unfolding roomy_def using k by (intro exI [of _ "(c, k, u) # ys"]) auto
      then show ?thesis using Cons.prems(1) x False i(1) by auto
    qed
  qed
qed

lemma aligned_fit_skip:
  assumes "\<forall>(b, k, u) \<in> set xs. u \<or> unat k < unat sz + 20"
  shows "aligned_fit sz (xs @ ys) = (case aligned_fit sz ys of Fit p bs \<Rightarrow> Fit p (xs @ bs) | r \<Rightarrow> r)"
  using assms
proof (induction xs)
  case Nil
  show ?case by (simp split: fit.split)
next
  case (Cons x xs)
  then show ?case by (cases x) (auto split: fit.splits)
qed

lemma page_gap:
  assumes "unat a + 4136 \<le> 4294967296"
  shows "20 \<le> unat (page_align a - a - HDR)" "unat (page_align a - a - HDR) \<le> 4115"
    "unat (page_align a) = unat a + 20 + unat (page_align a - a - HDR)"
proof -
  have p: "unat (page_align a) = 4096 * ((unat a + 4135) div 4096)" using unat_page_align assms by simp
  have "4096 * ((unat a + 4135) div 4096) + (unat a + 4135) mod 4096 = unat a + 4135" "(unat a + 4135) mod 4096 < 4096" by simp_all
  then have "unat a + 40 \<le> 4096 * ((unat a + 4135) div 4096)" "4096 * ((unat a + 4135) div 4096) \<le> unat a + 4135" by linarith+
  then have b: "unat a + 40 \<le> unat (page_align a)" "unat (page_align a) \<le> unat a + 4135" using p by simp_all
  then have "unat (page_align a - a) = unat (page_align a) - unat a" by (simp add: unat_sub32)
  moreover from this have "unat (page_align a - a - HDR) = unat (page_align a) - unat a - 20" using b by (simp add: unat_sub32 HDR_def)
  ultimately show "20 \<le> unat (page_align a - a - HDR)" "unat (page_align a - a - HDR) \<le> 4115"
    "unat (page_align a) = unat a + 20 + unat (page_align a - a - HDR)" using b by linarith+
qed

lemma aligned_fit_roomy:
  assumes "roomy g (r + unat sz + 4135) bs" "20 < r" "g \<le> unat sz + 20" "4115 < g" "unat sz + 40 < 4294967296"
    "tiles lo hi bs" "hi + 4136 \<le> 4294967296"
  shows "\<exists>c bs'. aligned_fit sz bs = Fit c bs' \<and> roomy g r bs'"
proof -
  obtain xs a n where b: "bs = xs @ [(a, n, False)]" "r + unat sz + 4135 \<le> unat n" "\<forall>(b, k, u) \<in> set xs. u \<or> unat k < g"
    using assms(1) by (auto simp: roomy_def)
  have a: "unat a + unat n \<le> hi" using assms(6) tiles_mid(4) [of lo hi xs a n False "[]"] b(1) by simp
  define d where "d = page_align a - a - HDR"
  note gap = page_gap [of a, folded d_def]
  have dd: "20 \<le> unat d" "unat d \<le> 4115" "unat (page_align a) = unat a + 20 + unat d" using gap a assms(7) by linarith+
  have nd: "unat (n - d) = unat n - unat d" using dd(2) b(2) by (simp add: unat_sub32)
  have "unat (HDR + sz) = 20 + unat sz" using assms(5) by (simp add: HDR_def unat_add32)
  then have rest: "unat (n - d - (HDR + sz)) = unat n - unat d - (20 + unat sz)" using nd dd(2) b(2) by (simp add: unat_sub32)
  let ?bs = "[(a, d, False), (a + d, HDR + sz, True), (a + d + (HDR + sz), n - d - (HDR + sz), False)]"
  have "aligned_fit sz [(a, n, False)] = Fit (a + d) ?bs"
    using b(2) dd nd assms(2) by (simp add: Let_def d_def [symmetric])
  moreover have "\<forall>(b, k, u) \<in> set xs. u \<or> unat k < unat sz + 20" using b(3) assms(3) by fastforce
  ultimately have "aligned_fit sz bs = Fit (a + d) (xs @ ?bs)" using b(1) aligned_fit_skip by simp
  moreover have "roomy g r (xs @ ?bs)"
    unfolding roomy_def using b(2,3) dd(2) rest assms(4)
    by (intro exI [of _ "xs @ [(a, d, False), (a + d, HDR + sz, True)]"]) auto
  ultimately show ?thesis by blast
qed

section \<open>Requests on such heaps\<close>

lemma kmalloc_room:
  assumes "room lo hi g (r + unat (round_size sz) + 20) h" "20 \<le> r" "req_ok sz"
  shows "\<exists>p h'. kmalloc h sz = Some (Inr (p, h')) \<and> p \<noteq> 0 \<and> room lo hi g r h'"
proof -
  obtain bs where b: "heap_inv lo hi h bs" "no_adj bs" "roomy g (r + unat (round_size sz) + 20) bs" "hi + 4136 \<le> 4294967296"
    using assms(1) by (auto simp: room_def)
  obtain a bs' where f: "first_fit (round_size sz) bs = Some (a, bs')" "roomy g r bs'"
    using first_fit_roomy [OF b(3) assms(2) round_size_fits [OF assms(3)]] by blast
  then show ?thesis using kmalloc_cases [OF b(1,2) assms(3)] b(4) unfolding room_def by fastforce
qed

lemma kmalloc_a_room:
  assumes "room lo hi g (r + unat (round_size sz) + 4135) h" "20 < r" "g \<le> unat sz + 20" "4115 < g" "req_ok sz"
  shows "\<exists>p h'. kmalloc_a h sz = Some (Inr (p, h')) \<and> p \<noteq> 0 \<and> room lo hi g r h'"
proof -
  obtain bs where b: "heap_inv lo hi h bs" "no_adj bs" "roomy g (r + unat (round_size sz) + 4135) bs" "hi + 4136 \<le> 4294967296"
    using assms(1) by (auto simp: room_def)
  have "tiles lo hi bs" using b(1) by (simp add: heap_inv_def)
  moreover have "g \<le> unat (round_size sz) + 20" using assms(3) unat_round_size [OF assms(5)] by simp
  ultimately obtain a bs' where f: "aligned_fit (round_size sz) bs = Fit a bs'" "roomy g r bs'"
    using aligned_fit_roomy [OF b(3) assms(2) _ assms(4) round_size_fits [OF assms(5)] _ b(4)] by blast
  then show ?thesis using kmalloc_a_cases [OF b(1,2,4) assms(5)] b(4) unfolding room_def by fastforce
qed

end
