(* ===== verification/Kernel.thy ===== *)
theory Kernel
  imports Boot Kalloc_Room Mm Sched_Spec Pci Net Tty
begin

text \<open>
  \<open>kmain\<close> of \<open>kernel/kernel.c\<close>: the start of all parts of the kernel, up to its idle loop. The parts
  share one heap and one set of ports; where the record of a part has a field for either, it is handed
  on from the part that ran before.
\<close>

section \<open>The C functions\<close>

text \<open>\<open>page_fault_handler\<close> of \<open>paging.c\<close>: the registers are dumped, then the kernel stops.\<close>

definition page_fault_handler :: "u32 \<Rightarrow> u32 \<Rightarrow> u32 \<Rightarrow> u32 \<Rightarrow> regs_t \<Rightarrow> (string \<times> u32) list \<times> 'a result" where
  "page_fault_handler c0 c2 c3 c4 regs = (dump_regs c0 c2 c3 c4 regs, Inl (Panic ''page fault''))"

definition vfs_init :: "'a \<Rightarrow> 'a" where
  "vfs_init s = s"

record kernel =
  c_tty :: tty
  c_boot :: boot
  c_kbd :: kbd
  c_mem :: memory
  c_sched :: sched
  c_pci :: pci
  c_net :: net

text \<open>
  The machine and the addresses the linker assigns: the screen memory, the memory map of the boot
  loader, the static page directory, the end of the image, the page fault handler and the shell.
\<close>

record kernel_env =
  e_isr :: isr_env
  e_addrs :: boot_addrs
  e_vga :: "u16 list"
  e_mmap :: "addr \<Rightarrow> multiboot_mmap_entry"
  e_kpd :: addr
  e_kend :: addr
  e_pf_id :: u32
  e_pf :: addr
  e_dsh :: u32

text \<open>
  The registration of the page fault handler stands before \<open>mm_init\<close>, which takes its outcome: it
  shares no state with what \<open>mm_init\<close> does before it.
\<close>

definition kmain :: "kernel_env \<Rightarrow> multiboot_info \<Rightarrow> kernel \<Rightarrow> kernel result option" where
  "kmain E mbt k =
     obind (Some (tty_init (e_vga E) (c_tty k))) (\<lambda>t.
     obind (arch_init (e_isr E) (e_addrs E) (c_kbd k) ((c_boot k)\<lparr>ports := tty_ports t\<rparr>)) (\<lambda>b.
     obind (request_isr (e_isr E) 14 (e_pf_id E) (e_pf E) b) (\<lambda>(r, b).
     obind (mm_init (e_mmap E) (e_kpd E) (e_kend E) (r \<noteq> 0) mbt (c_mem k)) (\<lambda>m.
     obind (sched_init ((c_sched k)\<lparr>k_heap := m_heap m, the_current_pd := current_pd (m_paging m), interrupts := b_if b\<rparr>)) (\<lambda>s.
     obind (pci_init (i_dev (e_isr E)) ((c_pci k)\<lparr>pci_heap := k_heap s, pci_ports := ports b\<rparr>)) (\<lambda>p.
       let n = vfs_init (net_init (c_net k)) in
     obind (create_kernel_task (e_dsh E) (s\<lparr>k_heap := pci_heap p\<rparr>)) (\<lambda>(_, s).
       Some (Inr (k\<lparr>c_tty := t, c_boot := b\<lparr>i_heap := k_heap s, ports := pci_ports p\<rparr>, c_mem := m\<lparr>m_heap := k_heap s\<rparr>,
         c_sched := s, c_pci := p\<lparr>pci_heap := k_heap s\<rparr>, c_net := n\<lparr>net_heap := k_heap s\<rparr>\<rparr>)))))))))"

section \<open>Memory for tasks and functions of the bus\<close>

text \<open>A task takes at most 20587 bytes of a young heap: its control block, its stack, and the gap before the stack.\<close>

definition GAP :: nat where "GAP = 0x4014"

lemma new_task_room:
  assumes "room lo hi GAP (r + 20588) (k_heap s)" "20 < r"
  shows "\<exists>t s'. new_task s = Some (Inr (t, s')) \<and> t \<noteq> 0 \<and> room lo hi GAP r (k_heap s')"
proof -
  have sz: "unat (round_size SIZEOF_TASK) = 48" "unat (round_size STACK_SIZE) = 0x4000"
    using unat_round_size [OF req_ok_task(1)] unat_round_size [OF req_ok_task(2)] by (simp_all add: SIZEOF_TASK_def STACK_SIZE_def)
  have "room lo hi GAP (r + 20519 + unat (round_size SIZEOF_TASK) + 20) (k_heap s)"
    by (rule room_mono [OF assms(1)]) (simp add: sz)
  then obtain t h where t: "kmalloc (k_heap s) SIZEOF_TASK = Some (Inr (t, h))" "t \<noteq> 0" "room lo hi GAP (r + 20519) h"
    using kmalloc_room [OF _ _ req_ok_task(1)] assms(2) by fastforce
  have "room lo hi GAP (r + unat (round_size STACK_SIZE) + 4135) h" by (rule room_mono [OF t(3)]) (simp add: sz)
  moreover have "GAP \<le> unat STACK_SIZE + 20" "4115 < GAP" by (simp_all add: GAP_def STACK_SIZE_def)
  ultimately obtain p h' where p: "kmalloc_a h STACK_SIZE = Some (Inr (p, h'))" "p \<noteq> 0" "room lo hi GAP r h'"
    using kmalloc_a_room [OF _ assms(2) _ _ req_ok_task(2)] by blast
  let ?s = "init_task t h s"
  obtain w where "fold push [0x202, 0x08, eip (task ?s t), 0, 0, 0, 0, 0, 0, 0, 0, 0x10, 0x10, 0x10, 0x10, sched_kill_addr ?s]
      (p + 4 * STACK_SIZE, upd_task (\<lambda>x. x\<lparr>stack := p\<rparr>) t (?s\<lparr>k_heap := h'\<rparr>)) =
      (p + 4 * STACK_SIZE - 64, (upd_task (\<lambda>x. x\<lparr>stack := p\<rparr>) t (?s\<lparr>k_heap := h'\<rparr>))\<lparr>words := w\<rparr>)"
    using push_fold [of "[0x202, 0x08, eip (task ?s t), 0, 0, 0, 0, 0, 0, 0, 0, 0x10, 0x10, 0x10, 0x10, sched_kill_addr ?s]"]
    by (simp del: fold_simps) blast
  then obtain s' where "setup_stack t ?s = Some (Inr (True, s'))" "k_heap s' = h'"
    using p(1,2) by (simp add: setup_stack_def Let_def init_task_def del: fold_simps)
  then show ?thesis using new_task_alt [OF t(1,2)] t(2) p(3) by simp
qed

text \<open>
  \<open>grown lo hi R h0 n h\<close>: on the way from heap \<open>h0\<close>, which had room for \<open>R\<close> bytes, to \<open>h\<close> at most \<open>n\<close> structures of
  the bus were allocated, and nothing was freed.
\<close>

definition grown :: "nat \<Rightarrow> nat \<Rightarrow> nat \<Rightarrow> heap \<Rightarrow> nat \<Rightarrow> heap \<Rightarrow> bool" where
  "grown lo hi R h0 n h \<longleftrightarrow> (36 * n + 21 \<le> R \<longrightarrow> room lo hi GAP (R - 36 * n) h \<and> (\<forall>q k. heap_live h0 q k \<longrightarrow> heap_live h q k))"

lemma grown_step:
  assumes "grown lo hi R h0 n h" "kmalloc h SIZEOF_PCI_DEV = Some (Inr (p, h'))"
  shows "grown lo hi R h0 (Suc n) h' \<and> (36 * Suc n + 21 \<le> R \<longrightarrow> p \<noteq> 0)"
proof (cases "36 * Suc n + 21 \<le> R")
  case True
  then have g: "room lo hi GAP (R - 36 * n) h" "\<forall>q k. heap_live h0 q k \<longrightarrow> heap_live h q k" using assms(1) by (auto simp: grown_def)
  have sz: "unat (round_size SIZEOF_PCI_DEV) = 16" using unat_round_size [OF req_ok_pci] by (simp add: SIZEOF_PCI_DEV_def)
  have "room lo hi GAP (R - 36 * Suc n + unat (round_size SIZEOF_PCI_DEV) + 20) h"
    by (rule room_mono [OF g(1)]) (use True in \<open>simp add: sz\<close>)
  moreover have "20 \<le> R - 36 * Suc n" using True by simp
  ultimately have "p \<noteq> 0" "room lo hi GAP (R - 36 * Suc n) h'"
    using kmalloc_room [OF _ _ req_ok_pci] assms(2) by fastforce+
  moreover have "heap_live h' q k" if "heap_live h q k" for q k
    by (rule km.alloc_cases [OF heap_at_wf [OF room_heap_at [OF g(1)]] req_ok_pci]) (use assms(2) that in auto)
  ultimately show ?thesis using g(2) unfolding grown_def by blast
qed (simp add: grown_def)

lemma add_pci_dev_grown:
  assumes "grown lo hi R h0 n (pci_heap s)" "add_pci_dev dev b d f s = Some (Inr s')"
  shows "grown lo hi R h0 (Suc n) (pci_heap s')"
proof -
  obtain p h where p: "kmalloc (pci_heap s) SIZEOF_PCI_DEV = Some (Inr (p, h))"
    using assms(2) by (auto simp: add_pci_dev_def split: option.splits sum.splits)
  then have "pci_heap s' = h" using assms(2) by (auto simp: add_pci_dev_def Let_def split: if_splits prod.splits)
  then show ?thesis using grown_step [OF assms(1) p] by simp
qed

lemma scan_func_grown:
  assumes "pci_host dev cfg" "grown lo hi R h0 (length fs) (pci_heap s)" "scan_func dev b d f s = Some (Inr s')"
  shows "grown lo hi R h0 (length (fs @ (if cfg_w cfg (dummy b d f) 0 = 0xFFFF then [] else [(b, d, f)]))) (pci_heap s')"
  using assms(2,3) add_pci_dev_grown [of lo hi R h0 "length fs" "s\<lparr>pci_ports := _\<rparr>"]
  by (auto simp: scan_func_def pci_reads [OF assms(1)] CFG_W_VENDORID_def split: if_splits)

lemma scan_dev_grown:
  assumes "pci_host dev cfg" "grown lo hi R h0 (length fs) (pci_heap s)" "scan_dev dev b d s = Some (Inr s')"
  shows "grown lo hi R h0 (length (fs @ found_dev cfg b d)) (pci_heap s')"
proof (cases "cfg_w cfg (dummy b d 0) 0 = 0xFFFF")
  case True
  then show ?thesis using assms(2,3) by (auto simp: scan_dev_def pci_reads [OF assms(1)] CFG_W_VENDORID_def found_dev_def)
next
  case False
  let ?c = "calc_pci_addr (dummy b d 0) 0" and ?e = "calc_pci_addr (dummy b d 0) 0x0E"
  obtain s1 where s1: "add_pci_dev dev b d 0 (s\<lparr>pci_ports := In32 0xCFC (cfg ?c) # Out32 0xCF8 ?c # pci_ports s\<rparr>) = Some (Inr s1)"
    using False assms(3) by (auto simp: scan_dev_def pci_reads [OF assms(1)] CFG_W_VENDORID_def split: option.splits sum.splits)
  have g: "grown lo hi R h0 (length (fs @ [(b, d, 0)])) (pci_heap s1)"
    using add_pci_dev_grown [OF _ s1, of lo hi R h0 "length fs"] assms(2) by simp
  let ?s = "s1\<lparr>pci_ports := In32 0xCFC (cfg ?e) # Out32 0xCF8 ?e # pci_ports s1\<rparr>"
  have r: "(if cfg_b cfg (dummy b d 0) 0x0E AND 0x80 \<noteq> 0 then each_opt (\<lambda>f. scan_func dev b d (of_nat f)) [1..<8] ?s else Some (Inr ?s)) = Some (Inr s')"
    using False assms(3) s1 by (simp add: scan_dev_def pci_reads [OF assms(1)] CFG_W_VENDORID_def CFG_B_HEADERTYPE_def Let_def)
  show ?thesis
  proof (cases "cfg_b cfg (dummy b d 0) 0x0E AND 0x80 \<noteq> 0")
    case True
    let ?g = "\<lambda>f. if cfg_w cfg (dummy b d (of_nat f)) 0 = 0xFFFF then [] else [(b, d, of_nat f)]"
    have "grown lo hi R h0 (length ((fs @ [(b, d, 0)]) @ concat (map ?g [1..<8]))) (pci_heap s')"
      by (rule each_opt_returned [where I = "\<lambda>fs s. grown lo hi R h0 (length fs) (pci_heap s)" and f = "\<lambda>f. scan_func dev b d (of_nat f)" and s = ?s])
        (use scan_func_grown [OF assms(1)] r True g in simp_all)
    then show ?thesis using True False by (simp add: found_dev_def)
  next
    case no: False
    then show ?thesis using r g False by (auto simp: found_dev_def)
  qed
qed

lemma pci_init_grown:
  assumes "pci_host dev cfg" "grown lo hi R h0 0 (pci_heap s)" "pci_init dev s = Some (Inr s')"
  shows "grown lo hi R h0 (length (found cfg)) (pci_heap s')"
proof -
  let ?I = "\<lambda>fs s. grown lo hi R h0 (length fs) (pci_heap s)"
  have row: "?I (fs @ concat (map (\<lambda>d. found_dev cfg b (of_nat d)) [0..<32])) s'"
    if "each_opt (\<lambda>d. scan_dev dev b (of_nat d)) [0..<32] s = Some (Inr s')" "?I fs s" for b fs s s'
    by (rule each_opt_returned [where I = ?I, OF _ that]) (rule scan_dev_grown [OF assms(1)])
  have "?I ([] @ concat (map (\<lambda>b. concat (map (\<lambda>d. found_dev cfg (of_nat b) (of_nat d)) [0..<32])) [0..<256])) s'"
    by (rule each_opt_returned [where I = ?I, OF _ assms(3) [unfolded pci_init_def]]) (use row assms(2) in simp_all)
  then show ?thesis by (simp add: found_def)
qed

text \<open>With room for all functions of the bus, \<open>pci_init\<close> lists them all, keeps every live block, and the rest of the room is left.\<close>

lemma pci_init_room:
  assumes "pci_host dev cfg" "room lo hi GAP R (pci_heap s)" "pci_dev_list s = 0" "36 * length (found cfg) + 57 \<le> R"
  shows "\<exists>s' as. pci_init dev s = Some (Inr s') \<and> room lo hi GAP (R - 36 * length (found cfg)) (pci_heap s') \<and>
    (\<forall>q k. heap_live (pci_heap s) q k \<longrightarrow> heap_live (pci_heap s') q k) \<and>
    llist pci_next (pdevs s') (pci_dev_list s') as \<and> (\<forall>a \<in> set as. describes cfg (pdevs s' a)) \<and> map (\<lambda>a. bdf (pdevs s' a)) as = found cfg"
proof -
  have wf: "heap_wf (pci_heap s)" using assms(2) room_heap_at heap_at_wf by blast
  have "pci_inv cfg [] s" unfolding pci_inv_def listed_def using wf assms(3) by (intro exI [of _ "[]"]) simp
  from pci_init_inv [OF assms(1) this] obtain s' as where s': "pci_init dev s = Some (Inr s')" "listed cfg (found cfg) s' as"
    by (auto simp: pci_inv_def)
  have "grown lo hi R (pci_heap s) 0 (pci_heap s)" using assms(2) by (simp add: grown_def)
  from pci_init_grown [OF assms(1) this s'(1)] have g: "grown lo hi R (pci_heap s) (length (found cfg)) (pci_heap s')" .
  then have "room lo hi GAP (R - 36 * length (found cfg)) (pci_heap s')" using assms(4) by (simp add: grown_def)
  moreover have "length as = length (found cfg)"
  proof (rule ccontr)
    assume "length as \<noteq> length (found cfg)"
    then have "kmalloc (pci_heap s') SIZEOF_PCI_DEV = Some (Inr (0, pci_heap s'))" using s'(2) by (auto simp: listed_def)
    from grown_step [OF g this] assms(4) show False by simp
  qed
  ultimately show ?thesis using s' g assms(4) by (intro exI [of _ s'] exI [of _ as]) (auto simp: listed_def grown_def)
qed

section \<open>The start of the kernel\<close>

lemma sched_inv_heap:
  assumes "sched_inv s rs ss" "heap_wf h" "\<forall>q k. heap_live (k_heap s) q k \<longrightarrow> heap_live h q k"
  shows "sched_inv (s\<lparr>k_heap := h\<rparr>) rs ss"
proof -
  have "queues (s\<lparr>k_heap := h\<rparr>) rs ss = queues s rs ss" by (rule queues_cong) simp_all
  moreover have "owned (s\<lparr>k_heap := h\<rparr>) T" if "owned s T" for T using that assms(2,3) unfolding owned_def by simp blast
  ultimately show ?thesis using assms(1) by (simp add: sched_inv_def)
qed

lemma states_ok_heap [simp]: "states_ok (s\<lparr>k_heap := h\<rparr>) rs ss = states_ok s rs ss"
  by (simp add: states_ok_def destroyed_def)

lemma tasks_boot:
  assumes "room lo hi GAP R (k_heap s)" "queues s [] []" "pci_host dev cfg" "pci_dev_list p = 0" "41197 + 36 * length (found cfg) \<le> R"
  shows "\<exists>s1 p' r s2 t as. sched_init s = Some (Inr s1) \<and> pci_init dev (p\<lparr>pci_heap := k_heap s1, pci_ports := h\<rparr>) = Some (Inr p') \<and>
    create_kernel_task fn (s1\<lparr>k_heap := pci_heap p'\<rparr>) = Some (Inr (r, s2)) \<and> sched_inv s2 [t] [] \<and> states_ok s2 [t] [] \<and>
    eip (task s2 t) = fn \<and> all_alive s2 [t] \<and> heap_at lo hi (k_heap s2) \<and>
    llist pci_next (pdevs p') (pci_dev_list p') as \<and> (\<forall>a \<in> set as. describes cfg (pdevs p' a)) \<and> map (\<lambda>a. bdf (pdevs p' a)) as = found cfg"
proof -
  let ?r = "R - 20588"
  have "room lo hi GAP (?r + 20588) (k_heap s)" "20 < ?r" using assms(1,5) by simp_all
  then obtain t0 u where u: "new_task s = Some (Inr (t0, u))" "t0 \<noteq> 0" "room lo hi GAP ?r (k_heap u)"
    using new_task_room by blast
  have wf: "heap_wf (k_heap s)" using assms(1) room_heap_at heap_at_wf by blast
  obtain s1 where s1: "sched_init s = Some (Inr s1)" "sched_inv s1 [] []" "states_ok s1 [] []" "running_task s1 = t0"
    "state (task s1 t0) = TASK_RUNNING" "k_heap s1 = k_heap u" using sched_init_ok [OF wf assms(2) u(1,2)] by blast
  have "room lo hi GAP ?r (k_heap s1)" using u(3) s1(6) by simp
  moreover have "36 * length (found cfg) + 57 \<le> ?r" using assms(5) by linarith
  ultimately obtain p' as where p': "pci_init dev (p\<lparr>pci_heap := k_heap s1, pci_ports := h\<rparr>) = Some (Inr p')"
    "room lo hi GAP (?r - 36 * length (found cfg)) (pci_heap p')" "\<forall>q k. heap_live (k_heap s1) q k \<longrightarrow> heap_live (pci_heap p') q k"
    "llist pci_next (pdevs p') (pci_dev_list p') as" "\<forall>a \<in> set as. describes cfg (pdevs p' a)" "map (\<lambda>a. bdf (pdevs p' a)) as = found cfg"
    using pci_init_room [OF assms(3), of lo hi ?r "p\<lparr>pci_heap := k_heap s1, pci_ports := h\<rparr>"] assms(4,5) by auto
  let ?s = "s1\<lparr>k_heap := pci_heap p'\<rparr>"
  have inv: "sched_inv ?s [] []" "states_ok ?s [] []"
    using sched_inv_heap [OF s1(2) heap_at_wf [OF room_heap_at [OF p'(2)]] p'(3)] s1(3) by simp_all
  have "room lo hi GAP (?r - 36 * length (found cfg) - 20588 + 20588) (k_heap ?s)" "20 < ?r - 36 * length (found cfg) - 20588"
    using p'(2) assms(5) by simp_all
  then obtain t v where v: "new_task ?s = Some (Inr (t, v))" "t \<noteq> 0" "room lo hi GAP (?r - 36 * length (found cfg) - 20588) (k_heap v)"
    using new_task_room by blast
  obtain s2 where s2: "create_kernel_task fn ?s = Some (Inr (n_pid ?s, s2))" "sched_inv s2 [t] []" "states_ok s2 [t] []"
    "t \<notin> insert (running_task ?s) {}" "eip (task s2 t) = fn" "state (task s2 t) = TASK_READY" "running_task s2 = t0"
    "\<forall>a. a \<noteq> t \<longrightarrow> (task s2 a)\<lparr>next_task := 0\<rparr> = (task s1 a)\<lparr>next_task := 0\<rparr>" "k_heap s2 = k_heap v"
    using create_kernel_task_ok [OF inv v(1,2), of fn] s1(4) by auto
  have "(task s2 t0)\<lparr>next_task := 0\<rparr> = (task s1 t0)\<lparr>next_task := 0\<rparr>" using s2(4,8) s1(4) by simp
  from arg_cong [OF this, of state] have "state (task s2 t0) = TASK_RUNNING" using s1(5) by simp
  then have "all_alive s2 [t]" using s2(6,7) by (simp add: all_alive_def destroyed_def task_states)
  moreover have "heap_at lo hi (k_heap s2)" using s2(9) room_heap_at [OF v(3)] by simp
  ultimately show ?thesis using s1(1) p' s2 by blast
qed

lemma mm_init_room:
  assumes "mbi_flags mbt AND MULTIBOOT_INFO_MEM_MAP \<noteq> 0" "kpd \<noteq> 0"
    "mmap_at mm (mmap_addr mbt) es (mmap_addr mbt + mmap_length mbt)"
    "0xC0000000 \<le> unat kend" "unat kend + R \<le> 0xC0400000" "20 \<le> R"
  shows "\<exists>m'. mm_init mm kpd kend False mbt m = Some (Inr m') \<and> free_set (m_frames m') = \<Union> (entry_frames ` set es) \<and>
    room (unat kend) 0xC0400000 GAP R (m_heap m') \<and>
    (\<forall>v. virt_to_phys (m_paging m') v = Inr (if 0xC0000000 \<le> unat v \<and> unat v < 0xC0400000 then v - KERNEL_VMA else 0))"
proof -
  have "unat kend + 20 \<le> 0xC0400000" using assms(5,6) by simp
  from mm_init_steps [OF assms(1-4) this] obtain m' where m': "mm_init mm kpd kend False mbt m = Some (Inr m')"
    "paging_init kpd False (m_paging m) = Inr (m_paging m')" "free_set (m_frames m') = \<Union> (entry_frames ` set es)"
    "heap_inv (unat kend) 0xC0400000 (m_heap m') [(kend, 0xC0400000 - kend, False)]" by blast
  have "R \<le> unat (0xC0400000 - kend)" using heap_size [of kend] assms(5) by (simp add: kernel_window_end)
  then have "roomy GAP R [(kend, 0xC0400000 - kend, False)]" by (simp add: roomy_def)
  then have "room (unat kend) 0xC0400000 GAP R (m_heap m')" using m'(4) unfolding room_def by (intro conjI exI) auto
  then show ?thesis using m'(1,3) paging_init_map [OF assms(2) m'(2)] by blast
qed

text \<open>The only ready task is the first to run.\<close>

lemma first_yield:
  assumes "sched_inv s [t] ss" "all_alive s [t]" "r_eip regs \<noteq> 0x12345"
  shows "\<exists>s'. sched_yield regs s = Some (Inr s') \<and> running_task s' = t \<and> r_eip (cpu s') = eip (task s t)"
proof -
  have "dropWhile (destroyed s) ([t] @ [running_task s]) = t # [running_task s]" "t \<noteq> running_task s"
    using assms(1,2) by (auto simp: all_alive_def sched_inv_def)
  with switch_ready [OF assms(1) _ assms(3), of t "[running_task s]"] assms(2) show ?thesis
    by (auto simp: sched_yield_def all_alive_def context_of_def)
qed

text \<open>
  What the kernel finds when it is entered: interrupt controllers \<open>m\<close> and \<open>c\<close>, a keyboard controller that
  accepts bytes, a PCI bus with the configuration space \<open>cfg\<close>, a screen, a memory map with the entries
  \<open>es\<close>, an image that ends inside of the kernel window and leaves room behind it for two tasks and the
  functions of the bus, and its own variables as the loader sets them.
\<close>

definition bootable :: "kernel_env \<Rightarrow> multiboot_info \<Rightarrow> kernel \<Rightarrow> chip \<Rightarrow> chip \<Rightarrow> (u32 \<Rightarrow> u32) \<Rightarrow> multiboot_mmap_entry list \<Rightarrow> bool" where
  "bootable E mbt k m c cfg es \<longleftrightarrow>
     pics (i_dev (e_isr E)) m c \<and> clears (i_dev (e_isr E)) 0x64 PS2_STATUS_INBUFFULL \<and> pci_host (i_dev (e_isr E)) cfg \<and>
     length (e_vga E) = 2000 \<and> mbi_flags mbt AND MULTIBOOT_INFO_MEM_MAP \<noteq> 0 \<and>
     mmap_at (e_mmap E) (mmap_addr mbt) es (mmap_addr mbt + mmap_length mbt) \<and>
     0 < unat (handlers (e_isr E)) \<and> unat (handlers (e_isr E)) + 3072 \<le> unat (e_kend E) \<and> 0xC0000000 \<le> unat (e_kend E) \<and>
     unat (e_kend E) + 41197 + 36 * length (found cfg) \<le> 0xC0400000 \<and>
     tmr_at (e_addrs E) \<noteq> 0 \<and> kbd_at (e_addrs E) \<noteq> 0 \<and> e_pf E \<noteq> 0 \<and> e_kpd E \<noteq> 0 \<and>
     idt_wf (c_boot k) \<and> queues (c_sched k) [] [] \<and> pci_dev_list (c_pci k) = 0"

lemma kmain_interrupts:
  assumes "bootable E mbt k m c cfg es"
  shows "\<exists>b0 b. arch_init (e_isr E) (e_addrs E) (c_kbd k) ((c_boot k)\<lparr>ports := h\<rparr>) = Some (Inr b0) \<and>
    request_isr (e_isr E) 14 (e_pf_id E) (e_pf E) b0 = Some (Inr (0, b)) \<and> b_if b \<and>
    table (e_isr E) b ((boot_table (e_addrs E))(14 := (e_pf_id E, e_pf E))) \<and>
    (\<forall>v. gate_of b v = (if v \<in> set wrapped then Some (8, stub (e_isr E) v) else None))"
proof -
  have w: "idt_wf ((c_boot k)\<lparr>ports := h\<rparr>)" using assms by (simp add: bootable_def idt_wf_def)
  have "unat (e_kend E) \<le> 0xC0400000" using assms by (simp add: bootable_def)
  then have fits: "table_fits (e_isr E)" using assms by (simp add: bootable_def table_fits_def)
  obtain b0 where b0: "arch_init (e_isr E) (e_addrs E) (c_kbd k) ((c_boot k)\<lparr>ports := h\<rparr>) = Some (Inr b0)"
    "table (e_isr E) b0 (boot_table (e_addrs E))" "b_if b0"
    "\<forall>v. gate_of b0 v = (if v \<in> set wrapped then Some (8, stub (e_isr E) v) else None)"
    using arch_init_ok [OF _ _ fits w] assms unfolding bootable_def by blast
  obtain b where b: "request_isr (e_isr E) 14 (e_pf_id E) (e_pf E) b0 = Some (Inr (0, b))"
    "table (e_isr E) b ((boot_table (e_addrs E))(14 := (e_pf_id E, e_pf E)))" "b = b0\<lparr>node := node b\<rparr>"
    using request_isr_table [OF fits b0(2), of 14] by (auto simp: boot_table_def)
  have "b_if b = b_if b0" by (subst b(3)) simp
  moreover have "gate_of b v = gate_of b0 v" for v by (rule gate_of_cong, subst b(3)) simp
  ultimately show ?thesis using b0 b(1,2) by auto
qed


text \<open>A machine with an empty bus, entered with all variables cleared.\<close>

definition pc1 :: device where
  "pc1 = pc\<lparr>dev32 := (\<lambda>h p. 0xFFFFFFFF)\<rparr>"

definition kernel_env0 :: kernel_env where
  "kernel_env0 = \<lparr>e_isr = isr_env1\<lparr>i_dev := pc1\<rparr>, e_addrs = boot_addrs0, e_vga = replicate 2000 0, e_mmap = (\<lambda>_. ram_entry),
     e_kpd = 0xC0114000, e_kend = 0xC0120000, e_pf_id = 0xC0118000, e_pf = 0xC0103000, e_dsh = 0xC0104000\<rparr>"

definition kernel0 :: kernel where
  "kernel0 = \<lparr>c_tty = tty0, c_boot = boot0, c_kbd = kbd0, c_mem = memory0, c_sched = sched0, c_pci = pci0, c_net = net0\<rparr>"

lemma found_none: "found (\<lambda>_. 0xFFFFFFFF) = []"
proof -
  have "cfg_w (\<lambda>_. 0xFFFFFFFF) p 0 = 0xFFFF" for p by (simp add: cfg_w_def)
  then show ?thesis by (simp add: found_def found_dev_def)
qed

lemma kernel0_bootable: "bootable kernel_env0 mbt0 kernel0 chip0 chip0 (\<lambda>_. 0xFFFFFFFF) [ram_entry]"
proof -
  have "pics pc1 chip0 chip0" "pci_host pc1 (\<lambda>_. 0xFFFFFFFF)" using pc_pics by (simp_all add: pics_def pci_host_def pc1_def)
  moreover have "clears pc1 0x64 PS2_STATUS_INBUFFULL"
    unfolding clears_def by (intro allI exI [of _ 0]) (simp add: pc1_def pc_def inb_def Let_def)
  moreover have "queues sched0 [] []" by (simp add: queues_def sched0_def)
  ultimately show ?thesis
    using mbt0_map by (simp add: bootable_def kernel_env0_def kernel0_def found_none isr_env1_def boot_addrs0_def boot0_def
      idt_wf_def pci0_def mbt0_def MULTIBOOT_INFO_MEM_MAP_def)
qed


end
