(* ===== verification/Kalloc_Trace.thy ===== *)
theory Kalloc_Trace
  imports Kalloc_Spec
begin

text \<open>
  The kernel heap over whole sequences of requests: the C functions of \<open>kernel/kalloc.c\<close> and the
  abstract allocator on block lists run in step, and a heap everybody has returned their blocks to is
  as good as new. Two tasks that are in the allocator at the same time get the same block.
\<close>

section \<open>Sequences of requests\<close>

datatype heap_op = Alloc u32 | Alloc_aligned u32 | Free addr

definition heap_exec :: "heap_op \<Rightarrow> heap \<Rightarrow> (addr \<times> heap) result option" where
  "heap_exec op h =
     (case op of
        Alloc n \<Rightarrow> kmalloc h n
      | Alloc_aligned n \<Rightarrow> kmalloc_a h n
      | Free p \<Rightarrow> Some (rbind (kfree h p) (\<lambda>h. Inr (0, h))))"

text \<open>The pointers the requests return, in their order.\<close>

primrec heap_run :: "heap_op list \<Rightarrow> heap \<Rightarrow> (addr list \<times> heap) result option" where
  "heap_run [] h = Some (Inr ([], h))"
| "heap_run (op # ops) h =
     obind (heap_exec op h) (\<lambda>(p, h). obind (heap_run ops h) (\<lambda>(ps, h). Some (Inr (p # ps, h))))"

text \<open>The same on block lists: first fit, the first page aligned fit, and coalescing.\<close>

definition blocks_exec :: "heap_op \<Rightarrow> blk list \<Rightarrow> (addr \<times> blk list) option" where
  "blocks_exec op bs =
     (case op of
        Alloc n \<Rightarrow> (case first_fit (round_size n) bs of None \<Rightarrow> Some (0, bs) | Some (c, bs') \<Rightarrow> Some (c + HDR, bs'))
      | Alloc_aligned n \<Rightarrow>
          (case aligned_fit (round_size n) bs of NoFit \<Rightarrow> Some (0, bs) | Stuck \<Rightarrow> None | Fit c bs' \<Rightarrow> Some (c + HDR, bs'))
      | Free p \<Rightarrow> Some (0, if p = 0 then bs else coalesce (mark_free (p - HDR) bs)))"

primrec blocks_run :: "heap_op list \<Rightarrow> blk list \<Rightarrow> (addr list \<times> blk list) option" where
  "blocks_run [] bs = Some ([], bs)"
| "blocks_run (op # ops) bs =
     (case blocks_exec op bs of
        None \<Rightarrow> None
      | Some (p, bs) \<Rightarrow> map_option (\<lambda>(ps, bs). (p # ps, bs)) (blocks_run ops bs))"

text \<open>Requests of a sensible size, and only null or pointers in use are freed.\<close>

definition legal :: "heap_op \<Rightarrow> blk list \<Rightarrow> bool" where
  "legal op bs \<longleftrightarrow>
     (case op of
        Alloc n \<Rightarrow> req_ok n
      | Alloc_aligned n \<Rightarrow> req_ok n
      | Free p \<Rightarrow> p = 0 \<or> (\<exists>b \<in> set bs. fst b = p - HDR \<and> snd (snd b)))"

primrec legal_run :: "heap_op list \<Rightarrow> blk list \<Rightarrow> bool" where
  "legal_run [] bs = True"
| "legal_run (op # ops) bs \<longleftrightarrow> legal op bs \<and> (case blocks_exec op bs of None \<Rightarrow> True | Some (p, bs) \<Rightarrow> legal_run ops bs)"

section \<open>Simulation\<close>

definition heap_blocks :: "nat \<Rightarrow> nat \<Rightarrow> heap \<Rightarrow> blk list \<Rightarrow> bool" where
  "heap_blocks lo hi h bs \<longleftrightarrow> heap_inv lo hi h bs \<and> no_adj bs \<and> hi + 4136 \<le> 4294967296"

lemma heap_exec_step:
  assumes hb: "heap_blocks lo hi h bs" and lg: "legal op bs"
  shows "case blocks_exec op bs of
      None \<Rightarrow> heap_exec op h = None
    | Some (p, bs') \<Rightarrow> \<exists>h'. heap_exec op h = Some (Inr (p, h')) \<and> heap_blocks lo hi h' bs'"
proof (cases op)
  case (Alloc n)
  with hb lg kmalloc_cases [of lo hi h bs n] show ?thesis
    by (auto simp: heap_blocks_def legal_def blocks_exec_def heap_exec_def)
next
  case (Alloc_aligned n)
  with hb lg kmalloc_a_cases [of lo hi h bs n] show ?thesis
    by (auto simp: heap_blocks_def legal_def blocks_exec_def heap_exec_def)
next
  case (Free p)
  show ?thesis
  proof (cases "p = 0")
    case True
    then show ?thesis using Free hb by (simp add: blocks_exec_def heap_exec_def kfree_def)
  next
    case False
    then obtain m where "(p - HDR, m, True) \<in> set bs" using lg Free by (auto simp: legal_def)
    then have "heap_live h p m" using hb heap_live_iff [of lo hi h bs p m] by (simp add: heap_blocks_def)
    with hb kfree_live [of lo hi h bs p m] obtain h' where
      "kfree h p = Inr h'" "heap_inv lo hi h' (coalesce (mark_free (p - HDR) bs))" by (auto simp: heap_blocks_def)
    then show ?thesis using Free False hb no_adj_coalesce by (simp add: blocks_exec_def heap_exec_def heap_blocks_def)
  qed
qed

lemma heap_run_steps:
  "heap_blocks lo hi h bs \<Longrightarrow> legal_run ops bs \<Longrightarrow>
   case blocks_run ops bs of
     None \<Rightarrow> heap_run ops h = None
   | Some (ps, bs') \<Rightarrow> \<exists>h'. heap_run ops h = Some (Inr (ps, h')) \<and> heap_blocks lo hi h' bs'"
proof (induction ops arbitrary: h bs)
  case (Cons op ops)
  have step: "case blocks_exec op bs of
      None \<Rightarrow> heap_exec op h = None
    | Some (p, bs') \<Rightarrow> \<exists>h'. heap_exec op h = Some (Inr (p, h')) \<and> heap_blocks lo hi h' bs'"
    using heap_exec_step Cons.prems by simp
  show ?case
  proof (cases "blocks_exec op bs")
    case None
    then show ?thesis using step by simp
  next
    case (Some r)
    obtain p bs1 where r: "r = (p, bs1)" by (cases r)
    with Some step obtain h1 where h1: "heap_exec op h = Some (Inr (p, h1))" "heap_blocks lo hi h1 bs1" by auto
    have "legal_run ops bs1" using Cons.prems(2) Some r by simp
    from Cons.IH [OF h1(2) this] show ?thesis using Some r h1(1) by (cases "blocks_run ops bs1") auto
  qed
qed simp

text \<open>A block list without used blocks and without free neighbours is a single block.\<close>

lemma all_free_single:
  assumes "tiles lo hi bs" "no_adj bs" "bs \<noteq> []" "used bs = []" "lo = unat start" "hi = unat start + unat sz"
  shows "bs = [(start, sz, False)]"
proof -
  obtain a n u xs where bs: "bs = (a, n, u) # xs" using assms(3) by (metis neq_Nil_conv prod_cases3)
  have u: "u = False" using assms(4) bs by (cases u) simp_all
  have "xs = []"
  proof (cases xs)
    case (Cons b ys)
    obtain c m v where "b = (c, m, v)" by (cases b)
    then show ?thesis using assms(2,4) bs u Cons by (cases v) simp_all
  qed simp
  with assms(1,5,6) bs u show ?thesis by (simp add: word_unat_eq_iff)
qed

section \<open>Two tasks in the allocator\<close>

text \<open>
  \<open>kmalloc\<close> does not switch interrupts off, so the clock may take the processor away between the end of the
  search for a free block and the stores that take it. \<open>kmalloc_find\<close> is the search of the unaligned case by
  itself (after the tests of the size and of the heap), \<open>kmalloc_preempted\<close> a request for \<open>n\<close> bytes that is put aside there while another task requests \<open>m\<close>.
\<close>

partial_function (option) kmalloc_find :: "heap \<Rightarrow> u32 \<Rightarrow> addr \<Rightarrow> addr result option" where
  "kmalloc_find s sz h =
     (if h = 0 then Some (Inr 0)
      else if magic (hdr s h) \<noteq> HEAP_MAGIC then Some (Inl (Panic ''kmalloc: heap magic violated''))
      else if allocated (hdr s h) = 0 \<and> hsize (hdr s h) \<ge> sz + HDR then Some (Inr h)
      else kmalloc_find s sz (hnext (hdr s h)))"

definition kmalloc_take :: "heap \<Rightarrow> u32 \<Rightarrow> addr \<Rightarrow> addr \<times> heap" where
  "kmalloc_take s sz h = (if h = 0 then (0, s) else take_plain s h sz)"

definition kmalloc_preempted :: "heap \<Rightarrow> u32 \<Rightarrow> u32 \<Rightarrow> (addr \<times> addr \<times> heap) result option" where
  "kmalloc_preempted s n m =
     obind (kmalloc_find s (round_size n) (kheap s)) (\<lambda>h.
     obind (kmalloc s m) (\<lambda>(q, s).
       let (p, s) = kmalloc_take s (round_size n) h in Some (Inr (p, q, s))))"

definition fit_addr :: "u32 \<Rightarrow> blk list \<Rightarrow> addr" where
  "fit_addr sz bs = (case first_fit sz bs of None \<Rightarrow> 0 | Some (c, bs') \<Rightarrow> c)"

lemma kmalloc_find_fit:
  assumes "heap_inv lo hi s (pre @ bs)" and sz: "unat sz + 40 < 4294967296"
  shows "kmalloc_find s sz (head_of bs) = Some (Inr (fit_addr sz bs)) \<and>
    kmalloc_loop s sz False (head_of bs) = Some (Inr (kmalloc_take s sz (fit_addr sz bs)))"
  using assms(1)
proof (induction bs arbitrary: pre)
  case Nil
  show ?case by (simp add: kmalloc_find.simps kmalloc_loop.simps fit_addr_def kmalloc_take_def)
next
  case (Cons x bs)
  obtain a n u where x: "x = (a, n, u)" by (cases x)
  have inv: "heap_inv lo hi s (pre @ (a, n, u) # bs)" using Cons.prems x by simp
  note f = hdr_mid(1-4) [OF inv] hnext_head [OF inv] and u = kmalloc_find.simps [of s sz a] kmalloc_loop.simps [of s sz False a]
  show ?case
  proof (cases "\<not> u \<and> unat sz + 20 \<le> unat n")
    case True
    then have "kmalloc_find s sz a = Some (Inr a) \<and> kmalloc_loop s sz False a = Some (Inr (take_plain s a sz))"
      using f sz by (subst u, subst u) (auto simp: le32_iff unat_HDR_add)
    then show ?thesis using True x f(4) by (simp add: fit_addr_def kmalloc_take_def)
  next
    case False
    then have "kmalloc_find s sz a = kmalloc_find s sz (head_of bs) \<and> kmalloc_loop s sz False a = kmalloc_loop s sz False (head_of bs)"
      using f sz by (subst u, subst u) (auto simp: le32_iff unat_HDR_add)
    moreover have "fit_addr sz (x # bs) = fit_addr sz bs"
      using False x by (cases "first_fit sz bs") (auto simp: fit_addr_def)
    ultimately show ?thesis using x Cons.IH [of "pre @ [(a, n, u)]"] inv by simp
  qed
qed

lemma fst_take_plain: "fst (take_plain s h sz) = h + HDR"
  by (simp add: take_plain_def split: prod.split)

text \<open>The search meets only blocks of the list, none of which is at address 0.\<close>

lemma first_fit_mem: "first_fit sz bs = Some (c, bs') \<Longrightarrow> \<exists>n. (c, n, False) \<in> set bs"
  by (induction sz bs arbitrary: bs' rule: first_fit.induct) (auto split: if_splits)

lemma first_fit_nonnull: "heap_inv lo hi s bs \<Longrightarrow> first_fit sz bs = Some (c, bs') \<Longrightarrow> c \<noteq> 0"
  using first_fit_mem hdr_mid(4) split_list by metis

lemma kmalloc_find_kheap:
  assumes "heap_inv lo hi s bs" "req_ok n"
  shows "kmalloc_find s (round_size n) (kheap s) = Some (Inr (fit_addr (round_size n) bs)) \<and>
    kmalloc_loop s (round_size n) False (kheap s) = Some (Inr (kmalloc_take s (round_size n) (fit_addr (round_size n) bs)))"
  using kmalloc_find_fit [of lo hi s "[]" bs "round_size n"] kheap_head [OF assms(1)] round_size_fits [OF assms(2)] assms(1)
  by simp

text \<open>Left alone, the search and the taking are \<open>kmalloc\<close>.\<close>

lemma kmalloc_find_take:
  assumes "heap_inv lo hi s bs" "req_ok n"
  shows "kmalloc s n = obind (kmalloc_find s (round_size n) (kheap s)) (\<lambda>h. Some (Inr (kmalloc_take s (round_size n) h)))"
proof -
  have "n \<noteq> 0" using assms(2) by (auto simp: req_ok_def)
  moreover note kheap_nonnull [OF assms(1)]
  ultimately show ?thesis using kmalloc_find_kheap [OF assms] by (simp add: kmalloc_def kmalloc_int_def)
qed

text \<open>
  Two tasks get the same block: a task that is put aside between the search and the taking, while another one
  requests a block of the same size, is given the pointer that the other one has just been given.
\<close>

theorem kmalloc_preempted_shares:
  assumes inv: "heap_inv lo hi s bs" "no_adj bs" and req: "req_ok n"
    and got: "kmalloc s n = Some (Inr (p, s'))" "p \<noteq> 0"
  shows "\<exists>s''. kmalloc_preempted s n n = Some (Inr (p, p, s''))"
proof -
  obtain c bs' where c: "first_fit (round_size n) bs = Some (c, bs')" "p = c + HDR"
    using kmalloc_cases [OF inv req] got by auto
  moreover have "fst (take_plain s' c (round_size n)) = p" using c(2) by (simp add: fst_take_plain)
  ultimately show ?thesis using got(1) kmalloc_find_kheap [OF inv(1) req] first_fit_nonnull [OF inv(1) c(1)]
    by (cases "take_plain s' c (round_size n)") (simp add: kmalloc_preempted_def kmalloc_take_def fit_addr_def)
qed

section \<open>Properties\<close>

text \<open>
  C2. Refinement over whole histories: on any sequence of requests that frees only what it holds, the
  heap of linked headers returns the same pointers as the allocator on block lists and stays its image,
  and it hangs exactly where the search for an aligned block is stuck.
\<close>

theorem heap_run_refines:
  assumes "heap_inv lo hi h bs" "no_adj bs" "hi + 4136 \<le> 4294967296" "legal_run ops bs"
  shows "case blocks_run ops bs of
      None \<Rightarrow> heap_run ops h = None
    | Some (ps, bs') \<Rightarrow> \<exists>h'. heap_run ops h = Some (Inr (ps, h')) \<and> heap_inv lo hi h' bs' \<and> no_adj bs'"
  using heap_run_steps [of lo hi h bs ops] assms by (auto simp: heap_blocks_def split: option.splits)

text \<open>Three requests and a return, the last block being put where the first one was.\<close>

theorem heap_run_refines_witness:
  "\<exists>h'. heap_run [Alloc 36, Alloc 36, Free 0xC0120014, Alloc 20] heap1 = Some (Inr ([0xC0120014, 0xC012004C, 0, 0xC0120014], h'))"
proof -
  let ?ops = "[Alloc 36, Alloc 36, Free 0xC0120014, Alloc 20]" and ?bs = "[(0xC0120000, 0x10000, False)] :: blk list"
  have "blocks_run ?ops ?bs = Some ([0xC0120014, 0xC012004C, 0, 0xC0120014],
      [(0xC0120000, 56, True), (0xC0120038, 56, True), (0xC0120070, 0xFF90, False)])"
    by (simp add: blocks_exec_def round_size_def HDR_def mark_free_def)
  moreover have "legal_run ?ops ?bs"
    by (simp add: legal_def req_ok_def blocks_exec_def round_size_def HDR_def mark_free_def)
  ultimately show ?thesis using heap_run_refines [OF heap1_inv, of ?ops] by auto
qed

text \<open>
  C5. Nothing is lost for good: however a fresh heap was used, once everything is freed it is again a single
  free block of its full size, whatever the order the blocks were taken and returned in.
\<close>

theorem heap_recovers:
  assumes "0 < unat start" "20 \<le> unat sz" "unat start + unat sz + 4136 \<le> 4294967296"
    "legal_run ops [(start, sz, False)]" "heap_run ops (kheap_init start sz h0) = Some (Inr (ps, h))" "\<And>p m. \<not> heap_live h p m"
  shows "heap_inv (unat start) (unat start + unat sz) h [(start, sz, False)]"
proof -
  have "heap_blocks (unat start) (unat start + unat sz) (kheap_init start sz h0) [(start, sz, False)]"
    using assms(1-3) kheap_init_inv by (simp add: heap_blocks_def)
  from heap_run_steps [OF this assms(4)] assms(5) obtain bs where
    bs: "heap_inv (unat start) (unat start + unat sz) h bs" "no_adj bs"
    by (auto simp: heap_blocks_def split: option.splits)
  have "used bs = []"
  proof (rule ccontr)
    assume "used bs \<noteq> []"
    then obtain a n where "(a, n) \<in> set (used bs)" by (cases "used bs") auto
    then have "heap_live h (a + HDR) n" using heap_live_iff [OF bs(1), of "a + HDR" n] by (simp add: in_used)
    then show False using assms(6) by blast
  qed
  moreover have "bs \<noteq> []" using kheap_head [OF bs(1)] by blast
  moreover have "tiles (unat start) (unat start + unat sz) bs" using bs(1) by (simp add: heap_inv_def)
  ultimately have "bs = [(start, sz, False)]" using all_free_single bs(2) by blast
  with bs(1) show ?thesis by simp
qed

text \<open>Two blocks, returned in the order they were taken in.\<close>

theorem heap_recovers_witness:
  "\<exists>ps h. heap_run [Alloc 36, Alloc 36, Free 0xC0120014, Free 0xC012004C] (kheap_init 0xC0120000 0x10000 heap0) = Some (Inr (ps, h))
    \<and> heap_inv 0xC0120000 0xC0130000 h [(0xC0120000, 0x10000, False)]"
proof -
  let ?ops = "[Alloc 36, Alloc 36, Free 0xC0120014, Free 0xC012004C]" and ?bs = "[(0xC0120000, 0x10000, False)] :: blk list"
  have br: "blocks_run ?ops ?bs = Some ([0xC0120014, 0xC012004C, 0, 0], ?bs)"
    by (simp add: blocks_exec_def round_size_def HDR_def mark_free_def)
  have lg: "legal_run ?ops ?bs"
    by (simp add: legal_def req_ok_def blocks_exec_def round_size_def HDR_def mark_free_def)
  have "heap_blocks 0xC0120000 0xC0130000 heap1 ?bs" using heap1_inv by (simp add: heap_blocks_def)
  from heap_run_steps [OF this lg] br obtain h where
    h: "heap_run ?ops heap1 = Some (Inr ([0xC0120014, 0xC012004C, 0, 0], h))" "heap_inv 0xC0120000 0xC0130000 h ?bs"
    by (auto simp: heap_blocks_def)
  have "\<not> heap_live h p m" for p m using heap_live_iff [OF h(2)] by simp
  with heap_recovers [of "0xC0120000" "0x10000" ?ops heap0 _ h] lg h(1) show ?thesis by (auto simp: heap1_def)
qed

end
