(* ===== verification/Kcalloc.thy ===== *)
theory Kcalloc
  imports Kalloc_Spec Cstring
begin

text \<open>\<open>kcalloc\<close> of \<open>kernel/kalloc.c\<close>: an allocation from the heap whose bytes are cleared.\<close>

definition kcalloc :: "heap \<Rightarrow> mem \<Rightarrow> u32 \<Rightarrow> u32 \<Rightarrow> (addr \<times> heap \<times> mem) result option" where
  "kcalloc h m num sz =
     obind (kmalloc h (num * sz)) (\<lambda>(ptr, h).
       if ptr = 0 then Some (Inr (0, h, m))
       else Some (Inr (ptr, h, snd (memset ptr 0 (num * sz) m))))"

text \<open>
  When the product of the two arguments fits, \<open>kcalloc\<close> returns null and changes nothing, or a fresh
  live block with room for it, all bytes asked for cleared and no other byte of memory changed.
\<close>

theorem kcalloc_zeroed:
  assumes "heap_wf h" "0 < unat num * unat sz" "unat num * unat sz + 43 < 4294967296"
  shows "\<exists>p h' m'. kcalloc h m num sz = Some (Inr (p, h', m')) \<and> heap_wf h' \<and> (p = 0 \<longrightarrow> h' = h \<and> m' = m) \<and>
    (p \<noteq> 0 \<longrightarrow> (\<exists>k. unat num * unat sz + 20 \<le> unat k \<and> (\<forall>j. \<not> heap_live h p j) \<and>
       (\<forall>q j. heap_live h' q j \<longleftrightarrow> heap_live h q j \<or> q = p \<and> j = k)) \<and>
       (\<forall>a. m' a = (if in_block p (unat num * unat sz) a then 0 else m a)))"
proof -
  have u: "unat (num * sz) = unat num * unat sz" using assms(3) by (simp add: unat_mult32)
  then have r: "req_ok (num * sz)" using assms(2,3) by (simp add: req_ok_def)
  show ?thesis
  proof (cases rule: km.alloc_cases [OF assms(1) r, case_names null block])
    case null
    then show ?thesis using assms(1) by (simp add: kcalloc_def)
  next
    case (block p h' k)
    have "heap_live h' p k" using block(6) by blast
    then have "unat p + unat k \<le> 4294967296 + 20" using live_bound [OF block(3)] by fastforce
    then have "fits_block p (unat (num * sz))" using block(4) u by (simp add: fits_block_def)
    then have "snd (memset p 0 (num * sz) m) a = (if in_block p (unat num * unat sz) a then 0 else m a)" for a
      using memset_correct u by simp
    then show ?thesis using block u by (intro exI [of _ p] exI [of _ h'] exI [of _ "snd (memset p 0 (num * sz) m)"]) (auto simp: kcalloc_def)
  qed
qed

theorem kcalloc_zeroed_witness: "\<exists>p h' m'. kcalloc heap1 (\<lambda>_. 7) 10 10 = Some (Inr (p, h', m')) \<and> heap_wf h'"
proof -
  have b: "0 < unat (10 :: u32) * unat (10 :: u32)" "unat (10 :: u32) * unat (10 :: u32) + 43 < 4294967296" by simp_all
  show ?thesis using kcalloc_zeroed [OF heap1_wf b, of "\<lambda>_. 7"] by blast
qed

text \<open>The product is not checked: an array of 65536 elements of 65537 bytes gets 65536 bytes.\<close>

lemma kcalloc_overflow: "kcalloc h m 0x10000 0x10001 = kcalloc h m 1 0x10000"
proof -
  have "(0x10000 :: u32) * 0x10001 = 1 * 0x10000" by (simp add: word_unat_eq_iff unat_word_ariths)
  then show ?thesis unfolding kcalloc_def by (simp only:)
qed

end
