(* ===== verification/Printf.thy ===== *)
theory Printf
  imports Clib
begin

text \<open>
  \<open>printf\<close> of \<open>kernel/stdio/printf.c\<close> against a reference formatter on lists: every conversion it knows,
  with the memory it may touch.
\<close>

section \<open>Strings in memory\<close>

lemma put_string_cstr: "cstr m p bs \<Longrightarrow> put_string p m out = Some (out @ map scast bs)"
proof (induction bs arbitrary: p out)
  case Nil
  then show ?case by (subst put_string.simps) simp
next
  case (Cons b bs)
  then show ?case using Cons.IH [of "p + 1" "out @ [scast b]"] by (subst put_string.simps) simp
qed

lemma cstr_keep: "cstr m p bs \<Longrightarrow> (\<And>i. i \<le> length bs \<Longrightarrow> m' (p + of_nat i) = m (p + of_nat i)) \<Longrightarrow> cstr m' p bs"
proof (induction bs arbitrary: p)
  case Nil
  then show ?case using Nil(2) [of 0] by simp
next
  case (Cons c bs)
  have "m' (p + 1 + of_nat i) = m (p + 1 + of_nat i)" if "i \<le> length bs" for i
    using Cons.prems(2) [of "Suc i"] that by (simp add: add.assoc)
  then show ?case using Cons.IH [of "p + 1"] Cons.prems(1) Cons.prems(2) [of 0] by simp
qed

section \<open>The reference formatter\<close>

text \<open>An argument: a number or a character, or a pointer to a string, null for none.\<close>

datatype arg = Num u32 | Str addr "u8 list"

primrec arg_word :: "arg \<Rightarrow> u32" where
  "arg_word (Num v) = v"
| "arg_word (Str p bs) = p"

text \<open>The characters for a conversion: decimal and hexadecimal numbers, strings, and any other letter a character.\<close>

fun converted :: "u8 \<Rightarrow> arg \<Rightarrow> u32 list" where
  "converted d (Num v) = (if d = 100 \<or> d = 117 \<or> d = 120 then map scast (itoa_text v d) else [v])"
| "converted d (Str p bs) = (if p = 0 then null_text else map scast bs)"

fun formatted :: "u8 list \<Rightarrow> arg list \<Rightarrow> u32 list" where
  "formatted [] as = []"
| "formatted [c] as = [scast c]"
| "formatted (c # d # fs) as =
     (if c = 37 then converted d (hd as) @ formatted fs (tl as) else scast c # formatted (d # fs) as)"

text \<open>
  The arguments fit the format: strings for \<open>%s\<close> and words for the others, and no \<open>%d\<close> of the smallest number, whose
  negation overflows.
\<close>

fun arg_fits :: "u8 \<Rightarrow> arg \<Rightarrow> bool" where
  "arg_fits d (Num v) \<longleftrightarrow> d \<noteq> 115 \<and> (d = 100 \<longrightarrow> v \<noteq> 0x80000000)"
| "arg_fits d (Str p bs) \<longleftrightarrow> d = 115"

fun format_fits :: "u8 list \<Rightarrow> arg list \<Rightarrow> bool" where
  "format_fits [] as \<longleftrightarrow> True"
| "format_fits [c] as \<longleftrightarrow> c \<noteq> 37"
| "format_fits (c # d # fs) as \<longleftrightarrow>
     (if c = 37 then as \<noteq> [] \<and> arg_fits d (hd as) \<and> format_fits fs (tl as) else format_fits (d # fs) as)"

text \<open>A string in memory, apart from the local buffer of 20 bytes at \<open>tmp\<close>.\<close>

definition string_at :: "mem \<Rightarrow> addr \<Rightarrow> addr \<Rightarrow> u8 list \<Rightarrow> bool" where
  "string_at m tmp p bs \<longleftrightarrow> cstr m p bs \<and> (\<forall>i \<le> length bs. \<not> in_block tmp 20 (p + of_nat i))"

fun arg_at :: "mem \<Rightarrow> addr \<Rightarrow> arg \<Rightarrow> bool" where
  "arg_at m tmp (Num v) \<longleftrightarrow> True"
| "arg_at m tmp (Str p bs) \<longleftrightarrow> p = 0 \<or> string_at m tmp p bs"

lemma string_at_keep:
  "string_at m tmp p bs \<Longrightarrow> (\<And>a. \<not> in_block tmp 20 a \<Longrightarrow> m' a = m a) \<Longrightarrow> string_at m' tmp p bs"
  unfolding string_at_def using cstr_keep [of m p bs m'] by blast

lemma arg_at_keep: "arg_at m tmp a \<Longrightarrow> (\<And>a. \<not> in_block tmp 20 a \<Longrightarrow> m' a = m a) \<Longrightarrow> arg_at m' tmp a"
  using string_at_keep by (cases a) auto

lemma string_at_tl: "string_at m tmp p (c # bs) \<Longrightarrow> string_at m tmp (p + 1) bs"
  unfolding string_at_def
proof (elim conjE, intro conjI allI impI)
  fix i assume a: "\<forall>i \<le> length (c # bs). \<not> in_block tmp 20 (p + of_nat i)" "i \<le> length bs"
  from a(1) [rule_format, of "Suc i"] a(2) show "\<not> in_block tmp 20 (p + 1 + of_nat i)" by (simp add: add.assoc)
qed simp

text \<open>One conversion prints the reference text and writes into the local buffer only.\<close>

lemma printf_loop_convert:
  assumes "fits_block tmp 20" "0 < unat tmp" "m f = 37" "m (f + 1) = d" "arg_fits d a" "arg_at m tmp a" "arg k = arg_word a"
  shows "\<exists>m'. printf_loop tmp arg f k m out = printf_loop tmp arg (f + 1 + 1) (Suc k) m' (out @ converted d a) \<and>
    (\<forall>b. \<not> in_block tmp 20 b \<longrightarrow> m' b = m b)"
proof (cases a)
  case (Num v)
  show ?thesis
  proof (cases "d = 100 \<or> d = 117 \<or> d = 120")
    case True
    have "fits_block tmp 12" using assms(1) by (simp add: fits_block_def)
    moreover have "d = 100 \<longrightarrow> v \<noteq> 0x80000000" using assms(5) Num by simp
    ultimately obtain s' m' where i: "itoa v tmp d m = Inr (s', m')" "cstr m' tmp (itoa_text v d)"
      "\<forall>b. \<not> in_block tmp 12 b \<longrightarrow> m' b = m b"
      using itoa_spec [of tmp d v m] assms(2) by blast
    have "printf_loop tmp arg f k m out = printf_loop tmp arg (f + 1 + 1) (Suc k) m' (out @ converted d a)"
      using True i(1) put_string_cstr [OF i(2), of out] assms(3,4,7) Num by (subst printf_loop.simps) auto
    moreover have "\<not> in_block tmp 20 b \<Longrightarrow> m' b = m b" for b using i(3) by (auto simp: in_block_def)
    ultimately show ?thesis by blast
  next
    case False
    then have "printf_loop tmp arg f k m out = printf_loop tmp arg (f + 1 + 1) (Suc k) m (out @ converted d a)"
      using assms(3-5,7) Num by (subst printf_loop.simps) auto
    then show ?thesis by blast
  qed
next
  case (Str p bs)
  have "printf_loop tmp arg f k m out = printf_loop tmp arg (f + 1 + 1) (Suc k) m (out @ converted d a)"
    using assms(3-7) Str put_string_cstr [of m p bs out] by (subst printf_loop.simps) (auto simp: string_at_def)
  then show ?thesis by blast
qed

lemma printf_loop_formatted:
  "fits_block tmp 20 \<Longrightarrow> 0 < unat tmp \<Longrightarrow> string_at m tmp f fs \<Longrightarrow> format_fits fs as \<Longrightarrow> (\<forall>a \<in> set as. arg_at m tmp a) \<Longrightarrow>
   (\<And>i. i < length as \<Longrightarrow> arg (k + i) = arg_word (as ! i)) \<Longrightarrow>
   \<exists>m'. printf_loop tmp arg f k m out = Some (Inr (out @ formatted fs as, m')) \<and> (\<forall>b. \<not> in_block tmp 20 b \<longrightarrow> m' b = m b)"
proof (induction fs as arbitrary: f k m out rule: formatted.induct)
  case (1 as)
  then show ?case by (subst printf_loop.simps) (simp add: string_at_def)
next
  case (2 c as)
  then have "m f = c" "c \<noteq> 37" "c \<noteq> 0" "m (f + 1) = 0" by (simp_all add: string_at_def)
  then show ?case by (subst printf_loop.simps, simp, subst printf_loop.simps, simp)
next
  case (3 c d fs as)
  have h: "m f = c" "c \<noteq> 0" "m (f + 1) = d" "string_at m tmp (f + 1) (d # fs)" "string_at m tmp (f + 1 + 1) fs"
    using 3(5) string_at_tl [OF 3(5)] string_at_tl [OF string_at_tl [OF 3(5)]] by (simp_all add: string_at_def)
  show ?case
  proof (cases "c = 37")
    case False
    then have "\<exists>m'. printf_loop tmp arg (f + 1) k m (out @ [scast c]) = Some (Inr ((out @ [scast c]) @ formatted (d # fs) as, m')) \<and>
        (\<forall>b. \<not> in_block tmp 20 b \<longrightarrow> m' b = m b)"
      using 3(6-8) by (intro 3(2) [OF _ 3(3,4) h(4)]) auto
    then show ?thesis using False h(1,2) by (subst printf_loop.simps) simp
  next
    case True
    then obtain a as' where a: "as = a # as'" "arg_fits d a" "format_fits fs as'" using 3(6) by (cases as) auto
    have arg: "m f = 37" "arg_at m tmp a" "arg k = arg_word a" using True h(1) 3(7) 3(8) [of 0] a(1) by simp_all
    from printf_loop_convert [where m = m and f = f and arg = arg, OF 3(3,4) arg(1) h(3) a(2) arg(2,3), of out] obtain m1 where
      m1: "printf_loop tmp arg f k m out = printf_loop tmp arg (f + 1 + 1) (Suc k) m1 (out @ converted d a)"
      "\<And>b. \<not> in_block tmp 20 b \<Longrightarrow> m1 b = m b" by blast
    have "arg (Suc k + i) = arg_word (as' ! i)" if "i < length as'" for i using 3(8) [of "Suc i"] that a(1) by simp
    moreover have "string_at m1 tmp (f + 1 + 1) fs" by (rule string_at_keep [OF h(5) m1(2)])
    moreover have "\<forall>a \<in> set as'. arg_at m1 tmp a" using 3(7) a(1) arg_at_keep [OF _ m1(2)] by auto
    ultimately obtain m' where "printf_loop tmp arg (f + 1 + 1) (Suc k) m1 (out @ converted d a) =
        Some (Inr ((out @ converted d a) @ formatted fs as', m'))" "\<forall>b. \<not> in_block tmp 20 b \<longrightarrow> m' b = m1 b"
      using 3(1) [OF True 3(3,4), of m1 "f + 1 + 1" "Suc k" "out @ converted d a"] a by auto
    then show ?thesis using m1 True a(1) by auto
  qed
qed

section \<open>Properties\<close>

text \<open>
  C22. \<open>printf\<close> agrees with the reference formatter: for a format in memory and arguments that fit it, the characters
  handed to \<open>putchar\<close> are the text around the conversions with the numbers in decimal or hexadecimal,
  the strings, \<open>(null)\<close> for a null string, and the characters in their places; it returns, and writes
  nothing but its local buffer.
\<close>

theorem printf_correct:
  assumes "fits_block tmp 20" "0 < unat tmp" "string_at m tmp format fs" "format_fits fs as" "\<forall>a \<in> set as. arg_at m tmp a"
  shows "\<exists>m'. printf tmp (\<lambda>k. arg_word (as ! k)) format m = Some (Inr (formatted fs as, m')) \<and>
    (\<forall>b. \<not> in_block tmp 20 b \<longrightarrow> m' b = m b)"
  using printf_loop_formatted [OF assms, of "\<lambda>k. arg_word (as ! k)" 0 "[]"] by (simp add: printf_def)

text \<open>The format \<open>%d%x%c\<close> with a negative number, 255 and a letter.\<close>

definition mem_dxc :: mem where
  "mem_dxc a = (if 0x2000 \<le> unat a \<and> unat a < 0x2006 then [37, 100, 37, 120, 37, 99] ! (unat a - 0x2000) else 0)"

theorem printf_correct_witness:
  "\<exists>m'. printf 0x1000 (\<lambda>k. arg_word ([Num (- 7), Num 255, Num 65] ! k)) 0x2000 mem_dxc = Some (Inr ([45, 55, 102, 102, 65], m'))"
proof -
  let ?fs = "[37, 100, 37, 120, 37, 99] :: u8 list" and ?as = "[Num (- 7), Num 255, Num 65]"
  have "string_at mem_dxc 0x1000 0x2000 ?fs"
    unfolding string_at_def
  proof (intro conjI allI impI)
    fix i assume "i \<le> length ?fs"
    then have "unat (0x2000 + of_nat i :: u32) = 0x2000 + i" by (simp add: unat_add32 unat_of_nat32)
    then show "\<not> in_block 0x1000 20 (0x2000 + of_nat i)" by (simp add: in_block_def)
  qed (simp add: mem_dxc_def)
  moreover have "itoa_text (- 7) 100 = [45, 55]" "itoa_text 255 120 = [102, 102]"
    by (simp_all add: itoa_text_def nat_digits.simps [of 10 7] nat_digits.simps [of 16 255] nat_digits.simps [of 16 15] dchar_def digit_char_def)
  then have "formatted ?fs ?as = [45, 55, 102, 102, 65]" by simp
  ultimately show ?thesis using printf_correct [of "0x1000" mem_dxc "0x2000" ?fs ?as] by (auto simp: fits_block_def)
qed

end
