(* ===== verification/Console.thy ===== *)
theory Console
  imports Printf Boot Tty
begin

text \<open>
  Messages on the console: \<open>printf\<close> on the screen of \<open>Tty\<close>, the messages of \<open>kernel/error.c\<close>, the begun
  file system interface \<open>kernel/vfs.c\<close> that uses them, and \<open>arch/i386/power.c\<close>.
\<close>

section \<open>The C functions\<close>

text \<open>
  \<open>printf\<close> hands its characters to \<open>putchar\<close>. The arguments behind the format are \<open>args\<close>, \<open>tmp\<close> is the
  address of its local buffer.
\<close>

definition console_printf :: "addr \<Rightarrow> u32 list \<Rightarrow> addr \<Rightarrow> mem \<times> tty \<Rightarrow> (mem \<times> tty) result option" where
  "console_printf tmp args format = (\<lambda>(m, t).
     obind (printf tmp (\<lambda>k. args ! k) format m) (\<lambda>(out, m).
       Some (rbind (each (\<lambda>c t. rbind (putchar c t) (\<lambda>(_, t). Inr t)) out t) (\<lambda>t. Inr (m, t)))))"

text \<open>\<open>lit s\<close> is the address of the string literal \<open>s\<close>.\<close>

definition kwarn :: "(string \<Rightarrow> addr) \<Rightarrow> addr \<Rightarrow> addr \<Rightarrow> mem \<times> tty \<Rightarrow> (mem \<times> tty) result option" where
  "kwarn lit tmp message = console_printf tmp [message] (lit (''Warning: %s'' @ [CHR 0x0A]))"

definition kerror_print :: "(string \<Rightarrow> addr) \<Rightarrow> addr \<Rightarrow> addr \<Rightarrow> mem \<times> tty \<Rightarrow> (mem \<times> tty) result option" where
  "kerror_print lit tmp message = console_printf tmp [message] (lit (''Error: %s'' @ [CHR 0x0A]))"

text \<open>\<open>kpanic\<close> does not return: the result is the state in which it turns interrupts off and halts for good.\<close>

definition kpanic :: "(string \<Rightarrow> addr) \<Rightarrow> addr \<Rightarrow> addr \<Rightarrow> mem \<times> tty \<Rightarrow> (mem \<times> tty) result option" where
  "kpanic lit tmp message = (\<lambda>(m, t).
     obind (console_printf tmp [] (lit (''Panic: the kernel encountered an unrecoverable error'' @ [CHR 0x0A])) (m, tty_setcolor VGA_RED VGA_BLACK t)) (\<lambda>s.
     obind (console_printf tmp [message] (lit (''Panic: >> %s'' @ [CHR 0x0A])) s) (\<lambda>s.
     console_printf tmp [] (lit ''Panic: system will now halt...'') s)))"

definition mount :: "(string \<Rightarrow> addr) \<Rightarrow> addr \<Rightarrow> addr \<Rightarrow> addr \<Rightarrow> mem \<times> tty \<Rightarrow> (mem \<times> tty) result option" where
  "mount lit tmp volume filesystem = (\<lambda>(m, t).
     case strcmp filesystem (lit ''ext2'') m of
       None \<Rightarrow> None
     | Some r \<Rightarrow>
         if r = 0 then Some (Inr (m, t))
         else case strcmp filesystem (lit ''fat32'') m of
             None \<Rightarrow> None
           | Some r \<Rightarrow>
               if r = 0 then Some (Inr (m, t))
               else kwarn lit tmp (lit ''Specified filesystem not supported'') (m, t))"

definition read_file :: "addr \<Rightarrow> mem \<times> tty \<Rightarrow> mem \<times> tty" where
  "read_file filename s = s"

text \<open>\<open>reboot\<close> ends in a halt; the result is the history at that point.\<close>

partial_function (option) reboot_wait :: "device \<Rightarrow> u8 \<Rightarrow> history \<Rightarrow> history option" where
  "reboot_wait dev good h =
     (if good AND 0x02 \<noteq> 0 then let (good, h) = inb dev 0x64 h in reboot_wait dev good h else Some h)"

definition reboot :: "device \<Rightarrow> history \<Rightarrow> history option" where
  "reboot dev h = map_option (outb 0x64 0xFE) (reboot_wait dev 0x02 h)"

definition shutdown :: "history \<Rightarrow> history" where
  "shutdown h = h"

section \<open>Formats\<close>

text \<open>The text of a format whose only conversions are \<open>%s\<close>, with the strings \<open>bss\<close> for them.\<close>

fun render :: "u8 list \<Rightarrow> u8 list list \<Rightarrow> u8 list" where
  "render [] bss = []"
| "render (c # fs) bss = (if c = 37 \<and> fs \<noteq> [] then hd bss @ render (tl fs) (tl bss) else c # render fs bss)"

fun only_s :: "u8 list \<Rightarrow> nat \<Rightarrow> bool" where
  "only_s [] n \<longleftrightarrow> True"
| "only_s (c # fs) n \<longleftrightarrow> (if c = 37 then fs \<noteq> [] \<and> hd fs = 115 \<and> 0 < n \<and> only_s (tl fs) (n - 1) else only_s fs n)"

lemma printf_loop_render:
  "cstr m f fs \<Longrightarrow> only_s fs (length bss) \<Longrightarrow> (\<And>i. i < length bss \<Longrightarrow> arg (k + i) \<noteq> 0 \<and> cstr m (arg (k + i)) (bss ! i)) \<Longrightarrow>
   printf_loop tmp arg f k m out = Some (Inr (out @ map scast (render fs bss), m))"
proof (induction fs bss arbitrary: f k out rule: render.induct)
  case (1 bss)
  then show ?case by (subst printf_loop.simps) simp
next
  case (2 c fs bss)
  show ?case
  proof (cases "c = 37")
    case False
    then show ?thesis using 2(2) [of "f + 1" k "out @ [scast c]"] 2(3-5) by (subst printf_loop.simps) simp
  next
    case True
    then obtain fs' where fs: "fs = 115 # fs'" using 2(4) by (cases fs) auto
    obtain b bss' where b: "bss = b # bss'" using 2(4) True by (cases bss) auto
    have a: "arg k \<noteq> 0" "cstr m (arg k) b" using 2(5) [of 0] b by auto
    have "arg (Suc k + i) \<noteq> 0 \<and> cstr m (arg (Suc k + i)) (bss' ! i)" if "i < length bss'" for i
      using 2(5) [of "Suc i"] that b by simp
    then have "printf_loop tmp arg (f + 1 + 1) (Suc k) m (out @ map scast b) =
        Some (Inr ((out @ map scast b) @ map scast (render fs' bss'), m))"
      using 2(1) [of "f + 1 + 1" "Suc k" "out @ map scast b"] 2(3,4) True fs b by simp
    then show ?thesis using 2(3) True fs b a put_string_cstr [OF a(2), of out] by (subst printf_loop.simps) simp
  qed
qed

lemma ucast_scast: "(ucast (scast (c :: u8) :: u32) :: u8) = c"
  by (rule bit_word_eqI) (simp add: bit_simps)

lemma each_putchar:
  "shows_roll t p \<Longrightarrow> \<exists>t'. each (\<lambda>c t. rbind (putchar c t) (\<lambda>(_, t). Inr t)) (map scast bs) t = Inr t' \<and> tty_color t' = tty_color t \<and>
     shows_roll t' (fold (roll_put (tty_color t)) bs p)"
proof (induction bs arbitrary: t p)
  case (Cons b bs)
  obtain t1 where t1: "tty_putchar_t b t = Inr t1" "tty_color t1 = tty_color t" "shows_roll t1 (roll_put (tty_color t) b p)"
    using putchar_refines [of t "fst p" "snd p" b] Cons.prems by auto
  let ?t = "tty_updatecursor t1"
  have c: "tty_color ?t = tty_color t" using t1(2) by (simp add: tty_updatecursor_def Let_def)
  have "rbind (putchar (scast b) t) (\<lambda>(_, t). Inr t) = Inr ?t" using t1(1) by (simp add: putchar_def tty_putchar_def ucast_scast)
  moreover have "shows_roll ?t (roll_put (tty_color t) b p)" using t1(3) by (simp add: shows_roll_cursor)
  ultimately show ?case using Cons.IH [of ?t] c by auto
qed simp

text \<open>Printing a format with \<open>%s\<close> conversions continues the roll by its text and changes no memory.\<close>

lemma console_printf_text:
  assumes "cstr m format fs" "only_s fs (length bss)" "length args = length bss"
    "\<And>i. i < length bss \<Longrightarrow> args ! i \<noteq> 0 \<and> cstr m (args ! i) (bss ! i)" "shows_roll t p"
  shows "\<exists>t'. console_printf tmp args format (m, t) = Some (Inr (m, t')) \<and> tty_color t' = tty_color t \<and>
    shows_roll t' (fold (roll_put (tty_color t)) (render fs bss) p)"
proof -
  have "printf tmp (\<lambda>k. args ! k) format m = Some (Inr (map scast (render fs bss), m))"
    unfolding printf_def using printf_loop_render [OF assms(1,2), of "\<lambda>k. args ! k" 0] assms(4) by simp
  then show ?thesis using each_putchar [OF assms(5), of "render fs bss"] by (auto simp: console_printf_def)
qed

section \<open>Theorems\<close>

lemma ascii_append [simp]: "ascii (s @ t) = ascii s @ ascii t"
  by (simp add: ascii_def)

lemma render_plain: "37 \<notin> set fs \<Longrightarrow> render fs bss = fs" "37 \<notin> set fs \<Longrightarrow> only_s fs n"
  by (induction fs) auto

lemma render_string:
  "37 \<notin> set as \<Longrightarrow> 37 \<notin> set cs \<Longrightarrow> render (as @ 37 # 115 # cs) [bs] = as @ bs @ cs"
  "37 \<notin> set as \<Longrightarrow> 37 \<notin> set cs \<Longrightarrow> only_s (as @ 37 # 115 # cs) 1"
  by (induction as) (auto simp: render_plain)

text \<open>
  A panic leaves its three lines on the screen, with the message in the second, in black on red, and
  nothing else is printed or written.
\<close>

theorem kpanic_shows:
  assumes "\<And>s. s \<in> {''Panic: the kernel encountered an unrecoverable error'' @ [CHR 0x0A], ''Panic: >> %s'' @ [CHR 0x0A], ''Panic: system will now halt...''}
      \<Longrightarrow> cstr m (lit s) (ascii s)" "cstr m message bs" "message \<noteq> 0" "shows_roll t p"
  shows "\<exists>t'. kpanic lit tmp message (m, t) = Some (Inr (m, t')) \<and> shows_roll t' (fold (roll_put 0x40)
    (ascii (''Panic: the kernel encountered an unrecoverable error'' @ [CHR 0x0A]) @ ascii ''Panic: >> '' @ bs @ [0x0A] @ ascii ''Panic: system will now halt...'') p)"
proof -
  let ?l1 = "''Panic: the kernel encountered an unrecoverable error'' @ [CHR 0x0A]" and ?l2 = "''Panic: >> %s'' @ [CHR 0x0A]"
    and ?l3 = "''Panic: system will now halt...''"
  let ?t = "tty_setcolor VGA_RED VGA_BLACK t"
  have l: "cstr m (lit ?l1) (ascii ?l1)" "cstr m (lit ?l2) (ascii ?l2)" "cstr m (lit ?l3) (ascii ?l3)" using assms(1) by blast+
  have n: "37 \<notin> set (ascii ?l1)" "37 \<notin> set (ascii ?l3)" by (simp_all add: ascii_def)
  have l2: "ascii ?l2 = ascii ''Panic: >> '' @ 37 # 115 # [0x0A]" by (simp add: ascii_def)
  have "37 \<notin> set (ascii ''Panic: >> '')" "(37 :: u8) \<notin> set [0x0A]" by (simp_all add: ascii_def)
  note l2s = render_string(1) [OF this, of bs, folded l2] render_string(2) [OF this, folded l2]
  have c: "tty_color ?t = 0x40" by (simp add: tty_setcolor_def VGA_RED_def VGA_BLACK_def)
  have s0: "shows_roll ?t p" using assms(4) by (simp add: shows_roll_def tty_setcolor_def window_def cursor_at_def)
  obtain t1 where t1: "console_printf tmp [] (lit ?l1) (m, ?t) = Some (Inr (m, t1))" "tty_color t1 = 0x40"
    "shows_roll t1 (fold (roll_put 0x40) (ascii ?l1) p)"
    using console_printf_text [OF l(1) _ _ _ s0, of "[]" "[]" tmp] render_plain(1) [OF n(1), of "[]"] render_plain(2) [OF n(1), of 0] c by auto
  obtain t2 where t2: "console_printf tmp [message] (lit ?l2) (m, t1) = Some (Inr (m, t2))" "tty_color t2 = 0x40"
    "shows_roll t2 (fold (roll_put 0x40) (ascii ''Panic: >> '' @ bs @ [0x0A]) (fold (roll_put 0x40) (ascii ?l1) p))"
    using console_printf_text [OF l(2) _ _ _ t1(3), of "[bs]" "[message]" tmp] l2s assms(2,3) t1(2) by auto
  obtain t3 where t3: "console_printf tmp [] (lit ?l3) (m, t2) = Some (Inr (m, t3))"
    "shows_roll t3 (fold (roll_put 0x40) (ascii ?l3) (fold (roll_put 0x40) (ascii ''Panic: >> '' @ bs @ [0x0A]) (fold (roll_put 0x40) (ascii ?l1) p)))"
    using console_printf_text [OF l(3) _ _ _ t2(3), of "[]" "[]" tmp] render_plain(1) [OF n(2), of "[]"] render_plain(2) [OF n(2), of 0] t2(2) by auto
  show ?thesis using t1(1) t2(1) t3 by (auto simp: kpanic_def)
qed

text \<open>\<open>reboot\<close> pulses the reset line as soon as the keyboard controller takes a byte.\<close>

lemma reboot_resets:
  assumes "clears dev 0x64 0x02"
  shows "\<exists>h'. reboot dev h = Some (Out8 0x64 0xFE # h')"
proof -
  have "fst (inb dev 0x64 (polled dev 0x64 n h)) AND 2 = 0 \<Longrightarrow> good AND 2 \<noteq> 0 \<Longrightarrow> \<exists>h'. reboot_wait dev good h = Some h'" for n good h
  proof (induction n arbitrary: h good)
    case 0
    obtain v h1 where v: "inb dev 0x64 h = (v, h1)" by fastforce
    then have "reboot_wait dev v h1 = Some h1" using 0 by (subst reboot_wait.simps) simp
    then show ?case using 0 v by (subst reboot_wait.simps) simp
  next
    case (Suc n)
    obtain v h1 where v: "inb dev 0x64 h = (v, h1)" by fastforce
    then have p: "fst (inb dev 0x64 (polled dev 0x64 n h1)) AND 2 = 0" using Suc.prems(1) by simp
    have "\<exists>h'. reboot_wait dev v h1 = Some h'"
    proof (cases "v AND 2 = 0")
      case True
      then show ?thesis by (subst reboot_wait.simps) simp
    qed (rule Suc.IH [OF p])
    then show ?case using Suc.prems(2) v by (subst reboot_wait.simps) simp
  qed
  moreover obtain n where "fst (inb dev 0x64 (polled dev 0x64 n h)) AND 2 = 0" using assms unfolding clears_def by blast
  ultimately obtain h' where "reboot_wait dev 0x02 h = Some h'" by fastforce
  then show ?thesis by (simp add: reboot_def outb_def)
qed

text \<open>\<open>mount\<close> never mounts anything: it warns about every file system but the two it knows, for which it does nothing.\<close>

lemma mount_outcome:
  assumes "\<And>s. s \<in> {''ext2'', ''fat32'', ''Specified filesystem not supported'', ''Warning: %s'' @ [CHR 0x0A]} \<Longrightarrow> cstr m (lit s) (ascii s)"
    "lit ''Specified filesystem not supported'' \<noteq> 0" "cstr m filesystem fs" "shows_roll t p"
  shows "\<exists>t'. mount lit tmp volume filesystem (m, t) = Some (Inr (m, t')) \<and>
    (if fs \<in> {ascii ''ext2'', ascii ''fat32''} then t' = t
     else shows_roll t' (fold (roll_put (tty_color t)) (ascii ''Warning: Specified filesystem not supported'' @ [0x0A]) p))"
proof -
  let ?w = "''Warning: %s'' @ [CHR 0x0A]" and ?u = "''Specified filesystem not supported''"
  have l: "cstr m (lit ''ext2'') (ascii ''ext2'')" "cstr m (lit ''fat32'') (ascii ''fat32'')" "cstr m (lit ?w) (ascii ?w)" "cstr m (lit ?u) (ascii ?u)"
    using assms(1) by blast+
  note e = strcmp_zero_iff_equal [OF assms(3) l(1), where n = 0] and f = strcmp_zero_iff_equal [OF assms(3) l(2), where n = 0]
  have w: "ascii ?w = ascii ''Warning: '' @ 37 # 115 # [0x0A]" by (simp add: ascii_def)
  have "37 \<notin> set (ascii ''Warning: '')" "(37 :: u8) \<notin> set [0x0A]" by (simp_all add: ascii_def)
  note ws = render_string(1) [OF this, of "ascii ?u", folded w] render_string(2) [OF this, folded w]
  obtain t' where t': "kwarn lit tmp (lit ?u) (m, t) = Some (Inr (m, t'))"
    "shows_roll t' (fold (roll_put (tty_color t)) (ascii ''Warning: '' @ ascii ?u @ [0x0A]) p)"
    using console_printf_text [OF l(3) _ _ _ assms(4), of "[ascii ?u]" "[lit ?u]" tmp] ws l(4) assms(2) unfolding kwarn_def by auto
  moreover have "ascii ''Warning: '' @ ascii ?u = ascii ''Warning: Specified filesystem not supported''" by (simp add: ascii_def)
  ultimately show ?thesis using e f unfolding mount_def by (auto simp flip: append_assoc)
qed

end
