(* ===== verification/Shell.thy ===== *)
theory Shell
  imports Console Kalloc_Spec Sched_Spec
begin

text \<open>
  The kernel's shell, \<open>kernel/dsh.c\<close>: reading a line from the keyboard with echo, looking the command up,
  and the two test commands.
\<close>

section \<open>The C functions\<close>

text \<open>What a line makes the shell call; \<open>Nothing\<close> is the empty line.\<close>

datatype command =
  Help | Clear | Reboot | Pci_info | Mem_info | Heap_info | Int_info | Disk_info | Sched_info | Beep
  | Rtl_start | Rtl_stop | Ata_start | Ata_stop | Arp_info | Arp_flush | Task_test | Heap_test | Nothing | Invalid

text \<open>The chain of comparisons, in its order.\<close>

definition commands :: "(string \<times> command) list" where
  "commands =
     [(''help'', Help), (''?'', Help), (''clear'', Clear), (''reboot'', Reboot), (''pci'', Pci_info), (''mem'', Mem_info),
      (''heap'', Heap_info), (''int'', Int_info), (''disk'', Disk_info), (''sched'', Sched_info), (''beep'', Beep),
      (''rtl start'', Rtl_start), (''rtl stop'', Rtl_stop), (''ata start'', Ata_start), (''ata stop'', Ata_stop),
      (''arp'', Arp_info), (''arp flush'', Arp_flush), (''tasktest'', Task_test), (''heaptest'', Heap_test), ('''', Nothing)]"

primrec select :: "addr \<Rightarrow> (string \<Rightarrow> addr) \<Rightarrow> mem \<Rightarrow> (string \<times> command) list \<Rightarrow> command option" where
  "select b lit m [] = Some Invalid"
| "select b lit m (sc # rest) =
     (case strcmp b (lit (fst sc)) m of
        None \<Rightarrow> None
      | Some r \<Rightarrow> if r = 0 then Some (snd sc) else select b lit m rest)"

text \<open>
  The reading loop ends with a line in the buffer, or the shortcut \<open>*\<close> calls \<open>reboot\<close>, which does not
  return. Both results carry how many characters were taken so far.
\<close>

datatype line = Line nat mem tty | Restart nat mem tty

text \<open>
  The loop \<open>while(i<255)\<close>; the first argument is the number of rounds left, \<open>255-i\<close>, and \<open>b\<close> is the address
  of the buffer. \<open>input n\<close> is the keyboard as the \<open>n\<close>-th call of \<open>getchar\<close> polls it.
\<close>

fun read_line :: "nat \<Rightarrow> (nat \<Rightarrow> nat \<Rightarrow> kbd) \<Rightarrow> addr \<Rightarrow> nat \<Rightarrow> nat \<Rightarrow> mem \<Rightarrow> tty \<Rightarrow> line result option" where
  "read_line 0 input b i n m t = Some (Inr (Line n (m(b + of_nat i := 0)) t))"
| "read_line (Suc r) input b i n m t =
     obind (getchar (input n)) (\<lambda>(ch, _).
     obind (Some (putchar ch t)) (\<lambda>(ch, t).
       let c = (ucast ch :: u8) in
       if c = 0x0A then Some (Inr (Line (Suc n) (m(b + of_nat i := 0)) t))
       else if c = 0x2A then Some (Inr (Restart (Suc n) m t))
       else read_line r input b (Suc i) (Suc n) (m(b + of_nat i := c)) t))"

definition help1 :: string where
  "help1 = ''clear | reboot | pci | mem | heap | int | disk | sched | beep'' @ [CHR 0x0A]"

definition help2 :: string where
  "help2 = ''rtl <start|stop> | ata <start|stop> | arp <flush>'' @ [CHR 0x0A]"

definition invalid :: string where
  "invalid = ''invalid command '' @ [CHR 0x22] @ ''%s'' @ [CHR 0x22] @ [CHR 0x0A]"

text \<open>
  The choice of the command, and what the shell does itself for it. The other commands are calls into
  components of their own, which the result names.
\<close>

definition dsh_execute :: "(string \<Rightarrow> addr) \<Rightarrow> addr \<Rightarrow> addr \<Rightarrow> mem \<Rightarrow> tty \<Rightarrow> (command \<times> mem \<times> tty) result option" where
  "dsh_execute lit tmp b m t =
     (case select b lit m commands of
        None \<Rightarrow> None
      | Some Help \<Rightarrow>
          obind (console_printf tmp [] (lit help1) (m, t)) (\<lambda>s.
          obind (console_printf tmp [] (lit help2) s) (\<lambda>(m, t). Some (Inr (Help, m, t))))
      | Some Clear \<Rightarrow> Some (rbind (tty_clear t) (\<lambda>t. Inr (Clear, m, t)))
      | Some Invalid \<Rightarrow> obind (console_printf tmp [b] (lit invalid) (m, t)) (\<lambda>(m, t). Some (Inr (Invalid, m, t)))
      | Some c \<Rightarrow> Some (Inr (c, m, t)))"

text \<open>One round of the shell's loop: the prompt, a line, the command.\<close>

definition dsh_round :: "(nat \<Rightarrow> nat \<Rightarrow> kbd) \<Rightarrow> (string \<Rightarrow> addr) \<Rightarrow> addr \<Rightarrow> addr \<Rightarrow> nat \<Rightarrow> mem \<Rightarrow> tty
    \<Rightarrow> (command \<times> nat \<times> mem \<times> tty) result option" where
  "dsh_round input lit tmp b n m t =
     obind (console_printf tmp [] (lit ''>'') (m, t)) (\<lambda>(m, t).
     obind (read_line 255 input b 0 n m t) (\<lambda>l. case l of
       Restart n m t \<Rightarrow> Some (Inr (Reboot, n, m, t))
     | Line n m t \<Rightarrow> obind (dsh_execute lit tmp b m t) (\<lambda>(c, m, t). Some (Inr (c, n, m, t)))))"

text \<open>
  Before its loop the shell prints the banner, with the date and the time of the build at \<open>date\<close> and \<open>time\<close>,
  and allocates its buffer. The result is not looked at.
\<close>

definition banner :: string where
  "banner = ''DeimOS (c)2015 Built on %s at %s'' @ [CHR 0x0A]"

definition dsh_start :: "(string \<Rightarrow> addr) \<Rightarrow> addr \<Rightarrow> addr \<Rightarrow> addr \<Rightarrow> heap \<Rightarrow> mem \<Rightarrow> tty \<Rightarrow> (addr \<times> heap \<times> mem \<times> tty) result option" where
  "dsh_start lit tmp date time h m t =
     obind (console_printf tmp [date, time] (lit banner) (m, t)) (\<lambda>(m, t).
     obind (kmalloc h 256) (\<lambda>(b, h). Some (Inr (b, h, m, t))))"

text \<open>\<open>task_test_loop\<close> does nothing: the number of \<open>nop\<close>s its two loops execute, added to \<open>n\<close>.\<close>

definition task_test_loop :: "nat \<Rightarrow> nat" where
  "task_test_loop n = fold (\<lambda>i n. fold (\<lambda>j n. Suc n) [0..<20000] n) [0..<20000] n"

text \<open>
  \<open>heap_test\<close>: up to a thousand aligned requests, and on the first null result all blocks so far are
  freed again. \<open>ret\<close> are the results so far; the result tells whether all requests succeeded.
\<close>

primrec free_all :: "addr list \<Rightarrow> heap \<Rightarrow> heap result" where
  "free_all [] h = Inr h"
| "free_all (p # ps) h = rbind (kfree h p) (free_all ps)"

primrec heap_test_loop :: "nat \<Rightarrow> addr list \<Rightarrow> heap \<Rightarrow> (bool \<times> addr list \<times> heap) result option" where
  "heap_test_loop 0 ret h = Some (Inr (True, ret, h))"
| "heap_test_loop (Suc n) ret h =
     obind (kmalloc_a h 8192) (\<lambda>(p, h).
       if p = 0 then Some (rbind (free_all ret h) (\<lambda>h. Inr (False, ret, h)))
       else heap_test_loop n (ret @ [p]) h)"

definition heap_test :: "heap \<Rightarrow> (bool \<times> addr list \<times> heap) result option" where
  "heap_test h = heap_test_loop 1000 [] h"

text \<open>\<open>task_test\<close> ignores the process ids it gets; \<open>fn\<close> is the address of \<open>task_test_loop\<close>.\<close>

definition task_test :: "u32 \<Rightarrow> sched \<Rightarrow> sched result option" where
  "task_test fn s = each_opt (\<lambda>i s. obind (create_kernel_task fn s) (\<lambda>(_, s). Some (Inr s))) [0..<100] s"

section \<open>Reading a line\<close>

text \<open>\<open>types input n cs\<close>: from the \<open>n\<close>-th call on, \<open>getchar\<close> returns the characters \<open>cs\<close>.\<close>

definition types :: "(nat \<Rightarrow> nat \<Rightarrow> kbd) \<Rightarrow> nat \<Rightarrow> u8 list \<Rightarrow> bool" where
  "types input n cs \<longleftrightarrow> (\<forall>i < length cs. \<exists>k. getchar (input (n + i)) = Some (Inr (scast (cs ! i), k)))"

lemma types_Cons: "types input n (c # cs) \<longleftrightarrow> (\<exists>k. getchar (input n) = Some (Inr (scast c, k))) \<and> types input (Suc n) cs"
proof
  assume t: "types input n (c # cs)"
  have "\<exists>k. getchar (input (Suc n + i)) = Some (Inr (scast (cs ! i), k))" if "i < length cs" for i
    using t [unfolded types_def, rule_format, of "Suc i"] that by simp
  then show "(\<exists>k. getchar (input n) = Some (Inr (scast c, k))) \<and> types input (Suc n) cs"
    using t [unfolded types_def, rule_format, of 0] by (simp add: types_def)
next
  assume t: "(\<exists>k. getchar (input n) = Some (Inr (scast c, k))) \<and> types input (Suc n) cs"
  show "types input n (c # cs)"
    unfolding types_def
  proof (intro allI impI)
    fix i assume "i < length (c # cs)"
    then show "\<exists>k. getchar (input (n + i)) = Some (Inr (scast ((c # cs) ! i), k))"
      using t by (cases i) (auto simp: types_def)
  qed
qed

lemma putchar_echo:
  assumes "shows_roll t p"
  shows "\<exists>t'. putchar (scast c) t = Inr (scast c, t') \<and> tty_color t' = tty_color t \<and> shows_roll t' (roll_put (tty_color t) c p)"
proof -
  obtain t1 where "tty_putchar_t c t = Inr t1" "tty_color t1 = tty_color t" "shows_roll t1 (roll_put (tty_color t) c p)"
    using putchar_refines [of t "fst p" "snd p" c] assms by auto
  moreover have "tty_color (tty_updatecursor t1) = tty_color t1" by (simp add: tty_updatecursor_def Let_def)
  ultimately show ?thesis by (auto simp: putchar_def tty_putchar_def ucast_scast shows_roll_cursor)
qed

lemma read_line_chars:
  "types input n cs \<Longrightarrow> 0x0A \<notin> set cs \<Longrightarrow> 0x2A \<notin> set cs \<Longrightarrow> shows_roll t p \<Longrightarrow>
   \<exists>t'. read_line (length cs + r) input b i n m t = read_line r input b (i + length cs) (n + length cs) (store_bytes (b + of_nat i) cs m) t' \<and>
     tty_color t' = tty_color t \<and> shows_roll t' (fold (roll_put (tty_color t)) cs p)"
proof (induction cs arbitrary: i n m t p)
  case (Cons c cs)
  obtain t1 where t1: "putchar (scast c) t = Inr (scast c, t1)" "tty_color t1 = tty_color t" "shows_roll t1 (roll_put (tty_color t) c p)"
    using putchar_echo [OF Cons.prems(4)] by blast
  obtain k where k: "getchar (input n) = Some (Inr (scast c, k))" "types input (Suc n) cs" using Cons.prems(1) types_Cons by blast
  have "read_line (length (c # cs) + r) input b i n m t = read_line (length cs + r) input b (Suc i) (Suc n) (m(b + of_nat i := c)) t1"
    using k(1) t1(1) Cons.prems(2,3) by (simp add: ucast_scast)
  moreover have cs: "0x0A \<notin> set cs" "0x2A \<notin> set cs" using Cons.prems(2,3) by simp_all
  moreover obtain t2 where "read_line (length cs + r) input b (Suc i) (Suc n) (m(b + of_nat i := c)) t1 =
      read_line r input b (Suc i + length cs) (Suc n + length cs) (store_bytes (b + of_nat (Suc i)) cs (m(b + of_nat i := c))) t2"
    "tty_color t2 = tty_color t1" "shows_roll t2 (fold (roll_put (tty_color t1)) cs (roll_put (tty_color t) c p))"
    using Cons.IH [OF k(2) cs t1(3), of "Suc i" "m(b + of_nat i := c)"] by blast
  moreover have "b + of_nat (Suc i) = b + of_nat i + 1" by simp
  ultimately show ?case using t1(2) by (intro exI [of _ t2]) (simp del: read_line.simps of_nat_Suc fun_upd_apply)
qed auto

text \<open>A line of less than 255 characters, ended by a newline.\<close>

lemma read_line_short:
  assumes "types input n (w @ [0x0A])" "0x0A \<notin> set w" "0x2A \<notin> set w" "length w < 255" "shows_roll t p"
  shows "\<exists>t'. read_line 255 input b 0 n m t = Some (Inr (Line (n + length w + 1) ((store_bytes b w m)(b + of_nat (length w) := 0)) t')) \<and>
    tty_color t' = tty_color t \<and> shows_roll t' (fold (roll_put (tty_color t)) (w @ [0x0A]) p)"
proof -
  have ty: "types input n w" "\<exists>k. getchar (input (n + length w)) = Some (Inr (scast (0x0A :: u8), k))"
    using assms(1) [unfolded types_def, rule_format, of "length w"] assms(1) by (auto simp: types_def nth_append split: if_splits)
  obtain r where r: "255 = length w + Suc r" using assms(4) by (metis add_Suc_right less_imp_Suc_add)
  obtain t1 where t1: "read_line (length w + Suc r) input b 0 n m t = read_line (Suc r) input b (0 + length w) (n + length w) (store_bytes (b + of_nat 0) w m) t1"
    "tty_color t1 = tty_color t" "shows_roll t1 (fold (roll_put (tty_color t)) w p)"
    using read_line_chars [OF ty(1) assms(2,3,5)] by blast
  obtain t2 where t2: "putchar (scast (0x0A :: u8)) t1 = Inr (scast (0x0A :: u8), t2)" "tty_color t2 = tty_color t1"
    "shows_roll t2 (roll_put (tty_color t1) 0x0A (fold (roll_put (tty_color t)) w p))"
    using putchar_echo [OF t1(3)] by blast
  have "read_line (Suc r) input b (0 + length w) (n + length w) (store_bytes b w m) t1 =
      Some (Inr (Line (n + length w + 1) ((store_bytes b w m)(b + of_nat (length w) := 0)) t2))"
    using ty(2) t2(1) ucast_scast [of "0x0A"] by auto
  then have "read_line 255 input b 0 n m t = Some (Inr (Line (n + length w + 1) ((store_bytes b w m)(b + of_nat (length w) := 0)) t2))"
    unfolding r using t1(1) by simp
  then show ?thesis using t1(2) t2(2,3) by auto
qed

section \<open>Lines of any length\<close>

text \<open>Somebody types for ever, anything.\<close>

definition keeps_typing :: "(nat \<Rightarrow> nat \<Rightarrow> kbd) \<Rightarrow> bool" where
  "keeps_typing input \<longleftrightarrow> (\<forall>n. \<exists>c k. getchar (input n) = Some (Inr (scast (c :: u8), k)))"

text \<open>What the reading loop may do to memory, in at most \<open>r\<close> calls of \<open>getchar\<close>.\<close>

definition line_stays :: "addr \<Rightarrow> nat \<Rightarrow> nat \<Rightarrow> mem \<Rightarrow> line \<Rightarrow> bool" where
  "line_stays b n r m l \<longleftrightarrow>
     (case l of
        Line n' m' t' \<Rightarrow> n' \<le> n + r \<and> (\<forall>a. \<not> in_block b 256 a \<longrightarrow> m' a = m a) \<and> (\<exists>j \<le> 255. m' (b + of_nat j) = 0)
      | Restart n' m' t' \<Rightarrow> n' \<le> n + r \<and> (\<forall>a. \<not> in_block b 256 a \<longrightarrow> m' a = m a))"

lemma line_stays_step:
  "line_stays b (Suc n) r (m(b + of_nat i := c)) l \<Longrightarrow> fits_block b 256 \<Longrightarrow> i < 256 \<Longrightarrow> line_stays b n (Suc r) m l"
  using block_addr [of b 256 i] by (auto simp: line_stays_def in_block_def split: line.splits)

lemma line_stays_end:
  assumes "fits_block b 256" "i \<le> 255" "n' \<le> n + r"
  shows "line_stays b n r m (Line n' (m(b + of_nat i := 0)) t)"
proof -
  have "in_block b 256 (b + of_nat i)" using block_addr [OF assms(1), of i] assms(2) by (simp add: in_block_def)
  then have "(m(b + of_nat i := 0)) a = m a" if "\<not> in_block b 256 a" for a using that by auto
  moreover have "(m(b + of_nat i := 0)) (b + of_nat i) = 0" by simp
  ultimately show ?thesis using assms(2,3) unfolding line_stays_def line.case by blast
qed

lemma read_line_stays_loop:
  "keeps_typing input \<Longrightarrow> fits_block b 256 \<Longrightarrow> i + r = 255 \<Longrightarrow> shows_roll t p \<Longrightarrow>
   \<exists>l. read_line r input b i n m t = Some (Inr l) \<and> line_stays b n r m l"
proof (induction r arbitrary: i n m t p)
  case 0
  then show ?case using line_stays_end [of b i n n 0] by simp
next
  case (Suc r)
  obtain c k where k: "getchar (input n) = Some (Inr (scast (c :: u8), k))" using Suc.prems(1) unfolding keeps_typing_def by blast
  obtain t1 where t1: "putchar (scast c) t = Inr (scast c, t1)" "shows_roll t1 (roll_put (tty_color t) c p)"
    using putchar_echo [OF Suc.prems(4)] by blast
  have i: "i < 256" "Suc i + r = 255" using Suc.prems(3) by simp_all
  show ?case
  proof (cases "c = 0x0A \<or> c = 0x2A")
    case True
    have "line_stays b n (Suc r) m (Line (Suc n) (m(b + of_nat i := 0)) t1)"
      using line_stays_end [OF Suc.prems(2)] i by simp
    moreover have "line_stays b n (Suc r) m (Restart (Suc n) m t1)" by (simp add: line_stays_def)
    ultimately
    show ?thesis using True k t1(1) by (auto simp: ucast_scast simp del: fun_upd_apply)
  next
    case False
    obtain l where "read_line r input b (Suc i) (Suc n) (m(b + of_nat i := c)) t1 = Some (Inr l)"
      "line_stays b (Suc n) r (m(b + of_nat i := c)) l"
      using Suc.IH [OF Suc.prems(1,2) i(2) t1(2)] by blast
    then show ?thesis using False k t1(1) line_stays_step [OF _ Suc.prems(2) i(1)] by (auto simp: ucast_scast simp del: fun_upd_apply)
  qed
qed

lemma cstr_at_null: "m (b + of_nat j) = 0 \<Longrightarrow> \<exists>w. length w \<le> j \<and> cstr m b w"
proof -
  assume a: "m (b + of_nat j) = 0"
  let ?k = "LEAST i. m (b + of_nat i) = 0"
  have k: "m (b + of_nat ?k) = 0" "?k \<le> j" using a by (auto intro: LeastI Least_le)
  have "m (b + of_nat i) \<noteq> 0" if "i < ?k" for i using not_less_Least [OF that] .
  then have "0 \<notin> set (bytes m b ?k)" unfolding bytes_def by force
  from cstr_bytes [OF refl this k(1)] k(2) show ?thesis by (intro exI [of _ "bytes m b ?k"]) simp
qed

section \<open>The command\<close>

text \<open>The commands as a table, and what the shell itself prints for one.\<close>

definition lookup :: "u8 list \<Rightarrow> command" where
  "lookup w = (case map_of (map (\<lambda>(s, c). (ascii s, c)) commands) w of Some c \<Rightarrow> c | None \<Rightarrow> Invalid)"

definition reply :: "command \<Rightarrow> u8 list \<Rightarrow> u8 list" where
  "reply c w = (if c = Help then ascii help1 @ ascii help2
     else if c = Invalid then ascii (''invalid command '' @ [CHR 0x22]) @ w @ [0x22, 0x0A] else [])"

text \<open>The literals are in memory, outside the line buffer at \<open>b\<close>.\<close>

definition literals :: "string set" where
  "literals = fst ` set commands \<union> {''>'', help1, help2, invalid}"

definition literals_at :: "mem \<Rightarrow> (string \<Rightarrow> addr) \<Rightarrow> addr \<Rightarrow> bool" where
  "literals_at m lit b \<longleftrightarrow> (\<forall>s \<in> literals. cstr m (lit s) (ascii s) \<and> (\<forall>i \<le> length s. \<not> in_block b 256 (lit s + of_nat i)))"

lemma literals_at_keep:
  assumes "literals_at m lit b" "\<And>a. \<not> in_block b 256 a \<Longrightarrow> m' a = m a"
  shows "literals_at m' lit b"
  unfolding literals_at_def
proof (intro ballI conjI)
  fix s assume s: "s \<in> literals"
  then show "\<forall>i \<le> length s. \<not> in_block b 256 (lit s + of_nat i)" using assms(1) by (simp add: literals_at_def)
  then have "m' (lit s + of_nat i) = m (lit s + of_nat i)" if "i \<le> length (ascii s)" for i
    using assms(2) that by (simp add: ascii_def)
  then show "cstr m' (lit s) (ascii s)" using s assms(1) cstr_keep [of m "lit s" "ascii s" m'] by (simp add: literals_at_def)
qed

lemma select_lookup:
  assumes "\<And>s c. (s, c) \<in> set tab \<Longrightarrow> cstr m (lit s) (ascii s)" "cstr m b w"
  shows "select b lit m tab = Some (case map_of (map (\<lambda>(s, c). (ascii s, c)) tab) w of Some c \<Rightarrow> c | None \<Rightarrow> Invalid)"
  using assms(1)
proof (induction tab)
  case (Cons sc tab)
  obtain s c where sc: "sc = (s, c)" by (cases sc)
  then have "cstr m (lit s) (ascii s)" using Cons.prems [of s c] by simp
  from strcmp_zero_iff_equal [OF assms(2) this, where n = 0] obtain r where "strcmp b (lit s) m = Some r" "r = 0 \<longleftrightarrow> w = ascii s" by blast
  then show ?case using Cons sc by auto
qed simp

text \<open>The line as it stands in the buffer.\<close>

lemma line_in_buffer:
  fixes m :: mem
  assumes "fits_block b 256" "length w < 255" "0 \<notin> set w"
  defines "m' \<equiv> (store_bytes b w m)(b + of_nat (length w) := 0)"
  shows "cstr m' b w" "\<And>a. \<not> in_block b 256 a \<Longrightarrow> m' a = m a"
proof -
  have u: "unat (b + of_nat i) = unat b + i" if "i < 256" for i using block_addr [OF assms(1) that] .
  have "bytes m' b (length w) = bytes (store_bytes b w m) b (length w)"
  proof (rule bytes_cong)
    fix i assume "i < length w"
    then have "b + of_nat i \<noteq> b + of_nat (length w)" unfolding eq32_iff using u [of i] u [of "length w"] assms(2) by simp
    then show "m' (b + of_nat i) = store_bytes b w m (b + of_nat i)" by (simp add: m'_def)
  qed
  then have "bytes m' b (length w) = w" using bytes_store [of w b m] assms(2) by simp
  then show "cstr m' b w" using cstr_bytes [of m' b "length w" w] assms(3) by (simp add: m'_def)
  show "m' a = m a" if "\<not> in_block b 256 a" for a
  proof -
    have ne: "a \<noteq> b + of_nat i" if "i < 256" for i
      using \<open>\<not> in_block b 256 a\<close> u [OF that] that by (auto simp: in_block_def)
    then have "store_bytes b w m a = m a" using assms(2) by (intro store_bytes_other) simp
    then show ?thesis using ne [of "length w"] assms(2) by (simp add: m'_def)
  qed
qed

lemma print_literal:
  assumes "literals_at m lit b" "s \<in> {''>'', help1, help2}" "shows_roll t p"
  shows "\<exists>t'. console_printf tmp [] (lit s) (m, t) = Some (Inr (m, t')) \<and> tty_color t' = tty_color t \<and>
    shows_roll t' (fold (roll_put (tty_color t)) (ascii s) p)"
proof -
  have "37 \<notin> set (ascii s)" using assms(2) by (auto simp: ascii_def help1_def help2_def)
  moreover have "cstr m (lit s) (ascii s)" using assms(1,2) by (auto simp: literals_at_def literals_def)
  ultimately show ?thesis using console_printf_text [of m "lit s" "ascii s" "[]" "[]" t p tmp] render_plain [of "ascii s"] assms(3) by simp
qed

lemma print_invalid:
  assumes "literals_at m lit b" "cstr m b w" "b \<noteq> 0" "shows_roll t p"
  shows "\<exists>t'. console_printf tmp [b] (lit invalid) (m, t) = Some (Inr (m, t')) \<and>
    shows_roll t' (fold (roll_put (tty_color t)) (reply Invalid w) p)"
proof -
  let ?a = "ascii (''invalid command '' @ [CHR 0x22])"
  have i: "ascii invalid = ?a @ 37 # 115 # [0x22, 0x0A]" by (simp add: ascii_def invalid_def)
  have "37 \<notin> set ?a" "(37 :: u8) \<notin> set [0x22, 0x0A]" by (simp_all add: ascii_def)
  note r = render_string(1) [OF this, of w, folded i] render_string(2) [OF this, folded i]
  have "cstr m (lit invalid) (ascii invalid)" using assms(1) by (simp add: literals_at_def literals_def)
  from console_printf_text [OF this, of "[w]" "[b]" t p tmp] r assms(2-4) show ?thesis by (auto simp: reply_def)
qed

lemma dsh_execute_ok:
  assumes "literals_at m lit b" "cstr m b w" "b \<noteq> 0" "shows_roll t p" "tty_color t = 2"
  shows "\<exists>t'. dsh_execute lit tmp b m t = Some (Inr (lookup w, m, t')) \<and>
    shows_roll t' (if lookup w = Clear then (roll0, 0) else fold (roll_put 2) (reply (lookup w) w) p)"
proof -
  have "select b lit m commands = Some (lookup w)"
    unfolding lookup_def by (rule select_lookup [OF _ assms(2)]) (use assms(1) in \<open>force simp: literals_at_def literals_def\<close>)
  note ex = dsh_execute_def [of lit tmp b m t, unfolded this]
  show ?thesis
  proof (cases "lookup w")
    case Help
    obtain t3 where t3: "console_printf tmp [] (lit help1) (m, t) = Some (Inr (m, t3))" "tty_color t3 = 2"
      "shows_roll t3 (fold (roll_put 2) (ascii help1) p)"
      using print_literal [OF assms(1) _ assms(4), of help1 tmp] assms(5) by auto
    obtain t4 where "console_printf tmp [] (lit help2) (m, t3) = Some (Inr (m, t4))"
      "shows_roll t4 (fold (roll_put 2) (ascii help2) (fold (roll_put 2) (ascii help1) p))"
      using print_literal [OF assms(1) _ t3(3), of help2 tmp] t3(2) by auto
    then show ?thesis using Help t3(1) by (simp add: ex reply_def)
  next
    case Clear
    have "length (tty_buf t) = 2000" using assms(4) by (auto simp: shows_roll_def window_def)
    then show ?thesis using tty_clear_roll assms(5) Clear by (fastforce simp: ex)
  next
    case Invalid
    then show ?thesis using print_invalid [OF assms(1-4), of tmp] assms(5) by (auto simp: ex)
  qed (use assms(4) in \<open>simp_all add: ex reply_def\<close>)
qed

section \<open>Theorems\<close>


text \<open>
  C21. Whatever is typed, however long the line is, the reading loop ends after at most 255 characters, writes nothing
  outside the 256 bytes of the buffer, and unless the reboot shortcut was hit it leaves a terminated
  string of at most 255 characters there. What is typed beyond starts the next line.
\<close>

theorem read_line_bounded:
  assumes "keeps_typing input" "fits_block b 256" "shows_roll t p"
  shows "\<exists>l. read_line 255 input b 0 n m t = Some (Inr l) \<and>
    (case l of
       Line n' m' t' \<Rightarrow> n' \<le> n + 255 \<and> (\<forall>a. \<not> in_block b 256 a \<longrightarrow> m' a = m a) \<and> (\<exists>w. length w \<le> 255 \<and> cstr m' b w)
     | Restart n' m' t' \<Rightarrow> n' \<le> n + 255 \<and> (\<forall>a. \<not> in_block b 256 a \<longrightarrow> m' a = m a))"
proof -
  obtain l where l: "read_line 255 input b 0 n m t = Some (Inr l)" "line_stays b n 255 m l"
    using read_line_stays_loop [OF assms(1,2) _ assms(3), of 0 255] by auto
  show ?thesis
  proof (cases l)
    case (Line n' m' t')
    then obtain j where "j \<le> 255" "m' (b + of_nat j) = 0" using l(2) by (auto simp: line_stays_def)
    with cstr_at_null [of m' b j] have "\<exists>w. length w \<le> 255 \<and> cstr m' b w" by (meson le_trans)
    then show ?thesis using l Line by (auto simp: line_stays_def)
  qed (use l in \<open>auto simp: line_stays_def\<close>)
qed

text \<open>The banner, and the buffer a heap with room gives.\<close>

lemma dsh_start_ok:
  assumes "cstr m (lit banner) (ascii banner)" "date \<noteq> 0" "cstr m date d" "time \<noteq> 0" "cstr m time c" "shows_roll t p"
    "heap_wf h" "kmalloc h 256 = Some (Inr (b, h'))" "b \<noteq> 0"
  shows "\<exists>t'. dsh_start lit tmp date time h m t = Some (Inr (b, h', m, t')) \<and> heap_wf h' \<and> fits_block b 256 \<and>
    shows_roll t' (fold (roll_put (tty_color t)) (ascii ''DeimOS (c)2015 Built on '' @ d @ ascii '' at '' @ c @ [0x0A]) p)"
proof -
  have r: "req_ok 256" by (simp add: req_ok_def)
  obtain m0 where m0: "heap_wf h'" "unat (256 :: u32) + 20 \<le> unat m0" "heap_live h' b m0"
    using km.alloc_ret [OF assms(7) r assms(8)] km.alloc_live [OF assms(7) r assms(8,9)] by auto
  then have "fits_block b 256" using live_bound [OF m0(1,3)] by (simp add: fits_block_def)
  note fits = this
  have f: "only_s (ascii banner) 2"
    "render (ascii banner) [d, c] = ascii ''DeimOS (c)2015 Built on '' @ d @ ascii '' at '' @ c @ [0x0A]"
    by (simp_all add: ascii_def banner_def)
  have "\<And>i. i < length [d, c] \<Longrightarrow> [date, time] ! i \<noteq> 0 \<and> cstr m ([date, time] ! i) ([d, c] ! i)"
    using assms(2-5) by (auto simp: less_Suc_eq)
  moreover have "only_s (ascii banner) (length [d, c])" using f(1) by (simp add: numeral_2_eq_2)
  ultimately obtain t' where
    "console_printf tmp [date, time] (lit banner) (m, t) = Some (Inr (m, t'))"
    "shows_roll t' (fold (roll_put (tty_color t)) (render (ascii banner) [d, c]) p)"
    using console_printf_text [OF assms(1) _ _ _ assms(6), of "[d, c]" "[date, time]" tmp] by auto
  note printed = this
  then show ?thesis using assms(8) m0(1) fits unfolding f(2) by (auto simp: dsh_start_def)
qed

section \<open>The test commands\<close>

lemma task_test_loop_nops: "task_test_loop n = n + 400000000"
proof -
  have count: "fold (\<lambda>j n. n + k) [0..<l] n = n + l * k" for k l n :: nat by (induction l arbitrary: n) simp_all
  have "fold (\<lambda>j n. Suc n) [0..<20000] m = m + 20000" for m :: nat using count [of 1 20000 m] by (simp del: upt_rec_numeral)
  then have "task_test_loop n = fold (\<lambda>i n. n + 20000) [0..<20000] n" by (simp add: task_test_loop_def del: upt_rec_numeral)
  then show ?thesis using count [of 20000 20000 n] by simp
qed

text \<open>\<open>taken h0 ps h\<close>: heap \<open>h\<close> has the live blocks of \<open>h0\<close> and those at \<open>ps\<close>, which are new.\<close>

definition taken :: "heap \<Rightarrow> addr list \<Rightarrow> heap \<Rightarrow> bool" where
  "taken h0 ps h \<longleftrightarrow> heap_wf h \<and> distinct ps \<and> (\<forall>q \<in> set ps. (\<exists>k. heap_live h q k) \<and> (\<forall>k. \<not> heap_live h0 q k)) \<and>
     (\<forall>q k. q \<notin> set ps \<longrightarrow> (heap_live h q k \<longleftrightarrow> heap_live h0 q k))"

lemma free_all_taken: "taken h0 ps h \<Longrightarrow> \<exists>h'. free_all ps h = Inr h' \<and> taken h0 [] h'"
proof (induction ps arbitrary: h)
  case (Cons p ps)
  then obtain k where k: "heap_wf h" "heap_live h p k" by (auto simp: taken_def)
  obtain h1 where h1: "kfree h p = Inr h1" "heap_wf h1" "\<forall>q j. heap_live h1 q j \<longleftrightarrow> heap_live h q j \<and> q \<noteq> p"
    using km.free_live [OF k] by blast
  have "Ex (heap_live h1 q) \<longleftrightarrow> Ex (heap_live h q) \<and> q \<noteq> p" for q using h1(3) by blast
  then have "taken h0 ps h1" using Cons.prems h1(2,3) unfolding taken_def by (auto; metis)
  then show ?case using Cons.IH h1(1) by auto
qed simp

lemma heap_test_loop_taken:
  "taken h0 ps h \<Longrightarrow> heap_test_loop n ps h = Some r \<Longrightarrow>
   \<exists>ok qs h'. r = Inr (ok, qs, h') \<and> (if ok then length qs = length ps + n \<and> taken h0 qs h' else taken h0 [] h')"
proof (induction n arbitrary: ps h)
  case 0
  then show ?case by (intro exI [of _ True] exI [of _ ps] exI [of _ h]) simp
next
  case (Suc n)
  have wf: "heap_wf h" and r8: "req_ok 8192" using Suc.prems(1) by (simp_all add: taken_def req_ok_def)
  obtain r0 where r0: "kmalloc_a h 8192 = Some r0" using Suc.prems(2) by (cases "kmalloc_a h 8192") auto
  obtain p h1 where p: "r0 = Inr (p, h1)" "heap_wf h1" using kma.alloc_ret [OF wf r8 r0] by blast
  show ?case
  proof (cases "p = 0")
    case True
    then have "h1 = h" using kma.alloc_null [OF wf r8] r0 p by simp
    obtain h2 where "free_all ps h = Inr h2" "taken h0 [] h2" using free_all_taken [OF Suc.prems(1)] by blast
    then show ?thesis using Suc.prems(2) r0 p True \<open>h1 = h\<close> by auto
  next
    case False
    obtain m where m: "\<forall>k. \<not> heap_live h p k" "\<forall>q k. heap_live h1 q k \<longleftrightarrow> heap_live h q k \<or> q = p \<and> k = m"
      using kma.alloc_live [OF wf r8] r0 p(1) False by blast
    have "p \<notin> set ps" using m(1) Suc.prems(1) by (auto simp: taken_def)
    moreover have "Ex (heap_live h1 q) \<longleftrightarrow> Ex (heap_live h q) \<or> q = p" for q using m(2) by blast
    ultimately have t: "taken h0 (ps @ [p]) h1" using Suc.prems(1) m p(2) unfolding taken_def by auto
    have "heap_test_loop n (ps @ [p]) h1 = Some r" using Suc.prems(2) r0 p(1) False by simp
    from Suc.IH [OF t this] obtain ok qs h' where "r = Inr (ok, qs, h')"
      "if ok then length qs = length (ps @ [p]) + n \<and> taken h0 qs h' else taken h0 [] h'" by blast
    then show ?thesis by (intro exI [of _ ok] exI [of _ qs] exI [of _ h']) (cases ok, simp_all)
  qed
qed

text \<open>
  Whenever \<open>heap_test\<close> returns, the heap is well formed; a test that ran out of memory has freed all it
  took, but a test that succeeds keeps its thousand blocks for good.
\<close>

theorem heap_test_leaks:
  assumes "heap_wf h" "heap_test h = Some r"
  shows "\<exists>ok ps h'. r = Inr (ok, ps, h') \<and> heap_wf h' \<and>
    (if ok then length ps = 1000 \<and> distinct ps \<and> (\<forall>p \<in> set ps. (\<exists>k. heap_live h' p k) \<and> (\<forall>k. \<not> heap_live h p k))
     else \<forall>q k. heap_live h' q k \<longleftrightarrow> heap_live h q k)"
proof -
  have "taken h [] h" using assms(1) by (simp add: taken_def)
  from heap_test_loop_taken [OF this assms(2) [unfolded heap_test_def]] obtain ok ps h' where
    "r = Inr (ok, ps, h')" "if ok then length ps = 1000 \<and> taken h ps h' else taken h [] h'" by auto
  then show ?thesis by (cases ok) (auto simp: taken_def)
qed

text \<open>
  Each round of \<open>task_test\<close> that gets a task appends one ready task that starts in the test loop.
\<close>

lemma task_test_round:
  assumes "sched_inv s rs ss" "states_ok s rs ss" "new_task s = Some (Inr (t, s1))"
  shows "\<exists>s'. obind (create_kernel_task fn s) (\<lambda>(_, s). Some (Inr s)) = Some (Inr s') \<and>
    (if t = 0 then s' = s1 else sched_inv s' (rs @ [t]) ss \<and> states_ok s' (rs @ [t]) ss \<and> eip (task s' t) = fn)"
proof (cases "t = 0")
  case True
  then show ?thesis using assms(3) by (simp add: create_kernel_task_def)
next
  case False
  from create_kernel_task_ok [OF assms False, of fn] show ?thesis using False by auto
qed

section \<open>A concrete shell\<close>

text \<open>All literals in a row of areas of 256 bytes, and somebody who types \<open>mem\<close>.\<close>

definition literal_list :: "string list" where
  "literal_list = map fst commands @ [''>'', help1, help2, invalid]"

definition lit0 :: "string \<Rightarrow> addr" where
  "lit0 s = of_nat (0x10000 + 0x100 * length (takeWhile (\<lambda>x. x \<noteq> s) literal_list))"

definition mem_lits :: mem where
  "mem_lits a = (let k = (unat a - 0x10000) div 0x100; j = (unat a - 0x10000) mod 0x100 in
     if 0x10000 \<le> unat a \<and> k < length literal_list \<and> j < length (literal_list ! k) then ascii (literal_list ! k) ! j else 0)"

definition typist :: "nat \<Rightarrow> nat \<Rightarrow> kbd" where
  "typist n i = kbd0\<lparr>buf := [0x32, 0x12, 0x32, 0x1C] ! n\<rparr>"

lemma literal_list_short: "s \<in> set literal_list \<Longrightarrow> length s < 0x80 \<and> 0 \<notin> set (ascii s)"
  unfolding literal_list_def commands_def help1_def help2_def invalid_def by (auto simp: ascii_def)

lemma literals_at0: "literals_at mem_lits lit0 0x8000"
  unfolding literals_at_def
proof (intro ballI)
  fix s assume "s \<in> literals"
  then have s: "s \<in> set literal_list" by (auto simp: literals_def literal_list_def)
  let ?k = "length (takeWhile (\<lambda>x. x \<noteq> s) literal_list)"
  have k: "?k < length literal_list" using length_takeWhile_le [of "\<lambda>x. x \<noteq> s" literal_list] s takeWhile_eq_all_conv [of "\<lambda>x. x \<noteq> s" literal_list]
    by (metis (mono_tags, lifting) le_neq_implies_less takeWhile_eq_take take_all_iff order_refl)
  then have ks: "literal_list ! ?k = s" using nth_length_takeWhile [of "\<lambda>x. x \<noteq> s" literal_list] by simp
  have len: "length literal_list = 24" by (simp add: literal_list_def commands_def)
  note sh = literal_list_short [OF s]
  have u: "unat (lit0 s + of_nat i) = 0x10000 + 0x100 * ?k + i" if "i < 0x80" for i
  proof -
    have "unat (lit0 s) = 0x10000 + 0x100 * ?k" using k len unfolding lit0_def by (intro unat_of_nat32) linarith
    moreover have "unat (of_nat i :: u32) = i" using that by (intro unat_of_nat32) simp
    ultimately show ?thesis using that k len by (simp add: unat_add32)
  qed
  have at: "mem_lits (lit0 s + of_nat i) = (if i < length s then ascii s ! i else 0)" if "i < 0x80" for i
  proof -
    have "(0x100 * ?k + i) div 0x100 = ?k" "(0x100 * ?k + i) mod 0x100 = i" using that by simp_all
    then show ?thesis using u [OF that] k ks by (simp add: mem_lits_def Let_def)
  qed
  have "bytes mem_lits (lit0 s) (length s) = ascii s"
    by (rule nth_equalityI) (use at sh in \<open>simp_all add: bytes_nth ascii_def\<close>)
  then have "cstr mem_lits (lit0 s) (ascii s)" using cstr_bytes [of mem_lits "lit0 s" "length s" "ascii s"] at [of "length s"] sh by simp
  moreover have "\<not> in_block 0x8000 256 (lit0 s + of_nat i)" if "i \<le> length s" for i
    using u [of i] that sh by (simp add: in_block_def)
  ultimately show "cstr mem_lits (lit0 s) (ascii s) \<and> (\<forall>i \<le> length s. \<not> in_block 0x8000 256 (lit0 s + of_nat i))" by blast
qed

lemma getchar_key:
  assumes "kbd_get_key k = Inr key" "kbd_key_to_ascii key k \<noteq> 0"
  shows "getchar (\<lambda>_. k) = Some (Inr (scast (kbd_key_to_ascii key k), kbd_clr_key k))"
  unfolding getchar_def by (subst tty_getchar.simps) (simp add: assms)

lemma typist_types: "types typist 0 (ascii ''mem'' @ [0x0A])"
proof -
  have "kbd_get_key (kbd0\<lparr>buf := 0x32\<rparr>) = Inr 0x6D" "kbd_get_key (kbd0\<lparr>buf := 0x12\<rparr>) = Inr 0x65" "kbd_get_key (kbd0\<lparr>buf := 0x1C\<rparr>) = Inr 0x0A"
    by (simp_all add: kbd_get_key_def xt_lookup_def xt_scan_def key_defs)
  moreover have "kbd_key_to_ascii 0x6D (kbd0\<lparr>buf := x\<rparr>) = 0x6D" "kbd_key_to_ascii 0x65 (kbd0\<lparr>buf := x\<rparr>) = 0x65"
    "kbd_key_to_ascii 0x0A (kbd0\<lparr>buf := x\<rparr>) = 0x0A" for x
    by (simp_all add: kbd_key_to_ascii_def kbd_is_ascii_printable_def kbd0_def)
  ultimately have "\<exists>k. getchar (\<lambda>_. kbd0\<lparr>buf := 0x32\<rparr>) = Some (Inr (scast (0x6D :: u8), k))"
    "\<exists>k. getchar (\<lambda>_. kbd0\<lparr>buf := 0x12\<rparr>) = Some (Inr (scast (0x65 :: u8), k))"
    "\<exists>k. getchar (\<lambda>_. kbd0\<lparr>buf := 0x1C\<rparr>) = Some (Inr (scast (0x0A :: u8), k))"
    using getchar_key [of "kbd0\<lparr>buf := 0x32\<rparr>" "0x6D"] getchar_key [of "kbd0\<lparr>buf := 0x12\<rparr>" "0x65"] getchar_key [of "kbd0\<lparr>buf := 0x1C\<rparr>" "0x0A"]
    by simp_all
  moreover have "typist 0 = (\<lambda>_. kbd0\<lparr>buf := 0x32\<rparr>)" "typist (Suc 0) = (\<lambda>_. kbd0\<lparr>buf := 0x12\<rparr>)"
    "typist (Suc (Suc 0)) = (\<lambda>_. kbd0\<lparr>buf := 0x32\<rparr>)" "typist (Suc (Suc (Suc 0))) = (\<lambda>_. kbd0\<lparr>buf := 0x1C\<rparr>)"
    by (simp_all add: typist_def fun_eq_iff)
  moreover have "ascii ''mem'' = [0x6D, 0x65, 0x6D]" by (simp add: ascii_def)
  moreover have "types typist n []" for n by (simp add: types_def)
  ultimately show ?thesis by (simp add: types_Cons)
qed


text \<open>A key held down: 255 times the letter m, without a newline.\<close>

theorem read_line_bounded_witness:
  "\<exists>l. read_line 255 (\<lambda>_ _. kbd0\<lparr>buf := 0x32\<rparr>) 0x8000 0 0 mem_lits
      \<lparr>tty_buf = replicate 2000 0x20, tty_color = 2, tty_row = 24, tty_col = 79, tty_ports = []\<rparr> = Some (Inr l)"
proof -
  have "kbd_get_key (kbd0\<lparr>buf := 0x32\<rparr>) = Inr 0x6D" by (simp add: kbd_get_key_def xt_lookup_def xt_scan_def key_defs)
  moreover have "kbd_key_to_ascii 0x6D (kbd0\<lparr>buf := 0x32\<rparr>) = 0x6D"
    by (simp add: kbd_key_to_ascii_def kbd_is_ascii_printable_def kbd0_def)
  ultimately have "getchar (\<lambda>_. kbd0\<lparr>buf := 0x32\<rparr>) = Some (Inr (scast (0x6D :: u8), kbd_clr_key (kbd0\<lparr>buf := 0x32\<rparr>)))"
    using getchar_key [of "kbd0\<lparr>buf := 0x32\<rparr>" "0x6D"] by simp
  then have "keeps_typing (\<lambda>_ _. kbd0\<lparr>buf := 0x32\<rparr>)" unfolding keeps_typing_def by blast
  from read_line_bounded [OF this _ tty1, of "0x8000" 0 mem_lits] show ?thesis by (auto simp: fits_block_def)
qed

end
