(* ===== verification/Spec2Isabelle.thy ===== *)
theory Spec2Isabelle
  imports Mm Sched_Machine Clib Tty Typing Pit Gdt Spinlock Pci Arp Ata Rtl Acpi Kernel Kalloc_Trace Kcalloc Shell
begin

text \<open>
  Verification development for deimos, a small kernel for the i386 (\<open>src/kernel\<close>, \<open>src/arch/i386\<close>,
  \<open>src/drivers\<close> and the headers under \<open>src/include\<close>).

  \<^bold>\<open>The program.\<close> \<open>kmain\<close> (\<open>kernel/kernel.c\<close>) sets up the console, the processor tables and interrupt
  controllers, memory management, the scheduler, the PCI bus and the network layer, starts a
  task that runs the shell and then yields forever. The clock interrupt enters the scheduler,
  device interrupts run the handlers that drivers registered. The drivers (\<open>drivers/\<close>) are started
  from the shell; they register drives with the disk manager and devices with the network layer.
  Nearly every part allocates its structures from one kernel heap.

  \<^bold>\<open>How code is modelled.\<close> Every C function is a HOL function of the same name on explicit state; a
  structure is a record, the objects of a type lie in a store from addresses to records, and a
  32-bit pointer is its address, null being 0. Stores of different types are apart, so a write past
  the end of a block, like the first frame on the stack of a new task (\<open>setup_stack_outside\<close> in
  \<open>Task\<close>), is seen as such but damages no structure of another type. Integers are words of their C width, so arithmetic
  wraps as it does on the machine. A function that may call \<open>kpanic\<close> or make an access C does not
  define returns \<open>kerror + 'a\<close>; a loop that may run forever is a \<open>partial_function (option)\<close> whose value \<open>None\<close>
  is the run that never ends, and the theorems prove that it returns, they do not assume it. No
  loop has fuel. Port input and output is a history of accesses, and a device is an arbitrary
  function from the history to the value a read returns; what a driver relies on of its hardware
  is a hypothesis on that function, with a concrete device in the witness. The callbacks of a
  driver, the transfers of a card into memory and the addresses the linker assigns are parameters
  in the same way. A record of one component extends that of another where the code of one runs
  on the variables of the other (\<open>ata\<close> on \<open>disk\<close>, \<open>rtl\<close> on \<open>interrupts\<close>).

  \<^bold>\<open>The library.\<close>
  \<^item> \<open>Prelude\<close>: word types, outcomes, typed stores, 32-bit arithmetic read as arithmetic on naturals, bit fields.
  \<^item> \<open>Linked\<close>: singly linked lists in a store, the locale \<open>linked\<close> with the laws of updating one link, and
    the list operations of the device, drive and volume lists; interpreted for tasks, handler chains, PCI
    functions, network devices, drives and volumes.
  \<^item> \<open>Ports\<close>: histories, devices, the access functions of \<open>asm_util.h\<close>, waiting for a register.
  \<^item> \<open>Paging\<close> (\<open>paging.c\<close>), \<open>Frames\<close> (\<open>frame.c\<close>), \<open>Kalloc\<close> and \<open>Kalloc_Spec\<close> (\<open>kalloc.c\<close>), \<open>Mm\<close> (\<open>mm.c\<close>): translation of the
    kernel window, the bitmap allocator hands out the lowest free frame, the heap refines first fit
    with coalescing on a list of blocks. The locales \<open>allocator_laws\<close> and \<open>allocator\<close> state the contract of
    an allocator; the heap interprets them (\<open>km\<close>, \<open>kma\<close>, \<open>kmr\<close>) and the clients below use only these laws; the start of the kernel also uses the bounds of \<open>Kalloc_Room\<close>.
    \<open>Mm\<close> composes them: every block of the heap is mapped. \<open>Kalloc_Trace\<close> runs whole sequences of requests on
    the heap and on block lists in step, and interrupts a request between the search for a block and its taking.
  \<^item> \<open>Task\<close> (\<open>task.c\<close>), \<open>Sched\<close> and \<open>Sched_Spec\<close> (\<open>sched.c\<close>): the ready and sleep queues, switching as round robin with
    freeing of killed tasks, fairness of yielding, the delta queue of sleepers. \<open>Sched_Machine\<close> makes every operation
    and the clock interrupt a step and proves, by rule induction, what holds in every reachable state, how each operation
    can fail, and that no memory of a task is lost; it also shows what an interrupt inside \<open>enqueue_ready_task\<close> does.
  \<^item> \<open>Cstring\<close>, \<open>Clib\<close>: \<open>kernel/string\<close>, \<open>ctype\<close>, \<open>stdlib\<close>, \<open>stdio\<close> on byte memory; \<open>Printf\<close>: \<open>printf\<close> against a reference formatter.
  \<^item> \<open>Pic\<close>, \<open>Gdt\<close>, \<open>Idt\<close>, \<open>Isr\<close> and \<open>Isr_Spec\<close>, \<open>Pit\<close>: controllers as chips that follow the writes, descriptor encodings,
    the chains of interrupt handlers and their dispatch, the clock.
  \<^item> \<open>Keyboard\<close> (\<open>ps2.c\<close>, \<open>ps2_kbd.c\<close>, \<open>ps2_keys.h\<close>), \<open>Tty\<close> (\<open>tty.c\<close>; the screen as a window on an endless roll), \<open>Typing\<close> (the keyboard
    interrupt and the reader of \<open>tty.c\<close> interleaved), \<open>Spinlock\<close> (\<open>spinlock.c\<close>; an inductive step relation of interleaved threads, mutual exclusion by rule induction).
  \<^item> \<open>Pci\<close> (\<open>pci.c\<close>), \<open>Net\<close> (\<open>net.c\<close>), \<open>Arp\<close> (\<open>arp.c\<close>, \<open>ether.c\<close>, \<open>ip.c\<close>, \<open>endian.h\<close>), \<open>Disk\<close> (\<open>disk.c\<close>): enumeration of the bus, device
    registries, the ARP cache as a finite map, boot records and volumes.
  \<^item> \<open>Ata\<close> (\<open>ata_pio.c\<close>) and \<open>Rtl\<close> (\<open>rtl8139.c\<close>): the drivers on top of the disk manager, and of the interrupt
    system, the PCI bus and the network layer.
  \<^item> \<open>Acpi\<close> (\<open>acpi.c\<close>): the search for the root pointer agrees with a search over the list of boundaries.
  \<^item> \<open>Console\<close> (\<open>error.c\<close>, \<open>vfs.c\<close>, \<open>power.c\<close>), \<open>Kcalloc\<close> (\<open>kcalloc\<close>), \<open>Shell\<close> (\<open>dsh.c\<close>): messages on the screen, cleared
    allocations, a round of the shell as a lookup in the table of commands.
  \<^item> \<open>Boot\<close> (\<open>arch.c\<close>), \<open>Kalloc_Room\<close>, \<open>Kernel\<close> (\<open>kernel.c\<close>): the parts put together. \<open>arch_init\<close> sets up the
    interrupt system before there is a heap, which is why the first handler of a vector has its
    place in a static table; \<open>kmain\<close> hands heap and ports from part to part and reaches its idle
    loop with all invariants established. \<open>Kalloc_Room\<close> bounds what a young heap gives away, so that
    neither of the two aligned requests of the start can hang or fail.

  \<^bold>\<open>What the theorems show.\<close> The numbered properties stand before their theorems, with their numbers: the
  behaviour of each operation on all its branches, invariants, refinement of the abstract
  structures, round trips of the encodings, the start of the whole kernel, and, where the code does not do what it means to, a
  theorem that says exactly what it does (the sleep queue, \<open>kmalloc_a\<close>, the largest ATA read, the
  failing paths of the drivers).

  \<^bold>\<open>Not modelled.\<close> The assembly files (\<open>boot.s\<close>, \<open>isr_wrappers.s\<close>, \<open>asm_util.s\<close>) and the inline assembly other than the
  port accesses: they are below the level of C, and appear as parameters (interrupt stubs) or as
  fields of the state (\<open>cr3\<close>, the interrupt flag, the saved registers). The endless loop of the shell beyond one
  round: the commands that call other components are named, and those components are modelled on their own states. The declarations of \<open>multiboot.h\<close> the kernel never reads, and \<open>ext2.c\<close>, which only declares.
  Asynchronous interruption of C code in the middle of a function is modelled in four places only: the lock word of
  \<open>Spinlock\<close>, the shared scan code of \<open>Typing\<close>, the choice of a block in \<open>Kalloc_Trace\<close>, and the two stores of \<open>enqueue_ready_task\<close> in \<open>Sched_Machine\<close>. Elsewhere
  a function runs to its end. The kernel disables interrupts for \<open>switch_task\<close> and in its interrupt routines, but not for
  the heap, the other queues and the registries, so the theorems about those speak of calls that are not
  preempted.
\<close>

end
